(* ===== verification/Walr_Prelude.thy ===== *)
theory Walr_Prelude
  imports Main "HOL-Library.Word" "HOL-Library.AList" "HOL-Library.Multiset"
begin

text \<open>
  What every component of the development shares: the machine integers of the Rust sources, the
  standard-library containers the engine is built from (hash maps as association lists with
  distinct keys, \<open>Vec::swap_remove\<close>, saturating subtraction, big-endian integers, UTF-8 repair),
  and the generic facts about them. Arithmetic on the integer types wraps, which is what the
  release profile of the workspace does (\<open>Cargo.toml\<close> leaves \<open>overflow-checks\<close> off there).
\<close>

unbundle bit_operations_syntax

section \<open>Machine integers and strings\<close>

type_synonym u8 = "8 word"
type_synonym u16 = "16 word"
type_synonym u32 = "32 word"
type_synonym u64 = "64 word"
type_synonym u128 = "128 word"

text \<open>The servers are 64-bit: \<open>usize\<close> and \<open>u64\<close> have the same width, and the casts between
  them are the identity. Ulids and Uuids are both 128-bit numbers, and the code converts between
  them through \<open>as_u128\<close> and \<open>from_u128\<close>.\<close>

type_synonym usize = "64 word"
type_synonym ulid = "128 word"
type_synonym uuid = "128 word"
type_synonym bytes = "8 word list"

definition sat_sub :: "'a::len word \<Rightarrow> 'a word \<Rightarrow> 'a word" where
  "sat_sub a b = (if b \<le> a then a - b else 0)"

text \<open>A Rust \<open>String\<close> is its UTF-8 bytes; an Isabelle character is one byte.\<close>

definition as_bytes :: "string \<Rightarrow> bytes" where
  "as_bytes s = map (\<lambda>c. word_of_nat (of_char c)) s"

definition of_bytes :: "bytes \<Rightarrow> string" where
  "of_bytes bs = map (\<lambda>b. char_of (unat b)) bs"

section \<open>Big-endian integers\<close>

text \<open>\<open>to_be_bytes\<close> and \<open>from_be_bytes\<close> of the unsigned integers, for a width of \<open>n\<close> bytes.\<close>

primrec to_be_bytes :: "nat \<Rightarrow> 'a::len word \<Rightarrow> bytes" where
  "to_be_bytes 0 w = []"
| "to_be_bytes (Suc n) w = to_be_bytes n (drop_bit 8 w) @ [ucast w]"

definition from_be_bytes :: "bytes \<Rightarrow> 'a::len word" where
  "from_be_bytes bs = foldl (\<lambda>acc b. push_bit 8 acc OR ucast b) 0 bs"

section \<open>Vectors and hash maps\<close>

text \<open>\<open>Vec::swap_remove(i)\<close>: the last element takes the place of the removed one.\<close>

definition swap_remove :: "'a list \<Rightarrow> nat \<Rightarrow> 'a list" where
  "swap_remove xs i = butlast (xs[i := last xs])"

text \<open>\<open>iter().position(p)\<close>.\<close>

fun position :: "('a \<Rightarrow> bool) \<Rightarrow> 'a list \<Rightarrow> nat option" where
  "position P [] = None"
| "position P (x # xs) = (if P x then Some 0 else map_option Suc (position P xs))"

text \<open>
  A \<open>HashMap\<close> is an association list with distinct keys. Its iteration order is not specified
  by the standard library; where the code iterates over a map, the model takes the order from a
  parameter that permutes the keys.
\<close>

type_synonym ('k, 'v) hmap = "('k \<times> 'v) list"

abbreviation hm_get :: "('k, 'v) hmap \<Rightarrow> 'k \<Rightarrow> 'v option" where
  "hm_get \<equiv> map_of"

abbreviation hm_insert :: "'k \<Rightarrow> 'v \<Rightarrow> ('k, 'v) hmap \<Rightarrow> ('k, 'v) hmap" where
  "hm_insert \<equiv> AList.update"

abbreviation hm_remove :: "'k \<Rightarrow> ('k, 'v) hmap \<Rightarrow> ('k, 'v) hmap" where
  "hm_remove \<equiv> AList.delete"

abbreviation hm_keys :: "('k, 'v) hmap \<Rightarrow> 'k list" where
  "hm_keys m \<equiv> map fst m"

definition hm_contains :: "('k, 'v) hmap \<Rightarrow> 'k \<Rightarrow> bool" where
  "hm_contains m k \<longleftrightarrow> hm_get m k \<noteq> None"

abbreviation hm_wf :: "('k, 'v) hmap \<Rightarrow> bool" where
  "hm_wf m \<equiv> distinct (hm_keys m)"

section \<open>UTF-8\<close>

text \<open>
  \<open>String::from_utf8_lossy\<close>: the input is cut into well-formed characters and maximal ill-formed
  pieces, and each ill-formed piece becomes the three bytes of U+FFFD. \<open>utf8_step\<close> looks at the
  front of a non-empty input: how many bytes the next piece takes, and whether it is well-formed.
\<close>

definition byte_at :: "bytes \<Rightarrow> nat \<Rightarrow> u8" where
  "byte_at bs i = (if i < length bs then bs ! i else 0)"

definition is_cont :: "u8 \<Rightarrow> bool" where
  "is_cont b \<longleftrightarrow> b AND 0xC0 = 0x80"

definition utf8_second_ok :: "u8 \<Rightarrow> u8 \<Rightarrow> bool" where
  "utf8_second_ok b c \<longleftrightarrow>
     (if b = 0xE0 then 0xA0 \<le> c \<and> c \<le> 0xBF
      else if b = 0xED then 0x80 \<le> c \<and> c \<le> 0x9F
      else if b = 0xF0 then 0x90 \<le> c \<and> c \<le> 0xBF
      else if b = 0xF4 then 0x80 \<le> c \<and> c \<le> 0x8F
      else 0x80 \<le> c \<and> c \<le> 0xBF)"

definition utf8_step :: "bytes \<Rightarrow> nat \<times> bool" where
  "utf8_step bs =
     (let b = byte_at bs 0 in
      if b < 0x80 then (1, True)
      else if 0xC2 \<le> b \<and> b \<le> 0xDF then
        (if is_cont (byte_at bs 1) then (2, True) else (1, False))
      else if 0xE0 \<le> b \<and> b \<le> 0xEF then
        (if \<not> utf8_second_ok b (byte_at bs 1) then (1, False)
         else if is_cont (byte_at bs 2) then (3, True) else (2, False))
      else if 0xF0 \<le> b \<and> b \<le> 0xF4 then
        (if \<not> utf8_second_ok b (byte_at bs 1) then (1, False)
         else if \<not> is_cont (byte_at bs 2) then (2, False)
         else if is_cont (byte_at bs 3) then (4, True) else (3, False))
      else (1, False))"

lemma utf8_step_pos: "0 < fst (utf8_step bs)"
  by (simp add: utf8_step_def Let_def)

function from_utf8_lossy :: "bytes \<Rightarrow> bytes" where
  "from_utf8_lossy bs =
     (if bs = [] then []
      else let (n, ok) = utf8_step bs
           in (if ok then take n bs else [0xEF, 0xBF, 0xBD]) @ from_utf8_lossy (drop n bs))"
  by pat_completeness auto
termination
proof (relation "measure length")
  fix bs :: bytes and x n ok
  assume ne: "bs \<noteq> []" and x: "x = utf8_step bs" "(n, ok) = x"
  then have "0 < n" by (metis fst_conv utf8_step_pos)
  with ne show "(drop n bs, bs) \<in> measure length" by simp
qed simp

function valid_utf8 :: "bytes \<Rightarrow> bool" where
  "valid_utf8 bs =
     (if bs = [] then True
      else if snd (utf8_step bs) then valid_utf8 (drop (fst (utf8_step bs)) bs) else False)"
  by pat_completeness auto
termination
  by (relation "measure length") (auto simp: utf8_step_pos)

declare from_utf8_lossy.simps [simp del] valid_utf8.simps [simp del]

section \<open>Generic lemmas\<close>

named_theorems hmap_simps \<open>lookups in updated hash maps\<close>

lemma hm_get_insert [simp, hmap_simps]:
  "hm_get (hm_insert k v m) x = (if x = k then Some v else hm_get m x)"
  by (simp add: update_conv)

lemma hm_get_remove [simp, hmap_simps]:
  "hm_get (hm_remove k m) x = (if x = k then None else hm_get m x)"
  by (simp add: delete_conv)

lemma hm_wf_insert [simp, intro]: "hm_wf m \<Longrightarrow> hm_wf (hm_insert k v m)"
  by (rule distinct_update)

lemma hm_wf_remove [simp, intro]: "hm_wf m \<Longrightarrow> hm_wf (hm_remove k m)"
  by (rule distinct_delete)

lemma hm_get_None: "hm_get m k = None \<longleftrightarrow> k \<notin> set (hm_keys m)"
  by (simp add: map_of_eq_None_iff)

lemma hm_insert_new: "hm_get m k = None \<Longrightarrow> hm_insert k v m = m @ [(k, v)]"
  by (induction m) (auto split: if_splits)

lemma length_hm_insert:
  "length (hm_insert k v m) = (if hm_get m k = None then Suc (length m) else length m)"
  by (induction m) auto

lemma length_hm_remove:
  "hm_wf m \<Longrightarrow> length (hm_remove k m) = (if hm_get m k = None then length m else length m - 1)"
proof (induction m)
  case Nil
  then show ?case by simp
next
  case (Cons p m)
  then have IH: "length (hm_remove k m) = (if hm_get m k = None then length m else length m - 1)"
    and nin: "hm_get m (fst p) = None"
    by (auto simp: map_of_eq_None_iff)
  have "hm_get m k \<noteq> None \<Longrightarrow> 0 < length m" by (cases m) auto
  with IH nin show ?case by auto
qed

lemma hm_keys_insert: "set (hm_keys (hm_insert k v m)) = insert k (set (hm_keys m))"
  by (induction m) auto

lemma hm_keys_remove: "set (hm_keys (hm_remove k m)) = set (hm_keys m) - {k}"
  by (induction m) auto

lemma position_Some:
  "position P xs = Some i \<Longrightarrow> i < length xs \<and> P (xs ! i) \<and> (\<forall>j < i. \<not> P (xs ! j))"
  by (induction xs arbitrary: i) (auto split: if_splits simp: nth_Cons split: nat.splits)

lemma position_None: "position P xs = None \<longleftrightarrow> (\<forall>x \<in> set xs. \<not> P x)"
  by (induction xs) auto

lemma mset_swap_remove:
  assumes "i < length xs"
  shows "mset (swap_remove xs i) = mset xs - {#xs ! i#}"
proof -
  from assms have ne: "xs \<noteq> []" by auto
  let ?ys = "xs[i := last xs]"
  have lst: "last ?ys = last xs"
  proof (cases "i = length xs - 1")
    case True
    with ne assms show ?thesis by (simp add: last_conv_nth)
  next
    case False
    with ne assms show ?thesis by (simp add: last_conv_nth nth_list_update)
  qed
  from ne have "mset ?ys = add_mset (last ?ys) (mset (butlast ?ys))"
    by (metis append_butlast_last_id list_update_nonempty mset.simps(2) mset_append
        add_mset_add_single mset.simps(1))
  with lst have "mset (butlast ?ys) = mset ?ys - {#last xs#}" by simp
  also from assms have "mset ?ys = add_mset (last xs) (mset xs - {#xs ! i#})"
    by (simp add: mset_update)
  finally show ?thesis by (simp add: swap_remove_def)
qed

subsection \<open>Big-endian integers\<close>

lemma length_to_be_bytes [simp]: "length (to_be_bytes n w) = n"
  by (induction n arbitrary: w) auto

lemma from_be_bytes_snoc: "from_be_bytes (bs @ [b]) = push_bit 8 (from_be_bytes bs) OR ucast b"
  by (simp add: from_be_bytes_def)

lemma push_take_drop:
  fixes w :: "'a::len word"
  shows "push_bit 8 (take_bit n (drop_bit 8 w)) OR ucast (ucast w :: 8 word) = take_bit (n + 8) w"
  by (rule bit_word_eqI) (auto simp: bit_simps less_diff_conv)

lemma from_to_be_bytes_take: "from_be_bytes (to_be_bytes n w) = take_bit (8 * n) (w :: 'a::len word)"
proof (induction n arbitrary: w)
  case 0
  show ?case by (simp add: from_be_bytes_def)
next
  case (Suc n)
  then show ?case by (simp add: from_be_bytes_snoc push_take_drop add.commute)
qed

lemma from_to_be_bytes [simp]:
  "LENGTH('a) = 8 * n \<Longrightarrow> from_be_bytes (to_be_bytes n w) = (w :: 'a::len word)"
  by (simp add: from_to_be_bytes_take take_bit_word_eq_self)

subsection \<open>Strings\<close>

lemma length_as_bytes [simp]: "length (as_bytes s) = length s"
  by (simp add: as_bytes_def)

lemma of_as_bytes [simp]: "of_bytes (as_bytes s) = s"
proof -
  have "char_of (unat (word_of_nat (of_char c) :: 8 word)) = c" for c :: char
  proof -
    have "of_char c < (256 :: nat)" by (rule nat_of_char_less_256)
    then show ?thesis by (simp add: unat_of_nat)
  qed
  then show ?thesis by (simp add: as_bytes_def of_bytes_def comp_def)
qed

lemma from_utf8_lossy_valid: "valid_utf8 bs \<Longrightarrow> from_utf8_lossy bs = bs"
proof (induction bs rule: from_utf8_lossy.induct)
  case (1 bs)
  show ?case
  proof (cases "bs = []")
    case True
    then show ?thesis by (simp add: from_utf8_lossy.simps)
  next
    case False
    obtain n ok where st: "utf8_step bs = (n, ok)" by (cases "utf8_step bs")
    with 1(2) False have ok: "ok" and v: "valid_utf8 (drop n bs)"
      by (auto simp: valid_utf8.simps [of bs] split: if_splits)
    have "from_utf8_lossy (drop n bs) = drop n bs"
      using 1(1) [OF False refl st [symmetric] v] st by simp
    with False st ok show ?thesis by (subst from_utf8_lossy.simps) simp
  qed
qed

lemma valid_utf8_Nil [simp]: "valid_utf8 []"
  by (simp add: valid_utf8.simps)

lemma valid_utf8_ascii: "b < 0x80 \<Longrightarrow> valid_utf8 (b # bs) = valid_utf8 bs"
  by (subst valid_utf8.simps) (simp add: utf8_step_def byte_at_def)

subsection \<open>Words\<close>

lemma unat_of_nat_lt: "n < 2 ^ LENGTH('a) \<Longrightarrow> unat (word_of_nat n :: 'a::len word) = n"
  by (simp add: unat_of_nat)

lemma unat_plus_of_nat:
  fixes w :: "'a::len word"
  assumes "unat w + n < 2 ^ LENGTH('a)"
  shows "unat (w + word_of_nat n) = unat w + n"
proof -
  have "unat (word_of_nat n :: 'a word) = n" using assms by (simp add: unat_of_nat_lt)
  with assms unat_add_lem [of w "word_of_nat n"] show ?thesis by simp
qed

end
