(* ===== verification/Packages.thy ===== *)
theory Packages
  imports Walr_Prelude
begin

text \<open>
  The third-party packages the sources call (\<open>bytes\<close>, \<open>zstd\<close>, \<open>ulid\<close>, \<open>uuid\<close>) are not part of the
  repository. They are parameters of the model: a record of functions that the definitions take
  as an argument, with the documented behaviour the code relies on as named predicates. The
  record also carries what the standard library leaves open, the iteration order of hash maps,
  and whether the file system lets a file be created. \<open>demo_packages\<close> shows that the predicates can
  hold together; it is used in witnesses only.
\<close>

section \<open>Parameters\<close>

record packages =
  put_u8 :: "u8 \<Rightarrow> bytes"
  put_u16 :: "u16 \<Rightarrow> bytes"
  put_u32 :: "u32 \<Rightarrow> bytes"
  put_u128 :: "u128 \<Rightarrow> bytes"
  get_u8 :: "bytes \<Rightarrow> u8"
  get_u16 :: "bytes \<Rightarrow> u16"
  get_u32 :: "bytes \<Rightarrow> u32"
  get_u128 :: "bytes \<Rightarrow> u128"
  zstd_decode_all :: "bytes \<Rightarrow> bytes option"
  zstd_encode_all :: "bytes \<Rightarrow> bytes option"
  ulid_new :: "nat \<Rightarrow> ulid"
  ulid_to_string :: "ulid \<Rightarrow> string"
  ulid_from_string :: "string \<Rightarrow> ulid option"
  uuid_parse_str :: "string \<Rightarrow> uuid option"
  iter_secs :: "u64 list \<Rightarrow> u64 list"
  iter_ids :: "ulid list \<Rightarrow> ulid list"
  fs_create_ok :: bool

text \<open>\<open>BufMut::put_u*\<close> appends and \<open>Buf::get_u*\<close> reads integers in big-endian byte order.\<close>

definition bytes_be :: "packages \<Rightarrow> bool" where
  "bytes_be P \<longleftrightarrow>
     put_u8 P = (\<lambda>x. [x]) \<and> put_u16 P = to_be_bytes 2 \<and> put_u32 P = to_be_bytes 4 \<and>
     put_u128 P = to_be_bytes 16 \<and>
     (\<forall>b bs. get_u8 P (b # bs) = b) \<and>
     (\<forall>bs. 2 \<le> length bs \<longrightarrow> get_u16 P bs = from_be_bytes (take 2 bs)) \<and>
     (\<forall>bs. 4 \<le> length bs \<longrightarrow> get_u32 P bs = from_be_bytes (take 4 bs)) \<and>
     (\<forall>bs. 16 \<le> length bs \<longrightarrow> get_u128 P bs = from_be_bytes (take 16 bs))"

text \<open>A ulid prints as 26 characters and parses back.\<close>

definition ulid_strings :: "packages \<Rightarrow> bool" where
  "ulid_strings P \<longleftrightarrow>
     (\<forall>u. ulid_from_string P (ulid_to_string P u) = Some u \<and> length (ulid_to_string P u) = 26)"

text \<open>The first \<open>2 ^ 64\<close> generated ulids do not repeat.\<close>

definition ulid_fresh :: "packages \<Rightarrow> bool" where
  "ulid_fresh P \<longleftrightarrow> inj_on (ulid_new P) {n. n < 2 ^ 64}"

text \<open>An iteration order visits every key once.\<close>

definition iter_order :: "('k list \<Rightarrow> 'k list) \<Rightarrow> bool" where
  "iter_order ord \<longleftrightarrow> (\<forall>ks. mset (ord ks) = mset ks)"

definition hash_order :: "packages \<Rightarrow> bool" where
  "hash_order P \<longleftrightarrow> iter_order (iter_secs P) \<and> iter_order (iter_ids P)"

section \<open>Consequences\<close>

lemma iter_orderD: "iter_order ord \<Longrightarrow> set (ord ks) = set ks \<and> (distinct (ord ks) \<longleftrightarrow> distinct ks)"
  by (metis iter_order_def mset_eq_setD mset_eq_imp_distinct_iff)

lemma iter_order_id: "iter_order (\<lambda>ks. ks)"
  by (simp add: iter_order_def)

lemma bytes_be_puts:
  assumes "bytes_be P"
  shows "put_u8 P x = [x]" "put_u16 P y = to_be_bytes 2 y" "put_u32 P z = to_be_bytes 4 z"
    "put_u128 P u = to_be_bytes 16 u"
  using assms by (simp_all add: bytes_be_def)

lemma bytes_be_gets:
  assumes "bytes_be P"
  shows "get_u8 P (b # bs) = b" "get_u16 P (to_be_bytes 2 y @ bs) = y"
    "get_u32 P (to_be_bytes 4 z @ bs) = z" "get_u128 P (to_be_bytes 16 u @ bs) = u"
  using assms by (simp_all add: bytes_be_def)

section \<open>A concrete instance for witnesses\<close>

definition demo_packages :: packages where
  "demo_packages =
     \<lparr>put_u8 = (\<lambda>x. [x]), put_u16 = to_be_bytes 2, put_u32 = to_be_bytes 4, put_u128 = to_be_bytes 16,
      get_u8 = hd, get_u16 = (\<lambda>bs. from_be_bytes (take 2 bs)), get_u32 = (\<lambda>bs. from_be_bytes (take 4 bs)),
      get_u128 = (\<lambda>bs. from_be_bytes (take 16 bs)),
      zstd_decode_all = (\<lambda>_. None), zstd_encode_all = (\<lambda>_. None),
      ulid_new = word_of_nat,
      ulid_to_string = (\<lambda>u. replicate 10 CHR ''0'' @ of_bytes (to_be_bytes 16 u)),
      ulid_from_string =
        (\<lambda>s. if length s = 26 then Some (from_be_bytes (as_bytes (drop 10 s))) else None),
      uuid_parse_str = (\<lambda>_. None), iter_secs = (\<lambda>ks. ks), iter_ids = (\<lambda>ks. ks), fs_create_ok = True\<rparr>"

lemma as_of_bytes [simp]: "as_bytes (of_bytes bs) = bs"
proof -
  have "word_of_nat (of_char (char_of (unat b))) = b" for b :: u8
  proof -
    have "unat b < 256" using unsigned_less [of b] by simp
    then show ?thesis by (simp add: of_char_of)
  qed
  then show ?thesis by (simp add: as_bytes_def of_bytes_def map_idI)
qed

lemma length_of_bytes [simp]: "length (of_bytes bs) = length bs"
  by (simp add: of_bytes_def)

lemma demo_packages_be: "bytes_be demo_packages"
  by (simp add: bytes_be_def demo_packages_def)

lemma demo_packages_strings: "ulid_strings demo_packages"
  by (simp add: ulid_strings_def demo_packages_def)

lemma demo_packages_fresh: "ulid_fresh demo_packages"
proof -
  have "n = m" if "n < 2 ^ 64" "m < 2 ^ 64" "(word_of_nat n :: u128) = word_of_nat m" for n m :: nat
  proof -
    have "unat (word_of_nat n :: u128) = n" "unat (word_of_nat m :: u128) = m"
      using that(1,2) by (simp_all add: unat_of_nat)
    with that(3) show ?thesis by metis
  qed
  then show ?thesis by (auto simp: ulid_fresh_def demo_packages_def inj_on_def)
qed

lemma demo_packages_order: "hash_order demo_packages"
  by (simp add: hash_order_def demo_packages_def iter_order_id)

end
