(* ===== verification/Disk_Log.thy ===== *)
theory Disk_Log
  imports Packages "HOL-Library.Sublist"
begin

text \<open>
  The write-ahead log of \<open>walrq/src/engine/disk_log.rs\<close>: the registry of queue names with its
  manifest file, the binary encoding of push and ack records, the group-commit writer thread, the
  two alternating segment files with flip-flop compaction, and the two readers (recovery and
  paging from an offset). Files are byte lists. The writer's channel is part of the state; a caller
  that awaits a notification resumes when the writer has emptied it.

  The locale \<open>framed_log\<close> states what it means for an encoding to be readable from a stream whose
  tail may be torn off; it is interpreted for WAL records and for manifest entries.
\<close>

section \<open>Model\<close>

subsection \<open>Queue registry\<close>

datatype io_error = IoError

record queue_registry =
  name_to_id :: "(string, u16) hmap"
  id_to_name :: "string list"
  manifest :: bytes

text \<open>\<open>resize(n, String::new())\<close>, only ever growing.\<close>

definition resize_names :: "nat \<Rightarrow> string list \<Rightarrow> string list" where
  "resize_names n xs = xs @ replicate (n - length xs) []"

function registry_read :: "packages \<Rightarrow> bytes \<Rightarrow> (string, u16) hmap \<times> string list \<Rightarrow>
    (string, u16) hmap \<times> string list" where
  "registry_read P cur s =
     (if length cur < 4 then s
      else
        let (n2i, i2n) = s;
            i = get_u16 P cur;
            len = unat (get_u16 P (drop 2 cur));
            cur1 = drop 4 cur
        in if length cur1 < len then s
           else
             let name = of_bytes (from_utf8_lossy (take len cur1));
                 i2n1 = (if unat i \<ge> length i2n then resize_names (unat i + 1) i2n else i2n)
             in registry_read P (drop len cur1) (hm_insert name i n2i, i2n1[unat i := name]))"
  by pat_completeness auto
termination
  by (relation "measure (\<lambda>(P, cur, s). length cur)") auto

definition registry_open :: "packages \<Rightarrow> bytes \<Rightarrow> queue_registry" where
  "registry_open P file =
     (let (n2i, i2n) = registry_read P file ([], [])
      in \<lparr>name_to_id = n2i, id_to_name = i2n, manifest = file\<rparr>)"

definition manifest_entry :: "u16 \<Rightarrow> string \<Rightarrow> bytes" where
  "manifest_entry i name =
     to_be_bytes 2 i @ to_be_bytes 2 (word_of_nat (length name) :: u16) @ as_bytes name"

text \<open>The first argument is the outcome of appending to the manifest file: \<open>None\<close> when every write
  succeeds, \<open>Some k\<close> when an error is returned after \<open>k\<close> bytes.\<close>

definition get_or_register :: "nat option \<Rightarrow> string \<Rightarrow> queue_registry \<Rightarrow>
    (io_error + u16) \<times> queue_registry" where
  "get_or_register fault queue_name r =
     (case hm_get (name_to_id r) queue_name of
        Some i \<Rightarrow> (Inr i, r)
      | None \<Rightarrow>
          let next_id = word_of_nat (length (id_to_name r));
              entry = manifest_entry next_id queue_name
          in case fault of
               Some k \<Rightarrow> (Inl IoError, r\<lparr>manifest := manifest r @ take k entry\<rparr>)
             | None \<Rightarrow>
                 (Inr next_id,
                  r\<lparr>manifest := manifest r @ entry,
                    name_to_id := hm_insert queue_name next_id (name_to_id r),
                    id_to_name := id_to_name r @ [queue_name]\<rparr>))"

definition get_name :: "queue_registry \<Rightarrow> u16 \<Rightarrow> string option" where
  "get_name r i = (if unat i < length (id_to_name r) then Some (id_to_name r ! unat i) else None)"

subsection \<open>Records\<close>

datatype wal_record =
    WalPush (wr_msg_id: ulid) (wr_queue_name: string) (wr_visible_at: u64) (wr_payload: bytes)
  | WalAck (wr_msg_id: ulid) (wr_queue_name: string)

definition EPOCH_2020_SEC :: u64 where
  "EPOCH_2020_SEC = 1577836800"

definition encode_push :: "packages \<Rightarrow> ulid \<Rightarrow> u16 \<Rightarrow> u64 \<Rightarrow> bytes \<Rightarrow> bytes" where
  "encode_push P msg_id q_id visible_at payload =
     (let rel_ts = ucast (sat_sub visible_at EPOCH_2020_SEC) :: u32
      in put_u8 P 0 @ put_u128 P msg_id @ put_u32 P rel_ts @ put_u16 P q_id @
         put_u32 P (word_of_nat (length payload)) @ payload)"

definition encode_ack :: "packages \<Rightarrow> ulid \<Rightarrow> u16 \<Rightarrow> bytes" where
  "encode_ack P msg_id q_id = put_u8 P 1 @ put_u128 P msg_id @ put_u16 P q_id"

definition queue_name_of :: "queue_registry \<Rightarrow> u16 \<Rightarrow> string" where
  "queue_name_of r q_id = (case get_name r q_id of Some n \<Rightarrow> n | None \<Rightarrow> ''default'')"

text \<open>One turn of the reading loops: \<open>None\<close> is the \<open>break\<close> on a record that is not complete.\<close>

definition decode_record :: "packages \<Rightarrow> queue_registry \<Rightarrow> bytes \<Rightarrow> (wal_record \<times> bytes) option" where
  "decode_record P reg bs =
     (if bs = [] then None
      else
        let flags = get_u8 P bs;
            cur = drop 1 bs;
            is_ack = (flags AND 1 \<noteq> 0);
            is_compressed = (flags AND 2 \<noteq> 0)
        in if is_ack then
             (if length cur < 18 then None
              else Some (WalAck (get_u128 P cur) (queue_name_of reg (get_u16 P (drop 16 cur))),
                         drop 18 cur))
           else
             (if length cur < 26 then None
              else
                let ulid_raw = get_u128 P cur;
                    rel_ts = get_u32 P (drop 16 cur);
                    q_id = get_u16 P (drop 20 cur);
                    payload_len = unat (get_u32 P (drop 22 cur));
                    rest = drop 26 cur
                in if length rest < payload_len then None
                   else
                     let raw_payload = take payload_len rest;
                         payload = (if is_compressed then
                                      (case zstd_decode_all P raw_payload of
                                         Some d \<Rightarrow> d | None \<Rightarrow> raw_payload)
                                    else raw_payload)
                     in Some (WalPush ulid_raw (queue_name_of reg q_id)
                                (ucast rel_ts + EPOCH_2020_SEC) payload,
                              drop payload_len rest)))"

lemma decode_record_shrinks: "decode_record P reg bs = Some (r, rest) \<Longrightarrow> length rest < length bs"
  by (auto simp: decode_record_def Let_def split: if_splits)

function read_wal_file :: "packages \<Rightarrow> queue_registry \<Rightarrow> bytes \<Rightarrow> wal_record list" where
  "read_wal_file P reg cur =
     (case decode_record P reg cur of
        None \<Rightarrow> []
      | Some (r, rest) \<Rightarrow> r # read_wal_file P reg rest)"
  by pat_completeness auto
termination
  by (relation "measure (\<lambda>(P, reg, cur). length cur)") (auto dest: decode_record_shrinks)

declare registry_read.simps [simp del] read_wal_file.simps [simp del]

subsection \<open>The log and its writer thread\<close>

datatype wal_command =
    CmdPush ulid string u64 bytes "nat option"
  | CmdAck ulid string "nat option"
  | CmdFlush nat

text \<open>\<open>chan\<close> is the unbounded channel to the writer; a oneshot sender is a number, and \<open>notified\<close>
  lists the senders that have been signalled.\<close>

record disk_log =
  wal_a :: bytes
  wal_b :: bytes
  registry :: queue_registry
  active_is_b :: bool
  active_bytes :: u64
  max_segment_size :: u64
  chan :: "wal_command list"
  next_waiter :: nat
  notified :: "nat list"

definition active_file :: "disk_log \<Rightarrow> bytes" where
  "active_file d = (if active_is_b d then wal_b d else wal_a d)"

definition frozen_file :: "disk_log \<Rightarrow> bytes" where
  "frozen_file d = (if active_is_b d then wal_a d else wal_b d)"

definition disk_log_open :: "packages \<Rightarrow> bytes \<Rightarrow> bytes \<Rightarrow> bytes \<Rightarrow> u64 \<Rightarrow> disk_log \<times> wal_record list" where
  "disk_log_open P file_a file_b manifest_file max_size =
     (let reg = registry_open P manifest_file;
          recovered_records = read_wal_file P reg file_a @ read_wal_file P reg file_b;
          len_a = length file_a;
          len_b = length file_b;
          is_b = (len_b > 0 \<and> len_a = 0);
          active_bytes_val = word_of_nat (if is_b then len_b else len_a)
      in (\<lparr>wal_a = file_a, wal_b = file_b, registry = reg, active_is_b = is_b,
           active_bytes = active_bytes_val, max_segment_size = max_size,
           chan = [], next_waiter = 0, notified = []\<rparr>, recovered_records))"

text \<open>The writer's locals: the registry, the batch buffer and the waiters of the current batch.
  A failed manifest write makes the thread panic, which aborts the process; the model goes on only
  from successful writes.\<close>

type_synonym writer_batch = "queue_registry \<times> bytes \<times> nat list"

definition registered :: "string \<Rightarrow> queue_registry \<Rightarrow> u16 \<times> queue_registry" where
  "registered q reg =
     (case get_or_register None q reg of (Inr i, reg') \<Rightarrow> (i, reg') | (Inl _, reg') \<Rightarrow> (0, reg'))"

fun writer_cmd :: "packages \<Rightarrow> wal_command \<Rightarrow> writer_batch \<Rightarrow> writer_batch" where
  "writer_cmd P (CmdPush msg_id q visible_at payload notify) (reg, buf, waiters) =
     (let (q_id, reg') = registered q reg
      in (reg', buf @ encode_push P msg_id q_id visible_at payload,
          waiters @ (case notify of Some n \<Rightarrow> [n] | None \<Rightarrow> [])))"
| "writer_cmd P (CmdAck msg_id q notify) (reg, buf, waiters) =
     (let (q_id, reg') = registered q reg
      in (reg', buf @ encode_ack P msg_id q_id,
          waiters @ (case notify of Some n \<Rightarrow> [n] | None \<Rightarrow> [])))"
| "writer_cmd P (CmdFlush n) (reg, buf, waiters) = (reg, buf, waiters @ [n])"

fun coalesce :: "packages \<Rightarrow> wal_command list \<Rightarrow> writer_batch \<Rightarrow> writer_batch \<times> wal_command list" where
  "coalesce P [] s = (s, [])"
| "coalesce P (c # cs) s =
     (let s' = writer_cmd P c s
      in if length (fst (snd s')) > 128 * 1024 then (s', cs) else coalesce P cs s')"

definition writer_step :: "packages \<Rightarrow> disk_log \<Rightarrow> disk_log" where
  "writer_step P d =
     (case chan d of
        [] \<Rightarrow> d
      | c # cs \<Rightarrow>
          let ((reg, buf, waiters), rest) = coalesce P cs (writer_cmd P c (registry d, [], []));
              d1 = d\<lparr>registry := reg, chan := rest, notified := notified d @ waiters\<rparr>
          in if buf = [] then d1
             else if active_is_b d1 then
               d1\<lparr>wal_b := wal_b d1 @ buf, active_bytes := active_bytes d1 + word_of_nat (length buf)\<rparr>
             else
               d1\<lparr>wal_a := wal_a d1 @ buf, active_bytes := active_bytes d1 + word_of_nat (length buf)\<rparr>)"

lemma coalesce_shorter: "length (snd (coalesce P cs s)) \<le> length cs"
  by (induction P cs s rule: coalesce.induct) (auto simp: Let_def le_SucI)

lemma writer_step_chan: "chan d \<noteq> [] \<Longrightarrow> length (chan (writer_step P d)) < length (chan d)"
proof (cases "chan d")
  case Nil
  then show "chan d \<noteq> [] \<Longrightarrow> ?thesis" by simp
next
  case (Cons c cs)
  obtain reg buf ws rest
    where "coalesce P cs (writer_cmd P c (registry d, [], [])) = ((reg, buf, ws), rest)"
    by (metis prod.exhaust)
  with coalesce_shorter [of P cs "writer_cmd P c (registry d, [], [])"] Cons show ?thesis
    by (simp add: writer_step_def Let_def)
qed

function writer_drain :: "packages \<Rightarrow> disk_log \<Rightarrow> disk_log" where
  "writer_drain P d = (if chan d = [] then d else writer_drain P (writer_step P d))"
  by pat_completeness auto
termination
  by (relation "measure (\<lambda>(P, d). length (chan d))") (auto simp: writer_step_chan)

declare writer_drain.simps [simp del]

subsection \<open>Operations\<close>

definition append_push_async :: "ulid \<Rightarrow> string \<Rightarrow> u64 \<Rightarrow> bytes \<Rightarrow> disk_log \<Rightarrow> disk_log" where
  "append_push_async msg_id q visible_at payload d =
     d\<lparr>chan := chan d @ [CmdPush msg_id q visible_at payload None]\<rparr>"

definition append_ack_async :: "ulid \<Rightarrow> string \<Rightarrow> disk_log \<Rightarrow> disk_log" where
  "append_ack_async msg_id q d = d\<lparr>chan := chan d @ [CmdAck msg_id q None]\<rparr>"

definition append_push_durable :: "packages \<Rightarrow> ulid \<Rightarrow> string \<Rightarrow> u64 \<Rightarrow> bytes \<Rightarrow> disk_log \<Rightarrow> disk_log" where
  "append_push_durable P msg_id q visible_at payload d =
     writer_drain P (d\<lparr>chan := chan d @ [CmdPush msg_id q visible_at payload (Some (next_waiter d))],
                       next_waiter := Suc (next_waiter d)\<rparr>)"

definition append_ack_durable :: "packages \<Rightarrow> ulid \<Rightarrow> string \<Rightarrow> disk_log \<Rightarrow> disk_log" where
  "append_ack_durable P msg_id q d =
     writer_drain P (d\<lparr>chan := chan d @ [CmdAck msg_id q (Some (next_waiter d))],
                       next_waiter := Suc (next_waiter d)\<rparr>)"

definition flush :: "packages \<Rightarrow> disk_log \<Rightarrow> disk_log" where
  "flush P d =
     writer_drain P (d\<lparr>chan := chan d @ [CmdFlush (next_waiter d)], next_waiter := Suc (next_waiter d)\<rparr>)"

definition should_compact :: "disk_log \<Rightarrow> bool" where
  "should_compact d \<longleftrightarrow> active_bytes d \<ge> max_segment_size d"

definition perform_flip_flop_compaction :: "packages \<Rightarrow> (ulid \<times> string \<times> u64 \<times> bytes) list \<Rightarrow>
    disk_log \<Rightarrow> (io_error + unit) \<times> disk_log" where
  "perform_flip_flop_compaction P surviving d =
     (let d1 = flush P d;
          was_b = active_is_b d1;
          d2 = d1\<lparr>active_is_b := \<not> was_b, active_bytes := 0\<rparr>;
          d3 = fold (\<lambda>(i, q, vis_at, data). append_push_async i q vis_at data) surviving d2;
          d4 = flush P d3
      in if fs_create_ok P then
           (Inr (), if was_b then d4\<lparr>wal_b := []\<rparr> else d4\<lparr>wal_a := []\<rparr>)
         else (Inl IoError, d4))"

primrec read_entries_loop :: "packages \<Rightarrow> queue_registry \<Rightarrow> nat \<Rightarrow> bytes \<Rightarrow> wal_record list \<times> nat" where
  "read_entries_loop P reg 0 cur = ([], 0)"
| "read_entries_loop P reg (Suc n) cur =
     (case decode_record P reg cur of
        None \<Rightarrow> ([], 0)
      | Some (r, rest) \<Rightarrow>
          let (rs, consumed) = read_entries_loop P reg n rest
          in (r # rs, (length cur - length rest) + consumed))"

text \<open>Both segment files exist from the moment the writer thread has started.\<close>

definition read_entries_from_offset :: "packages \<Rightarrow> disk_log \<Rightarrow> u64 \<Rightarrow> nat \<Rightarrow> wal_record list \<times> u64" where
  "read_entries_from_offset P d offset max_entries =
     (let file = active_file d;
          file_len = word_of_nat (length file) :: u64
      in if offset \<ge> file_len then ([], file_len)
         else
           let to_read = min (unat (file_len - offset)) (1024 * 1024);
               raw = take to_read (drop (unat offset) file);
               (records, bytes_consumed) = read_entries_loop P (registry d) max_entries raw
           in (records, offset + word_of_nat bytes_consumed))"

section \<open>Reading a framed stream\<close>

text \<open>
  An encoding whose items can be told apart in a stream: an encoded item is decoded whatever
  follows it, and a proper prefix of an encoded item is never decoded. A reader that repeats the
  decoder until it fails then recovers every complete item of a stream cut off at any byte.
\<close>

locale framed_log =
  fixes enc :: "'a \<Rightarrow> bytes"
    and dec :: "bytes \<Rightarrow> ('a \<times> bytes) option"
    and good :: "'a \<Rightarrow> bool"
    and rd :: "bytes \<Rightarrow> 'a list"
  assumes dec_enc: "good x \<Longrightarrow> dec (enc x @ bs) = Some (x, bs)"
    and dec_torn: "good x \<Longrightarrow> strict_prefix bs (enc x) \<Longrightarrow> dec bs = None"
    and rd_unfold: "rd bs = (case dec bs of None \<Rightarrow> [] | Some (x, rest) \<Rightarrow> x # rd rest)"
begin

lemma enc_nonempty: "good x \<Longrightarrow> enc x \<noteq> []"
proof
  assume g: "good x" and e: "enc x = []"
  from dec_enc [OF g, of "enc x"] e have *: "dec [] = Some (x, [])" by simp
  show False
  proof (cases "\<exists>y. good y \<and> enc y \<noteq> []")
    case True
    then obtain y where "good y" "strict_prefix [] (enc y)" by (auto simp: strict_prefix_def)
    from dec_torn [OF this] * show False by simp
  next
    case False
    have "rd [] = x # rd []" by (subst rd_unfold) (simp add: *)
    then show False by (metis not_Cons_self)
  qed
qed

lemma rd_concat: "\<forall>x \<in> set xs. good x \<Longrightarrow> rd (concat (map enc xs) @ bs) = xs @ rd bs"
proof (induction xs)
  case Nil
  show ?case by simp
next
  case (Cons x xs)
  then have "dec (enc x @ concat (map enc xs) @ bs) = Some (x, concat (map enc xs) @ bs)"
    using dec_enc [of x] by simp
  with Cons show ?case by (simp add: rd_unfold [of "enc x @ concat (map enc xs) @ bs"])
qed

lemma rd_torn:
  assumes "\<forall>x \<in> set xs. good x" "good y" "strict_prefix bs (enc y)"
  shows "rd (concat (map enc xs) @ bs) = xs"
  using rd_concat [OF assms(1), of bs] dec_torn [OF assms(2,3)] by (simp add: rd_unfold [of bs])

lemma dec_Nil: "good y \<Longrightarrow> dec [] = None"
  using enc_nonempty [of y] dec_torn [of y "[]"] by (simp add: strict_prefix_def)

text \<open>Cutting a stream of items at any byte loses a suffix of the items and nothing else.\<close>

lemma rd_truncated:
  assumes "\<forall>x \<in> set xs. good x" "xs \<noteq> []"
  shows "\<exists>k \<le> length xs. rd (take n (concat (map enc xs))) = take k xs \<and>
           length (concat (map enc (take k xs))) \<le> n \<and>
           (k < length xs \<longrightarrow> n < length (concat (map enc (take (Suc k) xs))))"
  using assms
proof (induction xs arbitrary: n)
  case Nil
  then show ?case by simp
next
  case (Cons x xs)
  then have g: "good x" "\<forall>x \<in> set xs. good x" by auto
  show ?case
  proof (cases "n < length (enc x)")
    case True
    then have "strict_prefix (take n (enc x)) (enc x)"
      by (simp add: strict_prefix_def take_is_prefix)
    from dec_torn [OF g(1) this] have "rd (take n (enc x)) = []"
      by (simp add: rd_unfold [of "take n (enc x)"])
    with True show ?thesis by (intro exI [of _ 0]) simp
  next
    case False
    let ?t = "take (n - length (enc x)) (concat (map enc xs))"
    have step: "rd (take n (concat (map enc (x # xs)))) = x # rd ?t"
      using False dec_enc [OF g(1), of ?t] by (simp add: rd_unfold [of "enc x @ ?t"])
    show ?thesis
    proof (cases "xs = []")
      case True
      with step False dec_Nil [OF g(1)] show ?thesis
        by (intro exI [of _ 1]) (simp add: rd_unfold [of "[]"])
    next
      case ne: False
      from Cons.IH [OF g(2) ne, of "n - length (enc x)"] obtain k where
        k: "k \<le> length xs" "rd ?t = take k xs"
          "length (concat (map enc (take k xs))) \<le> n - length (enc x)"
          "k < length xs \<longrightarrow> n - length (enc x) < length (concat (map enc (take (Suc k) xs)))"
        by blast
      with step False show ?thesis by (intro exI [of _ "Suc k"]) auto
    qed
  qed
qed

end

text \<open>A reader that also stops after a number of items and reports how many bytes it consumed.\<close>

locale paged_log = framed_log +
  fixes rdn :: "nat \<Rightarrow> bytes \<Rightarrow> 'a list \<times> nat"
  assumes rdn_0: "rdn 0 bs = ([], 0)"
    and rdn_Suc: "rdn (Suc n) bs =
      (case dec bs of None \<Rightarrow> ([], 0)
       | Some (x, rest) \<Rightarrow>
           (x # fst (rdn n rest), (length bs - length rest) + snd (rdn n rest)))"
begin

lemma rdn_concat:
  "\<forall>x \<in> set xs. good x \<Longrightarrow> dec bs = None \<Longrightarrow>
   rdn n (concat (map enc xs) @ bs) = (take n xs, length (concat (map enc (take n xs))))"
proof (induction xs arbitrary: n)
  case Nil
  then show ?case by (cases n) (simp_all add: rdn_0 rdn_Suc)
next
  case (Cons x xs)
  then have "dec (enc x @ concat (map enc xs) @ bs) = Some (x, concat (map enc xs) @ bs)"
    using dec_enc [of x] by simp
  with Cons show ?case by (cases n) (simp_all add: rdn_0 rdn_Suc)
qed

text \<open>Paging through a window of the stream returns whole items from its front, as many as are
  asked for or as fit in the window.\<close>

lemma rdn_window:
  assumes "\<forall>x \<in> set xs. good x" "xs \<noteq> []"
  shows "\<exists>k \<le> length xs. rdn n (take w (concat (map enc xs))) =
             (take k xs, length (concat (map enc (take k xs)))) \<and> k \<le> n \<and>
             (length (enc (hd xs)) \<le> w \<and> 0 < n \<longrightarrow> 0 < k) \<and>
             (k < n \<and> k < length xs \<longrightarrow> w < length (concat (map enc (take (Suc k) xs))))"
  using assms
proof (induction xs arbitrary: n w)
  case Nil
  then show ?case by simp
next
  case (Cons x xs)
  then have g: "good x" "\<forall>x \<in> set xs. good x" by auto
  show ?case
  proof (cases n)
    case 0
    then show ?thesis by (intro exI [of _ 0]) (simp add: rdn_0)
  next
    case (Suc m)
    show ?thesis
    proof (cases "w < length (enc x)")
      case True
      then have "strict_prefix (take w (enc x)) (enc x)"
        by (simp add: strict_prefix_def take_is_prefix)
      from dec_torn [OF g(1) this] True Suc show ?thesis
        by (intro exI [of _ 0]) (simp add: rdn_Suc)
    next
      case False
      let ?t = "take (w - length (enc x)) (concat (map enc xs))"
      have step: "rdn n (take w (concat (map enc (x # xs)))) =
          (x # fst (rdn m ?t), length (enc x) + snd (rdn m ?t))"
        using False Suc dec_enc [OF g(1), of ?t] by (simp add: rdn_Suc)
      show ?thesis
      proof (cases "xs = []")
        case True
        have "rdn m [] = ([], 0)" using dec_Nil [OF g(1)] by (cases m) (simp_all add: rdn_0 rdn_Suc)
        with True step Suc show ?thesis by (intro exI [of _ 1]) simp
      next
        case ne: False
        from Cons.IH [OF g(2) ne, of m "w - length (enc x)"] obtain k where
          k: "k \<le> length xs" "rdn m ?t = (take k xs, length (concat (map enc (take k xs))))" "k \<le> m"
            "k < m \<and> k < length xs \<longrightarrow> w - length (enc x) < length (concat (map enc (take (Suc k) xs)))"
          by blast
        with step False Suc show ?thesis by (intro exI [of _ "Suc k"]) auto
      qed
    qed
  qed
qed

end

section \<open>The registry and its manifest\<close>

text \<open>A name fits the manifest when its length fits in 16 bits and it is UTF-8, as every Rust
  string is.\<close>

definition name_ok :: "string \<Rightarrow> bool" where
  "name_ok q \<longleftrightarrow> length q < 65536 \<and> valid_utf8 (as_bytes q)"

definition names_ok :: "string list \<Rightarrow> bool" where
  "names_ok ns \<longleftrightarrow> distinct ns \<and> length ns \<le> 65536 \<and> (\<forall>q \<in> set ns. name_ok q)"

text \<open>The registry that has seen the names \<open>ns\<close> for the first time in this order.\<close>

definition name_ids :: "string list \<Rightarrow> (string \<times> u16) list" where
  "name_ids ns = zip ns (map word_of_nat [0..<length ns])"

definition reg_of :: "string list \<Rightarrow> queue_registry" where
  "reg_of ns = \<lparr>name_to_id = name_ids ns, id_to_name = ns,
                manifest = concat (map (\<lambda>(q, i). manifest_entry i q) (name_ids ns))\<rparr>"

definition reg_ok :: "queue_registry \<Rightarrow> bool" where
  "reg_ok r \<longleftrightarrow> names_ok (id_to_name r) \<and> r = reg_of (id_to_name r)"

lemma name_ids_Nil [simp]: "name_ids [] = []"
  by (simp add: name_ids_def)

lemma name_ids_snoc: "name_ids (ns @ [q]) = name_ids ns @ [(q, word_of_nat (length ns))]"
  by (simp add: name_ids_def)

lemma keys_name_ids [simp]: "hm_keys (name_ids ns) = ns"
  by (simp add: name_ids_def)

lemma name_ids_None: "hm_get (name_ids ns) q = None \<longleftrightarrow> q \<notin> set ns"
  by (metis hm_get_None keys_name_ids)

lemma reg_of_sel [simp]:
  "id_to_name (reg_of ns) = ns" "name_to_id (reg_of ns) = name_ids ns"
  "manifest (reg_of ns) = concat (map (\<lambda>(q, i). manifest_entry i q) (name_ids ns))"
  by (simp_all add: reg_of_def)

lemma reg_ok_reg_of [simp]: "reg_ok (reg_of ns) \<longleftrightarrow> names_ok ns"
  by (simp add: reg_ok_def)

lemma name_ids_get:
  assumes "distinct ns" "i < length ns"
  shows "hm_get (name_ids ns) (ns ! i) = Some (word_of_nat i)"
proof -
  have "(ns ! i, word_of_nat i) \<in> set (name_ids ns)"
    using assms(2) by (auto simp: name_ids_def set_zip intro!: exI [of _ i])
  with assms(1) show ?thesis by (simp add: map_of_is_SomeI)
qed

lemma get_or_register_new:
  assumes "q \<notin> set ns"
  shows "get_or_register None q (reg_of ns) = (Inr (word_of_nat (length ns)), reg_of (ns @ [q]))"
proof -
  have "hm_get (name_ids ns) q = None" using assms by (simp add: name_ids_None)
  then show ?thesis
    by (simp add: get_or_register_def Let_def hm_insert_new reg_of_def name_ids_snoc)
qed

lemma get_or_register_old:
  assumes "distinct ns" "i < length ns"
  shows "get_or_register f (ns ! i) (reg_of ns) = (Inr (word_of_nat i), reg_of ns)"
  using name_ids_get [OF assms] by (simp add: get_or_register_def)

lemma names_ok_snoc:
  "names_ok ns \<Longrightarrow> q \<notin> set ns \<Longrightarrow> name_ok q \<Longrightarrow> length ns < 65536 \<Longrightarrow> names_ok (ns @ [q])"
  by (simp add: names_ok_def)

lemma names_ok_index:
  assumes "names_ok ns" "q \<in> set ns"
  obtains i where "i < length ns" "q = ns ! i" "unat (word_of_nat i :: u16) = i"
    "hm_get (name_ids ns) q = Some (word_of_nat i)"
proof -
  from assms(2) obtain i where i: "i < length ns" "q = ns ! i" by (auto simp: in_set_conv_nth)
  with assms(1) have "i < 65536" "distinct ns" by (auto simp: names_ok_def)
  with i show thesis by (intro that [of i]) (simp_all add: unat_of_nat name_ids_get)
qed

lemma get_name_of_id:
  assumes "names_ok ns" "q \<in> set ns"
  shows "get_name (reg_of ns) (the (hm_get (name_ids ns) q)) = Some q"
  by (rule names_ok_index [OF assms]) (simp add: get_name_def)

lemma get_name_of_get:
  assumes "names_ok ns" "hm_get (name_ids ns) q = Some i"
  shows "get_name (reg_of ns) i = Some q"
proof -
  have "q \<in> set ns" using assms(2) name_ids_None [of ns q] by auto
  from get_name_of_id [OF assms(1) this] assms(2) show ?thesis by simp
qed

subsection \<open>Manifest entries as a framed stream\<close>

definition manifest_decode :: "packages \<Rightarrow> bytes \<Rightarrow> ((string \<times> u16) \<times> bytes) option" where
  "manifest_decode P bs =
     (if length bs < 4 then None
      else if length (drop 4 bs) < unat (get_u16 P (drop 2 bs)) then None
      else Some ((of_bytes (from_utf8_lossy (take (unat (get_u16 P (drop 2 bs))) (drop 4 bs))), get_u16 P bs),
                 drop (unat (get_u16 P (drop 2 bs))) (drop 4 bs)))"

lemma manifest_decode_shrinks: "manifest_decode P bs = Some (x, rest) \<Longrightarrow> length rest < length bs"
  by (auto simp: manifest_decode_def Let_def split: if_splits)

function manifest_entries :: "packages \<Rightarrow> bytes \<Rightarrow> (string \<times> u16) list" where
  "manifest_entries P bs =
     (case manifest_decode P bs of None \<Rightarrow> [] | Some (x, rest) \<Rightarrow> x # manifest_entries P rest)"
  by pat_completeness auto
termination
  by (relation "measure (\<lambda>(P, bs). length bs)") (auto dest: manifest_decode_shrinks)

declare manifest_entries.simps [simp del]

definition learn_name :: "string \<times> u16 \<Rightarrow> (string, u16) hmap \<times> string list \<Rightarrow>
    (string, u16) hmap \<times> string list" where
  "learn_name = (\<lambda>(q, i) (n2i, i2n).
     (hm_insert q i n2i,
      (if unat i \<ge> length i2n then resize_names (unat i + 1) i2n else i2n)[unat i := q]))"

lemma registry_read_entries: "registry_read P bs s = fold learn_name (manifest_entries P bs) s"
proof (induction "length bs" arbitrary: bs s rule: less_induct)
  case (less cur)
  obtain n2i i2n where s: "s = (n2i, i2n)" by (cases s)
  let ?len = "unat (get_u16 P (drop 2 cur))"
  show ?case
  proof (cases "manifest_decode P cur")
    case None
    then show ?thesis
      by (subst registry_read.simps, subst manifest_entries.simps)
        (auto simp: manifest_decode_def s split: if_splits)
  next
    case (Some a)
    then have ok: "\<not> length cur < 4" "\<not> length (drop 4 cur) < ?len"
      by (auto simp: manifest_decode_def split: if_splits)
    have "registry_read P (drop ?len (drop 4 cur)) t =
        fold learn_name (manifest_entries P (drop ?len (drop 4 cur))) t" for t
      using ok by (intro less) simp
    then show ?thesis
      using ok s
      by (subst registry_read.simps, subst manifest_entries.simps)
        (simp add: manifest_decode_def learn_name_def Let_def)
  qed
qed

lemma length_manifest_entry [simp]: "length (manifest_entry i q) = 4 + length q"
  by (simp add: manifest_entry_def)

lemma manifest_decode_entry:
  assumes "bytes_be P" "name_ok q"
  shows "manifest_decode P (manifest_entry i q @ bs) = Some ((q, i), bs)"
proof -
  from assms(2) have "unat (word_of_nat (length q) :: u16) = length q"
    by (simp add: name_ok_def unat_of_nat)
  with assms show ?thesis
    by (simp add: manifest_decode_def manifest_entry_def bytes_be_gets name_ok_def
        from_utf8_lossy_valid)
qed

lemma manifest_decode_torn:
  assumes "bytes_be P" "name_ok q" "strict_prefix bs (manifest_entry i q)"
  shows "manifest_decode P bs = None"
proof -
  obtain rest where r: "manifest_entry i q = bs @ rest" "rest \<noteq> []"
    using assms(3) by (auto simp: strict_prefix_def prefix_def)
  then have len: "length bs < 4 + length q"
    by (metis length_append length_greater_0_conv length_manifest_entry less_add_same_cancel1)
  show ?thesis
  proof (cases "length bs < 4")
    case False
    from assms(2) have u: "unat (word_of_nat (length q) :: u16) = length q"
      by (simp add: name_ok_def unat_of_nat)
    have "bs = take (length bs) (manifest_entry i q)" using r by simp
    then have "bs = to_be_bytes 2 i @ to_be_bytes 2 (word_of_nat (length q) :: u16) @
        take (length bs - 4) (as_bytes q)"
      using False by (simp add: manifest_entry_def)
    then obtain t where "bs = to_be_bytes 2 i @ to_be_bytes 2 (word_of_nat (length q) :: u16) @ t" ..
    with len u assms(1) show ?thesis by (simp add: manifest_decode_def bytes_be_gets)
  qed (simp add: manifest_decode_def)
qed

interpretation manifest_log: framed_log "\<lambda>(q, i). manifest_entry i q" "manifest_decode P"
  "\<lambda>(q, i). bytes_be P \<and> name_ok q" "manifest_entries P" for P
proof
  fix bs
  show "manifest_entries P bs =
      (case manifest_decode P bs of None \<Rightarrow> [] | Some (x, rest) \<Rightarrow> x # manifest_entries P rest)"
    by (rule manifest_entries.simps)
qed (auto simp: manifest_decode_entry manifest_decode_torn)

lemma learn_names:
  assumes "length ns \<le> 65536" "distinct ns"
  shows "fold learn_name (name_ids ns) ([], []) = (name_ids ns, ns)"
  using assms
proof (induction ns rule: rev_induct)
  case Nil
  show ?case by simp
next
  case (snoc q ns)
  then have "unat (word_of_nat (length ns) :: u16) = length ns" "hm_get (name_ids ns) q = None"
    by (simp_all add: unat_of_nat name_ids_None)
  with snoc show ?case
    by (simp add: name_ids_snoc learn_name_def resize_names_def hm_insert_new)
qed

lemma name_ids_good:
  "bytes_be P \<Longrightarrow> names_ok ns \<Longrightarrow> \<forall>x \<in> set (name_ids ns). case x of (q, i) \<Rightarrow> bytes_be P \<and> name_ok q"
  by (auto simp: name_ids_def names_ok_def dest: set_zip_leftD)

lemma registry_open_torn:
  assumes "bytes_be P" "names_ok ns" "name_ok q" "strict_prefix bs (manifest_entry i q)"
  shows "registry_open P (manifest (reg_of ns) @ bs) = (reg_of ns)\<lparr>manifest := manifest (reg_of ns) @ bs\<rparr>"
proof -
  have "manifest_entries P (concat (map (\<lambda>(q, i). manifest_entry i q) (name_ids ns)) @ bs) = name_ids ns"
    using manifest_log.rd_torn [OF name_ids_good [OF assms(1,2)], of "(q, i)" bs] assms by simp
  with assms(2) show ?thesis
    by (simp add: registry_open_def registry_read_entries learn_names names_ok_def reg_of_def)
qed

lemma registry_open_ok:
  assumes "bytes_be P" "reg_ok r"
  shows "registry_open P (manifest r) = r"
proof -
  obtain ns where r: "r = reg_of ns" "names_ok ns" using assms(2) by (metis reg_ok_def)
  have "strict_prefix [] (manifest_entry 0 [])" "name_ok []"
    by (simp_all add: strict_prefix_def name_ok_def manifest_entry_def as_bytes_def
        numeral_2_eq_2)
  from registry_open_torn [OF assms(1) r(2) this(2,1)] r show ?thesis by simp
qed

section \<open>Records on disk\<close>

definition q_id_of :: "queue_registry \<Rightarrow> string \<Rightarrow> u16" where
  "q_id_of reg q = the (hm_get (name_to_id reg) q)"

primrec encode_record :: "packages \<Rightarrow> queue_registry \<Rightarrow> wal_record \<Rightarrow> bytes" where
  "encode_record P reg (WalPush i q v p) = encode_push P i (q_id_of reg q) v p"
| "encode_record P reg (WalAck i q) = encode_ack P i (q_id_of reg q)"

text \<open>What a record must satisfy to be stored without loss: its time lies in the 136 years from
  2020 on, its payload is smaller than 4 GiB, and its queue name fits the manifest.\<close>

definition time_ok :: "u64 \<Rightarrow> bool" where
  "time_ok v \<longleftrightarrow> EPOCH_2020_SEC \<le> v \<and> unat v < unat EPOCH_2020_SEC + 2 ^ 32"

primrec rec_ok :: "wal_record \<Rightarrow> bool" where
  "rec_ok (WalPush i q v p) \<longleftrightarrow> name_ok q \<and> time_ok v \<and> length p < 2 ^ 32"
| "rec_ok (WalAck i q) \<longleftrightarrow> name_ok q"

definition rec_good :: "packages \<Rightarrow> queue_registry \<Rightarrow> wal_record \<Rightarrow> bool" where
  "rec_good P reg r \<longleftrightarrow>
     bytes_be P \<and> reg_ok reg \<and> rec_ok r \<and> wr_queue_name r \<in> set (id_to_name reg)"

lemma length_encode_push: "bytes_be P \<Longrightarrow> length (encode_push P i k v p) = 27 + length p"
  by (simp add: encode_push_def Let_def bytes_be_puts)

lemma length_encode_ack: "bytes_be P \<Longrightarrow> length (encode_ack P i k) = 19"
  by (simp add: encode_ack_def bytes_be_puts)

lemma queue_name_of_id:
  assumes "reg_ok reg" "q \<in> set (id_to_name reg)"
  shows "queue_name_of reg (q_id_of reg q) = q"
proof -
  obtain ns where "reg = reg_of ns" "names_ok ns" using assms(1) by (metis reg_ok_def)
  with assms(2) get_name_of_id [of ns q] show ?thesis
    by (simp add: queue_name_of_def q_id_of_def)
qed

lemma time_round_trip:
  assumes "time_ok v"
  shows "ucast (ucast (sat_sub v EPOCH_2020_SEC) :: u32) + EPOCH_2020_SEC = v"
proof -
  from assms have le: "EPOCH_2020_SEC \<le> v" and b: "unat (v - EPOCH_2020_SEC) < 2 ^ 32"
    by (auto simp: time_ok_def unat_sub word_le_nat_alt)
  have "(ucast (ucast (v - EPOCH_2020_SEC) :: u32) :: u64) = take_bit 32 (v - EPOCH_2020_SEC)"
    by (rule bit_word_eqI) (simp add: bit_simps)
  also have "\<dots> = v - EPOCH_2020_SEC"
    using b by (simp add: word_unat_eq_iff unsigned_take_bit_eq take_bit_nat_eq_self)
  finally show ?thesis using le by (simp add: sat_sub_def)
qed

text \<open>The header of a push record, followed by whatever stands where its payload should be.\<close>

definition push_header :: "ulid \<Rightarrow> u16 \<Rightarrow> u64 \<Rightarrow> nat \<Rightarrow> bytes" where
  "push_header i k v n =
     0 # to_be_bytes 16 i @ to_be_bytes 4 (ucast (sat_sub v EPOCH_2020_SEC) :: u32) @
     to_be_bytes 2 k @ to_be_bytes 4 (word_of_nat n :: u32)"

lemma length_push_header [simp]: "length (push_header i k v n) = 27"
  by (simp add: push_header_def)

lemma encode_push_header:
  "bytes_be P \<Longrightarrow> encode_push P i k v p = push_header i k v (length p) @ p"
  by (simp add: encode_push_def Let_def bytes_be_puts push_header_def)

lemma decode_push_header:
  assumes "bytes_be P" "n < 2 ^ 32"
  shows "decode_record P reg (push_header i k v n @ bs) =
    (if length bs < n then None
     else Some (WalPush i (queue_name_of reg k)
                  (ucast (ucast (sat_sub v EPOCH_2020_SEC) :: u32) + EPOCH_2020_SEC) (take n bs),
                drop n bs))"
proof -
  have "unat (word_of_nat n :: u32) = n" using assms(2) by (simp add: unat_of_nat)
  with assms(1) show ?thesis
    by (simp add: decode_record_def push_header_def bytes_be_gets Let_def)
qed

lemma decode_ack:
  assumes "bytes_be P"
  shows "decode_record P reg (encode_ack P i k @ bs) = Some (WalAck i (queue_name_of reg k), bs)"
  using assms by (simp add: decode_record_def encode_ack_def bytes_be_puts bytes_be_gets Let_def)

lemma decode_encode_record:
  assumes "rec_good P reg r"
  shows "decode_record P reg (encode_record P reg r @ bs) = Some (r, bs)"
  using assms
  by (cases r)
    (simp_all add: rec_good_def encode_push_header decode_push_header decode_ack queue_name_of_id
      time_round_trip)

lemma decode_torn_record:
  assumes good: "rec_good P reg r" and torn: "strict_prefix bs (encode_record P reg r)"
  shows "decode_record P reg bs = None"
proof (cases "bs = []")
  case False
  from good have be: "bytes_be P" by (simp add: rec_good_def)
  obtain rest where r: "encode_record P reg r = bs @ rest" "rest \<noteq> []"
    using torn by (auto simp: strict_prefix_def prefix_def)
  then have len: "length bs < length (encode_record P reg r)" by simp
  obtain b ys where bs: "bs = b # ys" using False by (cases bs) auto
  show ?thesis
  proof (cases r)
    case (WalAck i q)
    with r bs be have "b = 1" by (simp add: encode_ack_def bytes_be_puts)
    with len WalAck be bs show ?thesis
      by (simp add: decode_record_def bytes_be_gets length_encode_ack Let_def)
  next
    case (WalPush i q v p)
    with r be have e: "push_header i (q_id_of reg q) v (length p) @ p = bs @ rest"
      by (simp add: encode_push_header)
    show ?thesis
    proof (cases "length bs < 27")
      case True
      from e bs have "b = 0" by (simp add: push_header_def)
      with True be bs show ?thesis by (simp add: decode_record_def bytes_be_gets Let_def)
    next
      case ge: False
      from e have "take (length bs) (push_header i (q_id_of reg q) v (length p) @ p) = bs" by simp
      with ge have "bs = push_header i (q_id_of reg q) v (length p) @ take (length bs - 27) p" by simp
      then obtain t where t: "bs = push_header i (q_id_of reg q) v (length p) @ t" ..
      from good WalPush len have "length t < length p" "length p < 2 ^ 32"
        by (simp_all add: rec_good_def t length_encode_push)
      with be show ?thesis by (simp add: t decode_push_header)
    qed
  qed
qed (simp add: decode_record_def)

interpretation wal: framed_log "encode_record P reg" "decode_record P reg" "rec_good P reg"
  "read_wal_file P reg" for P reg
proof
  fix bs
  show "read_wal_file P reg bs =
      (case decode_record P reg bs of None \<Rightarrow> [] | Some (x, rest) \<Rightarrow> x # read_wal_file P reg rest)"
    by (rule read_wal_file.simps)
qed (simp_all add: decode_encode_record decode_torn_record)

interpretation wal_pages: paged_log "encode_record P reg" "decode_record P reg" "rec_good P reg"
  "read_wal_file P reg" "read_entries_loop P reg" for P reg
  by unfold_locales (simp_all split: option.split prod.split)

section \<open>The log as lists of records\<close>

definition wal_bytes :: "packages \<Rightarrow> queue_registry \<Rightarrow> wal_record list \<Rightarrow> bytes" where
  "wal_bytes P reg rs = concat (map (encode_record P reg) rs)"

definition segment :: "packages \<Rightarrow> queue_registry \<Rightarrow> bytes \<Rightarrow> wal_record list \<Rightarrow> bool" where
  "segment P reg bs rs \<longleftrightarrow> bs = wal_bytes P reg rs \<and> (\<forall>r \<in> set rs. rec_good P reg r)"

text \<open>The files of a log hold the records \<open>ra\<close> and \<open>rb\<close>.\<close>

definition log_rel :: "packages \<Rightarrow> disk_log \<Rightarrow> wal_record list \<Rightarrow> wal_record list \<Rightarrow> bool" where
  "log_rel P d ra rb \<longleftrightarrow>
     bytes_be P \<and> reg_ok (registry d) \<and>
     segment P (registry d) (wal_a d) ra \<and> segment P (registry d) (wal_b d) rb"

primrec cmd_recs :: "wal_command \<Rightarrow> wal_record list" where
  "cmd_recs (CmdPush i q v p n) = [WalPush i q v p]"
| "cmd_recs (CmdAck i q n) = [WalAck i q]"
| "cmd_recs (CmdFlush n) = []"

primrec cmd_waiters :: "wal_command \<Rightarrow> nat list" where
  "cmd_waiters (CmdPush i q v p n) = (case n of Some w \<Rightarrow> [w] | None \<Rightarrow> [])"
| "cmd_waiters (CmdAck i q n) = (case n of Some w \<Rightarrow> [w] | None \<Rightarrow> [])"
| "cmd_waiters (CmdFlush n) = [n]"

definition pending :: "wal_command list \<Rightarrow> wal_record list" where
  "pending cs = concat (map cmd_recs cs)"

definition waiting :: "wal_command list \<Rightarrow> nat list" where
  "waiting cs = concat (map cmd_waiters cs)"

text \<open>Records that can still be written: each fits its encoding, and together with the names
  already registered there are at most 65536 queues.\<close>

definition can_write :: "queue_registry \<Rightarrow> wal_record list \<Rightarrow> bool" where
  "can_write reg rs \<longleftrightarrow>
     (\<forall>r \<in> set rs. rec_ok r) \<and> card (set (id_to_name reg) \<union> wr_queue_name ` set rs) \<le> 65536"

lemma wal_bytes_simps [simp]:
  "wal_bytes P reg [] = []" "wal_bytes P reg (r # rs) = encode_record P reg r @ wal_bytes P reg rs"
  "wal_bytes P reg (rs @ ss) = wal_bytes P reg rs @ wal_bytes P reg ss"
  by (simp_all add: wal_bytes_def)

lemma segment_append: "segment P reg bs rs \<Longrightarrow> segment P reg cs ss \<Longrightarrow> segment P reg (bs @ cs) (rs @ ss)"
  by (auto simp: segment_def)

lemma segment_Nil [simp]: "segment P reg [] []" "segment P reg bs [] \<longleftrightarrow> bs = []"
  by (simp_all add: segment_def)

lemma pending_simps [simp]:
  "pending [] = []" "pending (c # cs) = cmd_recs c @ pending cs"
  "pending (cs @ ds) = pending cs @ pending ds"
  "waiting [] = []" "waiting (c # cs) = cmd_waiters c @ waiting cs"
  "waiting (cs @ ds) = waiting cs @ waiting ds"
  by (simp_all add: pending_def waiting_def)

lemma read_segment_torn:
  assumes "segment P reg bs rs" "rec_good P reg r" "strict_prefix t (encode_record P reg r)"
  shows "read_wal_file P reg (bs @ t) = rs"
  using wal.rd_torn [of rs P reg r t] assms by (simp add: segment_def wal_bytes_def)

lemma read_wal_file_Nil [simp]: "read_wal_file P reg [] = []"
  by (simp add: read_wal_file.simps decode_record_def)

lemma read_segment:
  assumes "segment P reg bs rs"
  shows "read_wal_file P reg bs = rs"
  using wal.rd_concat [of rs P reg "[]"] assms by (simp add: segment_def wal_bytes_def)

subsection \<open>The registry grows\<close>

definition reg_le :: "queue_registry \<Rightarrow> queue_registry \<Rightarrow> bool" where
  "reg_le r r' \<longleftrightarrow> reg_ok r \<and> reg_ok r' \<and> prefix (id_to_name r) (id_to_name r')"

lemma reg_le_refl: "reg_ok r \<Longrightarrow> reg_le r r"
  by (simp add: reg_le_def)

lemma reg_le_trans: "reg_le r s \<Longrightarrow> reg_le s t \<Longrightarrow> reg_le r t"
  by (auto simp: reg_le_def intro: prefix_order.trans)

lemma q_id_of_le:
  assumes "reg_le r r'" "q \<in> set (id_to_name r)"
  shows "q_id_of r' q = q_id_of r q"
proof -
  obtain ns where ns: "r = reg_of ns" "names_ok ns" using assms(1) by (metis reg_le_def reg_ok_def)
  obtain ns' where ns': "r' = reg_of ns'" "names_ok ns'" using assms(1) by (metis reg_le_def reg_ok_def)
  from assms(1) ns ns' obtain zs where z: "ns' = ns @ zs" by (auto simp: reg_le_def prefix_def)
  from assms(2) ns obtain i where i: "i < length ns" "q = ns ! i" by (auto simp: in_set_conv_nth)
  then have "q = ns' ! i" "i < length ns'" by (simp_all add: z nth_append)
  with i ns ns' show ?thesis
    using name_ids_get [of ns i] name_ids_get [of ns' i] by (simp add: names_ok_def q_id_of_def)
qed

lemma encode_record_le:
  "reg_le r r' \<Longrightarrow> wr_queue_name x \<in> set (id_to_name r) \<Longrightarrow> encode_record P r' x = encode_record P r x"
  by (cases x) (simp_all add: q_id_of_le)

lemma rec_good_le: "reg_le r r' \<Longrightarrow> rec_good P r x \<Longrightarrow> rec_good P r' x"
  by (auto simp: rec_good_def reg_le_def dest: set_mono_prefix)

lemma segment_le:
  assumes "reg_le r r'" "segment P r bs rs"
  shows "segment P r' bs rs"
proof -
  have "wal_bytes P r' rs = wal_bytes P r rs"
    unfolding wal_bytes_def
    using assms by (intro arg_cong [of _ _ concat] map_cong)
      (auto simp: segment_def rec_good_def encode_record_le)
  with assms show ?thesis by (auto simp: segment_def rec_good_le)
qed

lemma registered_spec:
  assumes "reg_ok reg" "name_ok q" "card (insert q (set (id_to_name reg))) \<le> 65536"
  shows "\<exists>reg'. registered q reg = (q_id_of reg' q, reg') \<and> reg_le reg reg' \<and>
           set (id_to_name reg') = insert q (set (id_to_name reg))"
proof -
  obtain ns where ns: "reg = reg_of ns" "names_ok ns" using assms(1) by (metis reg_ok_def)
  show ?thesis
  proof (cases "q \<in> set ns")
    case True
    then obtain i where i: "i < length ns" "q = ns ! i" by (auto simp: in_set_conv_nth)
    from ns have "distinct ns" by (simp add: names_ok_def)
    with i ns True show ?thesis
      by (intro exI [of _ reg])
        (auto simp: registered_def get_or_register_old name_ids_get q_id_of_def reg_le_refl)
  next
    case False
    with ns assms(3) have "length ns < 65536" by (simp add: names_ok_def distinct_card)
    with False ns assms(2) have ok: "names_ok (ns @ [q])" by (simp add: names_ok_snoc)
    then have "hm_get (name_ids (ns @ [q])) ((ns @ [q]) ! length ns) = Some (word_of_nat (length ns))"
      by (intro name_ids_get) (simp_all add: names_ok_def)
    with False ns ok show ?thesis
      by (intro exI [of _ "reg_of (ns @ [q])"])
        (simp add: registered_def get_or_register_new q_id_of_def reg_le_def)
  qed
qed

subsection \<open>The writer\<close>

definition batch_ok :: "packages \<Rightarrow> queue_registry \<Rightarrow> writer_batch \<Rightarrow> wal_record list \<Rightarrow> nat list \<Rightarrow> bool" where
  "batch_ok P reg0 s rs ws \<longleftrightarrow>
     bytes_be P \<and> reg_le reg0 (fst s) \<and> segment P (fst s) (fst (snd s)) rs \<and> snd (snd s) = ws"

lemma can_write_append:
  "can_write reg (rs @ ss) \<Longrightarrow> can_write reg rs"
  "can_write reg (rs @ ss) \<Longrightarrow> set (id_to_name reg') = set (id_to_name reg) \<union> wr_queue_name ` set rs \<Longrightarrow>
   can_write reg' ss"
proof -
  assume a: "can_write reg (rs @ ss)"
  have "card (set (id_to_name reg) \<union> wr_queue_name ` set rs) \<le>
      card (set (id_to_name reg) \<union> wr_queue_name ` set (rs @ ss))"
    by (intro card_mono) auto
  with a show "can_write reg rs" by (auto simp: can_write_def)
  assume "set (id_to_name reg') = set (id_to_name reg) \<union> wr_queue_name ` set rs"
  with a show "can_write reg' ss" by (simp add: can_write_def image_Un Un_assoc)
qed

lemma write_record:
  assumes "batch_ok P reg0 (reg, buf, ws) rs ws" "can_write reg [r]"
  shows "\<exists>reg'. registered (wr_queue_name r) reg = (q_id_of reg' (wr_queue_name r), reg') \<and>
           batch_ok P reg0 (reg', buf @ encode_record P reg' r, ws') (rs @ [r]) ws' \<and>
           set (id_to_name reg') = set (id_to_name reg) \<union> {wr_queue_name r}"
proof -
  let ?q = "wr_queue_name r"
  from assms(1) have be: "bytes_be P" and le0: "reg_le reg0 reg" and seg: "segment P reg buf rs"
    by (simp_all add: batch_ok_def)
  then have reg: "reg_ok reg" by (simp add: reg_le_def)
  from assms(2) have ok: "rec_ok r" and c: "card (insert ?q (set (id_to_name reg))) \<le> 65536"
    by (simp_all add: can_write_def)
  from ok have "name_ok ?q" by (cases r) simp_all
  from registered_spec [OF reg this c] obtain reg' where
    r': "registered ?q reg = (q_id_of reg' ?q, reg')" "reg_le reg reg'"
      "set (id_to_name reg') = insert ?q (set (id_to_name reg))" by blast
  then have "rec_good P reg' r" using be ok by (simp add: rec_good_def reg_le_def)
  then have "segment P reg' (buf @ encode_record P reg' r) (rs @ [r])"
    using segment_le [OF r'(2) seg] by (intro segment_append) (simp_all add: segment_def)
  with r' be le0 show ?thesis by (auto simp: batch_ok_def intro: reg_le_trans)
qed

lemma writer_cmd_spec:
  assumes "batch_ok P reg0 s rs ws" "can_write (fst s) (cmd_recs c)"
  shows "batch_ok P reg0 (writer_cmd P c s) (rs @ cmd_recs c) (ws @ cmd_waiters c) \<and>
    set (id_to_name (fst (writer_cmd P c s))) = set (id_to_name (fst s)) \<union> wr_queue_name ` set (cmd_recs c)"
proof -
  obtain reg buf where s: "s = (reg, buf, ws)"
    using assms(1) by (cases s) (auto simp: batch_ok_def)
  show ?thesis
  proof (cases c)
    case (CmdPush i q v p n)
    with assms s write_record [of P reg0 reg buf ws rs "WalPush i q v p" "ws @ cmd_waiters c"]
    obtain reg' where
      r: "registered q reg = (q_id_of reg' q, reg')"
        "batch_ok P reg0 (reg', buf @ encode_record P reg' (WalPush i q v p), ws @ cmd_waiters c)
           (rs @ [WalPush i q v p]) (ws @ cmd_waiters c)"
        "set (id_to_name reg') = set (id_to_name reg) \<union> {q}"
      by (simp only: wal_record.sel cmd_recs.simps fst_conv) blast
    with CmdPush s show ?thesis by simp
  next
    case (CmdAck i q n)
    with assms s write_record [of P reg0 reg buf ws rs "WalAck i q" "ws @ cmd_waiters c"]
    obtain reg' where
      r: "registered q reg = (q_id_of reg' q, reg')"
        "batch_ok P reg0 (reg', buf @ encode_record P reg' (WalAck i q), ws @ cmd_waiters c)
           (rs @ [WalAck i q]) (ws @ cmd_waiters c)"
        "set (id_to_name reg') = set (id_to_name reg) \<union> {q}"
      by (simp only: wal_record.sel cmd_recs.simps fst_conv) blast
    with CmdAck s show ?thesis by simp
  next
    case (CmdFlush n)
    with assms s show ?thesis by (simp add: batch_ok_def)
  qed
qed

lemma coalesce_spec:
  assumes "batch_ok P reg0 s rs ws" "can_write (fst s) (pending cs @ xs)"
  shows "\<exists>cs1. cs = cs1 @ snd (coalesce P cs s) \<and>
    batch_ok P reg0 (fst (coalesce P cs s)) (rs @ pending cs1) (ws @ waiting cs1) \<and>
    can_write (fst (fst (coalesce P cs s))) (pending (snd (coalesce P cs s)) @ xs)"
  using assms
proof (induction P cs s arbitrary: rs ws rule: coalesce.induct)
  case (1 P s)
  then show ?case by simp
next
  case (2 P c cs s)
  let ?s = "writer_cmd P c s"
  from 2(3) have w: "can_write (fst s) (cmd_recs c @ pending cs @ xs)" by simp
  from writer_cmd_spec [OF 2(2) can_write_append(1) [OF w]]
  have b: "batch_ok P reg0 ?s (rs @ cmd_recs c) (ws @ cmd_waiters c)"
    and n: "set (id_to_name (fst ?s)) = set (id_to_name (fst s)) \<union> wr_queue_name ` set (cmd_recs c)"
    by simp_all
  note w' = can_write_append(2) [OF w n]
  show ?case
  proof (cases "length (fst (snd ?s)) > 128 * 1024")
    case True
    with b w' show ?thesis by (intro exI [of _ "[c]"]) (simp add: Let_def)
  next
    case False
    from 2(1) [OF refl False b w'] obtain cs1 where
      "cs = cs1 @ snd (coalesce P cs ?s)"
      "batch_ok P reg0 (fst (coalesce P cs ?s)) ((rs @ cmd_recs c) @ pending cs1)
         ((ws @ cmd_waiters c) @ waiting cs1)"
      "can_write (fst (fst (coalesce P cs ?s))) (pending (snd (coalesce P cs ?s)) @ xs)" by blast
    with False show ?thesis by (intro exI [of _ "c # cs1"]) (simp add: Let_def)
  qed
qed

text \<open>What a turn of the writer leaves alone, and the files of a log with records appended to the
  active one.\<close>

definition same_control :: "disk_log \<Rightarrow> disk_log \<Rightarrow> bool" where
  "same_control d d' \<longleftrightarrow> active_is_b d' = active_is_b d \<and>
     max_segment_size d' = max_segment_size d \<and> next_waiter d' = next_waiter d"

lemma same_control_trans: "same_control d d' \<Longrightarrow> same_control d' d'' \<Longrightarrow> same_control d d''"
  by (simp add: same_control_def)

abbreviation grown_a :: "disk_log \<Rightarrow> wal_record list \<Rightarrow> wal_record list \<Rightarrow> wal_record list" where
  "grown_a d ra rs \<equiv> (if active_is_b d then ra else ra @ rs)"

abbreviation grown_b :: "disk_log \<Rightarrow> wal_record list \<Rightarrow> wal_record list \<Rightarrow> wal_record list" where
  "grown_b d rb rs \<equiv> (if active_is_b d then rb @ rs else rb)"

definition bytes_counted :: "disk_log \<Rightarrow> bool" where
  "bytes_counted d \<longleftrightarrow> active_bytes d = word_of_nat (length (active_file d))"

lemma writer_step_eq:
  assumes "chan d = c # cs"
    and "coalesce P cs (writer_cmd P c (registry d, [], [])) = ((reg, buf, ws), rest)"
  shows "writer_step P d =
    d\<lparr>registry := reg, chan := rest, notified := notified d @ ws,
      wal_a := (if active_is_b d then wal_a d else wal_a d @ buf),
      wal_b := (if active_is_b d then wal_b d @ buf else wal_b d),
      active_bytes := active_bytes d + word_of_nat (length buf)\<rparr>"
  using assms by (cases d) (simp add: writer_step_def Let_def)

lemma writer_step_spec:
  assumes rel: "log_rel P d ra rb" and can: "can_write (registry d) (pending (chan d) @ xs)"
    and ne: "chan d \<noteq> []"
  shows "\<exists>cs. chan d = cs @ chan (writer_step P d) \<and>
    log_rel P (writer_step P d) (grown_a d ra (pending cs)) (grown_b d rb (pending cs)) \<and>
    can_write (registry (writer_step P d)) (pending (chan (writer_step P d)) @ xs) \<and>
    notified (writer_step P d) = notified d @ waiting cs \<and>
    same_control d (writer_step P d) \<and> (bytes_counted d \<longrightarrow> bytes_counted (writer_step P d))"
proof -
  obtain c cs where ch: "chan d = c # cs" using ne by (cases "chan d") auto
  let ?s = "writer_cmd P c (registry d, [], [])"
  obtain reg buf ws rest where co: "coalesce P cs ?s = ((reg, buf, ws), rest)"
    by (metis prod.exhaust)
  from rel have "batch_ok P (registry d) (registry d, [], []) [] []"
    by (simp add: batch_ok_def log_rel_def reg_le_refl)
  moreover from can ch have w: "can_write (fst (registry d, [] :: bytes, [] :: nat list)) (cmd_recs c @ pending cs @ xs)"
    by simp
  ultimately have s: "batch_ok P (registry d) ?s ([] @ cmd_recs c) ([] @ cmd_waiters c)"
    and n: "set (id_to_name (fst ?s)) = set (id_to_name (registry d)) \<union> wr_queue_name ` set (cmd_recs c)"
    using writer_cmd_spec [of P "registry d" "(registry d, [], [])" "[]" "[]" c] can_write_append(1) [OF w]
    by simp_all
  from can_write_append(2) [of "registry d" "cmd_recs c" "pending cs @ xs"] w n
  have "can_write (fst ?s) (pending cs @ xs)" by simp
  from coalesce_spec [OF s this] co obtain cs1 where cs1: "cs = cs1 @ rest"
    "batch_ok P (registry d) (reg, buf, ws) (pending (c # cs1)) (waiting (c # cs1))"
    "can_write reg (pending rest @ xs)" by auto
  then have seg: "segment P reg buf (pending (c # cs1))" and le: "reg_le (registry d) reg"
    and ws: "ws = waiting (c # cs1)" by (simp_all add: batch_ok_def)
  have "log_rel P (writer_step P d) (grown_a d ra (pending (c # cs1))) (grown_b d rb (pending (c # cs1)))"
    using rel seg le segment_le [OF le] segment_append [OF _ seg]
    by (simp add: writer_step_eq [OF ch co] log_rel_def reg_le_def del: pending_simps)
  with cs1 ws ch show ?thesis
    by (intro exI [of _ "c # cs1"])
      (simp add: writer_step_eq [OF ch co] same_control_def bytes_counted_def active_file_def)
qed

lemma writer_drain_spec:
  assumes "log_rel P d ra rb" "can_write (registry d) (pending (chan d) @ xs)"
  shows "log_rel P (writer_drain P d) (grown_a d ra (pending (chan d))) (grown_b d rb (pending (chan d))) \<and>
    chan (writer_drain P d) = [] \<and> notified (writer_drain P d) = notified d @ waiting (chan d) \<and>
    can_write (registry (writer_drain P d)) xs \<and>
    same_control d (writer_drain P d) \<and> (bytes_counted d \<longrightarrow> bytes_counted (writer_drain P d))"
  using assms
proof (induction P d arbitrary: ra rb rule: writer_drain.induct)
  case (1 P d)
  show ?case
  proof (cases "chan d = []")
    case True
    then have "writer_drain P d = d" by (simp add: writer_drain.simps)
    with True 1(2,3) show ?thesis by (simp add: same_control_def)
  next
    case False
    let ?d = "writer_step P d"
    from writer_step_spec [OF 1(2,3) False] obtain cs where
      cs: "chan d = cs @ chan ?d" "log_rel P ?d (grown_a d ra (pending cs)) (grown_b d rb (pending cs))"
        "can_write (registry ?d) (pending (chan ?d) @ xs)" "notified ?d = notified d @ waiting cs"
        "same_control d ?d" "bytes_counted d \<longrightarrow> bytes_counted ?d" by blast
    have ab: "active_is_b ?d = active_is_b d" using cs(5) by (simp add: same_control_def)
    have dr: "writer_drain P d = writer_drain P ?d" using False by (simp add: writer_drain.simps)
    have pw: "pending (chan d) = pending cs @ pending (chan ?d)"
      "waiting (chan d) = waiting cs @ waiting (chan ?d)"
      by (subst cs(1), simp)+
    note IH = 1(1) [OF False cs(2,3), unfolded ab cs(4)]
    show ?thesis
      unfolding dr pw
      using IH cs(6) same_control_trans [OF cs(5)] by (cases "active_is_b d") simp_all
  qed
qed

section \<open>Operations of the log\<close>

lemma disk_log_open_spec:
  assumes "log_rel P d ra rb"
  shows "snd (disk_log_open P (wal_a d @ s) (wal_b d @ t) (manifest (registry d)) m) =
    read_wal_file P (registry d) (wal_a d @ s) @ read_wal_file P (registry d) (wal_b d @ t)"
    "registry (fst (disk_log_open P (wal_a d @ s) (wal_b d @ t) (manifest (registry d)) m)) = registry d"
  using assms by (simp_all add: disk_log_open_def Let_def log_rel_def registry_open_ok)

lemma reopen_clean:
  assumes "log_rel P d ra rb"
  shows "snd (disk_log_open P (wal_a d) (wal_b d) (manifest (registry d)) m) = ra @ rb"
  using disk_log_open_spec(1) [OF assms, of "[]" "[]" m] assms read_segment
  unfolding log_rel_def by fastforce

lemma reopen_rel:
  assumes "log_rel P d ra rb"
  shows "log_rel P (fst (disk_log_open P (wal_a d) (wal_b d) (manifest (registry d)) m)) ra rb"
    "bytes_counted (fst (disk_log_open P (wal_a d) (wal_b d) (manifest (registry d)) m))"
  using assms
  by (simp_all add: disk_log_open_def Let_def log_rel_def registry_open_ok bytes_counted_def
      active_file_def)

lemma log_rel_control [simp]:
  "log_rel P (d\<lparr>chan := c, next_waiter := w\<rparr>) ra rb \<longleftrightarrow> log_rel P d ra rb"
  "log_rel P (d\<lparr>active_is_b := f, active_bytes := n\<rparr>) ra rb \<longleftrightarrow> log_rel P d ra rb"
  "log_rel P (d\<lparr>chan := c\<rparr>) ra rb \<longleftrightarrow> log_rel P d ra rb"
  "bytes_counted (d\<lparr>chan := c, next_waiter := w\<rparr>) \<longleftrightarrow> bytes_counted d"
  "bytes_counted (d\<lparr>chan := c\<rparr>) \<longleftrightarrow> bytes_counted d"
  by (simp_all add: log_rel_def bytes_counted_def active_file_def)

lemma durable_spec:
  assumes "log_rel P d ra rb" "can_write (registry d) (pending (chan d) @ cmd_recs c @ xs)"
    and d': "d' = writer_drain P (d\<lparr>chan := chan d @ [c], next_waiter := Suc (next_waiter d)\<rparr>)"
  shows "log_rel P d' (grown_a d ra (pending (chan d) @ cmd_recs c)) (grown_b d rb (pending (chan d) @ cmd_recs c))"
    "chan d' = []" "notified d' = notified d @ waiting (chan d) @ cmd_waiters c"
    "active_is_b d' = active_is_b d" "max_segment_size d' = max_segment_size d"
    "can_write (registry d') xs" "bytes_counted d \<Longrightarrow> bytes_counted d'"
proof -
  let ?d = "d\<lparr>chan := chan d @ [c], next_waiter := Suc (next_waiter d)\<rparr>"
  from assms(1) have rel: "log_rel P ?d ra rb" by simp
  from assms(2) have can: "can_write (registry ?d) (pending (chan ?d) @ xs)" by simp
  note spec = writer_drain_spec [OF rel can, folded d']
  from spec show "log_rel P d' (grown_a d ra (pending (chan d) @ cmd_recs c)) (grown_b d rb (pending (chan d) @ cmd_recs c))"
    "chan d' = []" "notified d' = notified d @ waiting (chan d) @ cmd_waiters c"
    "active_is_b d' = active_is_b d" "max_segment_size d' = max_segment_size d"
    "can_write (registry d') xs"
    by (cases "active_is_b d"; simp add: same_control_def)+
  from spec show "bytes_counted d \<Longrightarrow> bytes_counted d'" by simp
qed

lemma durable_reopen:
  assumes "log_rel P d ra rb" "can_write (registry d) (pending (chan d) @ cmd_recs c)"
    "d' = writer_drain P (d\<lparr>chan := chan d @ [c], next_waiter := Suc (next_waiter d)\<rparr>)"
    and "w \<in> set (cmd_waiters c)"
  shows "w \<in> set (notified d') \<and> chan d' = [] \<and>
    snd (disk_log_open P (wal_a d') (wal_b d') (manifest (registry d')) m) =
      (if active_is_b d then ra @ rb @ pending (chan d) @ cmd_recs c
       else ra @ pending (chan d) @ cmd_recs c @ rb)"
proof -
  note s = durable_spec [where xs = "[]", simplified, OF assms(1-3)]
  from reopen_clean [OF s(1), of m] s(2,3) assms(4) show ?thesis by (cases "active_is_b d") simp_all
qed

lemma flush_spec:
  assumes "log_rel P d ra rb" "can_write (registry d) (pending (chan d) @ xs)"
  shows "log_rel P (flush P d) (grown_a d ra (pending (chan d))) (grown_b d rb (pending (chan d)))"
    "chan (flush P d) = []" "active_is_b (flush P d) = active_is_b d"
    "max_segment_size (flush P d) = max_segment_size d" "can_write (registry (flush P d)) xs"
    "bytes_counted d \<Longrightarrow> bytes_counted (flush P d)"
  using durable_spec [of P d ra rb "CmdFlush (next_waiter d)" xs "flush P d"] assms
  by (cases "active_is_b d"; simp add: flush_def)+

subsection \<open>Compaction\<close>

abbreviation survivor_rec :: "ulid \<times> string \<times> u64 \<times> bytes \<Rightarrow> wal_record" where
  "survivor_rec s \<equiv> (case s of (i, q, v, p) \<Rightarrow> WalPush i q v p)"

lemma enqueue_survivors:
  "fold (\<lambda>(i, q, v, p). append_push_async i q v p) ss d =
     d\<lparr>chan := chan d @ map (\<lambda>(i, q, v, p). CmdPush i q v p None) ss\<rparr>"
  by (induction ss arbitrary: d) (auto simp: append_push_async_def)

lemma pending_survivors: "pending (map (\<lambda>(i, q, v, p). CmdPush i q v p None) ss) = map survivor_rec ss"
  by (induction ss) auto

text \<open>The state just before the frozen file is emptied, and the file that is.\<close>

lemma compaction_spec:
  assumes rel: "log_rel P d ra rb"
    and can: "can_write (registry d) (pending (chan d) @ map survivor_rec ss)"
  shows "\<exists>d4. perform_flip_flop_compaction P ss d =
      (if fs_create_ok P then (Inr (), if active_is_b d then d4\<lparr>wal_b := []\<rparr> else d4\<lparr>wal_a := []\<rparr>)
       else (Inl IoError, d4)) \<and>
    log_rel P d4 (if active_is_b d then ra @ map survivor_rec ss else ra @ pending (chan d))
                 (if active_is_b d then rb @ pending (chan d) else rb @ map survivor_rec ss) \<and>
    active_is_b d4 = (\<not> active_is_b d) \<and> chan d4 = [] \<and>
    (frozen_file (flush P d) = [] \<longrightarrow> bytes_counted d4)"
proof -
  let ?d1 = "flush P d"
  let ?d2 = "?d1\<lparr>active_is_b := \<not> active_is_b d, active_bytes := 0\<rparr>"
  let ?d3 = "?d2\<lparr>chan := chan ?d2 @ map (\<lambda>(i, q, v, p). CmdPush i q v p None) ss\<rparr>"
  note f = flush_spec [OF rel can]
  from f have rel3: "log_rel P ?d3 (grown_a d ra (pending (chan d))) (grown_b d rb (pending (chan d)))"
    by simp
  have pend: "pending (chan ?d3) = map survivor_rec ss" using f(2) by (simp add: pending_survivors)
  have "can_write (registry ?d3) (pending (chan ?d3) @ [])" unfolding pend using f(5) by simp
  note g = flush_spec [OF rel3 this, unfolded pend]
  have "frozen_file ?d1 = [] \<Longrightarrow> bytes_counted ?d3"
    using f(3) by (auto simp: bytes_counted_def active_file_def frozen_file_def split: if_splits)
  with f g show ?thesis
    unfolding perform_flip_flop_compaction_def Let_def enqueue_survivors
    by (intro exI [of _ "flush P ?d3"], cases "active_is_b d") simp_all
qed

subsection \<open>Paging\<close>

lemma read_entries_at_boundary:
  assumes "segment P (registry d) (active_file d) (before @ after)" "after \<noteq> []"
    and "length (active_file d) < 2 ^ 64"
  shows "read_entries_from_offset P d (word_of_nat (length (wal_bytes P (registry d) before))) n =
    (let (rs, c) = read_entries_loop P (registry d) n
           (take (min (length (wal_bytes P (registry d) after)) 1048576) (wal_bytes P (registry d) after))
     in (rs, word_of_nat (length (wal_bytes P (registry d) before)) + word_of_nat c))"
proof -
  let ?b = "wal_bytes P (registry d) before" and ?a = "wal_bytes P (registry d) after"
  from assms(1) have fil: "active_file d = ?b @ ?a" and good: "\<forall>r \<in> set after. rec_good P (registry d) r"
    by (simp_all add: segment_def)
  have "rec_good P (registry d) (hd after)" using good assms(2) by simp
  then have "0 < length ?a" using assms(2) wal.enc_nonempty by (cases after) auto
  moreover have fl: "length (active_file d) = length ?b + length ?a" using fil by simp
  moreover have len: "unat (word_of_nat (length (active_file d)) :: u64) = length (active_file d)"
    "unat (word_of_nat (length ?b) :: u64) = length ?b"
    using assms(3) fl by (simp_all add: unat_of_nat_lt del: of_nat_add)
  ultimately have lt: "\<not> (word_of_nat (length ?b) :: u64) \<ge> word_of_nat (length (active_file d))"
    by (simp add: word_le_nat_alt)
  then have "(word_of_nat (length ?b) :: u64) \<le> word_of_nat (length (active_file d))" by simp
  from unat_sub [OF this] len fl
  have diff: "unat (word_of_nat (length (active_file d)) - word_of_nat (length ?b) :: u64) = length ?a"
    by linarith
  from len diff lt show ?thesis by (simp add: read_entries_from_offset_def Let_def fil)
qed

section \<open>Correctness\<close>

text \<open>An empty log, and one record, for the concrete instances below.\<close>

definition demo_log :: disk_log where
  "demo_log = fst (disk_log_open demo_packages [] [] [] 1048576)"

definition demo_rec :: wal_record where
  "demo_rec = WalPush 7 ''jobs'' 1577836900 [1, 2, 3]"

lemma demo_names: "names_ok []" "reg_ok (reg_of [])" "name_ok ''jobs''" "names_ok [''jobs'']"
proof -
  show "names_ok []" by (simp add: names_ok_def)
  then show "reg_ok (reg_of [])" by simp
  show n: "name_ok ''jobs''" by (simp add: name_ok_def as_bytes_def valid_utf8_ascii)
  then show "names_ok [''jobs'']" by (simp add: names_ok_def)
qed

lemma demo_log_registry: "registry demo_log = reg_of []"
  using registry_open_ok [OF demo_packages_be demo_names(2)]
  by (simp add: demo_log_def disk_log_open_def Let_def)

lemma demo_log_fields:
  "chan demo_log = []" "\<not> active_is_b demo_log" "wal_a demo_log = []" "wal_b demo_log = []"
  "next_waiter demo_log = 0"
  by (simp_all add: demo_log_def disk_log_open_def Let_def)

lemma demo_log_rel: "log_rel demo_packages demo_log [] []"
  by (simp add: log_rel_def demo_log_registry demo_log_fields demo_packages_be demo_names)

lemma demo_rec_ok: "rec_ok demo_rec" "wr_queue_name demo_rec = ''jobs''"
  by (simp_all add: demo_rec_def demo_names time_ok_def EPOCH_2020_SEC_def)

lemma demo_can_write: "can_write (reg_of []) [demo_rec]"
  by (simp add: can_write_def demo_rec_ok)

lemma demo_rec_good: "rec_good demo_packages (reg_of [''jobs'']) demo_rec"
  by (simp add: rec_good_def demo_packages_be demo_names demo_rec_ok)



text \<open>
  C32. A crash while the writer appends a batch leaves some number of its
  bytes in the active file. Opening the log then recovers everything that was stored before and
  exactly those records of the batch whose last byte was written.
\<close>

theorem crash_recovers_prefix:
  assumes "log_rel P d ra rb" "\<forall>r \<in> set rs. rec_good P (registry d) r"
    and "written = take n (wal_bytes P (registry d) rs)"
  shows "\<exists>k \<le> length rs.
    snd (disk_log_open P (wal_a d @ (if active_is_b d then [] else written))
           (wal_b d @ (if active_is_b d then written else [])) (manifest (registry d)) m) =
      (if active_is_b d then ra @ rb @ take k rs else ra @ take k rs @ rb) \<and>
    length (wal_bytes P (registry d) (take k rs)) \<le> n \<and>
    (k < length rs \<longrightarrow> n < length (wal_bytes P (registry d) (take (Suc k) rs)))"
proof (cases "rs = []")
  case True
  with assms reopen_clean [OF assms(1), of m] show ?thesis by simp
next
  case False
  from wal.rd_truncated [OF assms(2) False, of n] obtain k where
    k: "k \<le> length rs" "read_wal_file P (registry d) written = take k rs"
      "length (wal_bytes P (registry d) (take k rs)) \<le> n"
      "k < length rs \<longrightarrow> n < length (wal_bytes P (registry d) (take (Suc k) rs))"
    unfolding assms(3) wal_bytes_def by blast
  from assms(1) have seg: "segment P (registry d) (wal_a d) ra" "segment P (registry d) (wal_b d) rb"
    by (simp_all add: log_rel_def)
  have tail: "read_wal_file P (registry d) (bs @ written) = xs @ take k rs"
    if "segment P (registry d) bs xs" for bs xs
    using that wal.rd_concat [of xs P "registry d" written] k(2)
    by (simp add: segment_def wal_bytes_def)
  show ?thesis
    using disk_log_open_spec(1) [OF assms(1)] k tail [OF seg(1)] tail [OF seg(2)]
      read_segment [OF seg(1)] read_segment [OF seg(2)]
    by (intro exI [of _ k], cases "active_is_b d") (simp_all add: disk_log_open_spec(1) [OF assms(1), of _ "[]", simplified]
        disk_log_open_spec(1) [OF assms(1), of "[]", simplified])
qed

theorem crash_recovers_prefix_witness:
  "\<exists>k \<le> 2. snd (disk_log_open demo_packages
       (take 40 (wal_bytes demo_packages (reg_of [''jobs'']) [demo_rec, demo_rec])) []
       (manifest (reg_of [''jobs''])) 0) = take k [demo_rec, demo_rec] \<and>
     length (wal_bytes demo_packages (reg_of [''jobs'']) (take k [demo_rec, demo_rec])) \<le> 40 \<and>
     (k < 2 \<longrightarrow> 40 < length (wal_bytes demo_packages (reg_of [''jobs'']) (take (Suc k) [demo_rec, demo_rec])))"
proof -
  let ?d = "demo_log\<lparr>registry := reg_of [''jobs'']\<rparr>"
  have "log_rel demo_packages ?d [] []"
    by (simp add: log_rel_def demo_log_fields demo_packages_be demo_names)
  from crash_recovers_prefix [OF this, of "[demo_rec, demo_rec]" _ 40 0] show ?thesis
    by (simp add: demo_log_fields demo_rec_good numeral_2_eq_2 del: wal_bytes_simps take_Suc_Cons)
qed

text \<open>
  Compaction of a log whose other segment is empty switches the
  segments, stores exactly the surviving messages in the new active one, empties the old one, and
  leaves the byte counter equal to the size of the active file. Opening the files afterwards
  recovers the survivors and nothing else.
\<close>

theorem compaction_keeps_survivors:
  assumes "log_rel P d ra rb" "can_write (registry d) (pending (chan d) @ map survivor_rec surviving)"
    and "(if active_is_b d then ra else rb) = []" "fs_create_ok P"
    and "perform_flip_flop_compaction P surviving d = (res, d')"
  shows "res = Inr () \<and> active_is_b d' = (\<not> active_is_b d) \<and> frozen_file d' = [] \<and>
    active_bytes d' = word_of_nat (length (active_file d')) \<and>
    snd (disk_log_open P (wal_a d') (wal_b d') (manifest (registry d')) m) = map survivor_rec surviving"
proof -
  note f = flush_spec [OF assms(1,2)]
  from f(1,3) assms(3) have frozen: "frozen_file (flush P d) = []"
    by (simp add: log_rel_def frozen_file_def split: if_splits)
  from compaction_spec [OF assms(1,2)] assms(4,5) frozen obtain d4 where
    d4: "res = Inr ()" "d' = (if active_is_b d then d4\<lparr>wal_b := []\<rparr> else d4\<lparr>wal_a := []\<rparr>)"
      "log_rel P d4 (if active_is_b d then ra @ map survivor_rec surviving else ra @ pending (chan d))
         (if active_is_b d then rb @ pending (chan d) else rb @ map survivor_rec surviving)"
      "active_is_b d4 = (\<not> active_is_b d)" "bytes_counted d4"
    by auto
  then have rel: "log_rel P d' (if active_is_b d then map survivor_rec surviving else [])
      (if active_is_b d then [] else map survivor_rec surviving)"
    using assms(3) by (auto simp: log_rel_def)
  from d4 have "active_is_b d' = (\<not> active_is_b d)" "frozen_file d' = []"
    "active_bytes d' = word_of_nat (length (active_file d'))"
    by (auto simp: frozen_file_def active_file_def bytes_counted_def)
  with d4(1) reopen_clean [OF rel, of m] show ?thesis by simp
qed

theorem compaction_keeps_survivors_witness:
  "\<exists>res d'. perform_flip_flop_compaction demo_packages [(7, ''jobs'', 1577836900, [1, 2, 3])] demo_log = (res, d') \<and>
     res = Inr () \<and> active_is_b d' \<and> frozen_file d' = [] \<and>
     active_bytes d' = word_of_nat (length (active_file d')) \<and>
     snd (disk_log_open demo_packages (wal_a d') (wal_b d') (manifest (registry d')) 0) = [demo_rec]"
proof -
  obtain res d' where c:
    "perform_flip_flop_compaction demo_packages [(7, ''jobs'', 1577836900, [1, 2, 3])] demo_log = (res, d')"
    by (metis prod.exhaust)
  have "fs_create_ok demo_packages" by (simp add: demo_packages_def)
  from compaction_keeps_survivors [OF demo_log_rel _ _ this c, of 0] demo_can_write c show ?thesis
    by (simp add: demo_log_fields demo_log_registry demo_rec_def)
qed

text \<open>
  C33. If the old segment cannot be emptied, compaction reports the error
  and no record is lost: both segments keep their records, the queued ones included, and the
  survivors follow in the new active segment.
\<close>

theorem compaction_interrupted:
  assumes "log_rel P d ra rb" "can_write (registry d) (pending (chan d) @ map survivor_rec surviving)"
    and "\<not> fs_create_ok P" "perform_flip_flop_compaction P surviving d = (res, d')"
  shows "res = Inl IoError \<and>
    snd (disk_log_open P (wal_a d') (wal_b d') (manifest (registry d')) m) =
      (if active_is_b d then ra @ map survivor_rec surviving @ rb @ pending (chan d)
       else ra @ pending (chan d) @ rb @ map survivor_rec surviving)"
proof -
  from compaction_spec [OF assms(1,2)] assms(3,4)
  have res: "res = Inl IoError" and
    rel: "log_rel P d' (if active_is_b d then ra @ map survivor_rec surviving else ra @ pending (chan d))
         (if active_is_b d then rb @ pending (chan d) else rb @ map survivor_rec surviving)"
    by auto
  from reopen_clean [OF rel, of m] res show ?thesis by simp
qed

theorem compaction_interrupted_witness:
  "\<exists>res d'. perform_flip_flop_compaction (demo_packages\<lparr>fs_create_ok := False\<rparr>)
       [(7, ''jobs'', 1577836900, [1, 2, 3])] demo_log = (res, d') \<and> res = Inl IoError \<and>
     snd (disk_log_open (demo_packages\<lparr>fs_create_ok := False\<rparr>) (wal_a d') (wal_b d')
       (manifest (registry d')) 0) = [demo_rec]"
proof -
  let ?P = "demo_packages\<lparr>fs_create_ok := False\<rparr>"
  obtain res d' where c:
    "perform_flip_flop_compaction ?P [(7, ''jobs'', 1577836900, [1, 2, 3])] demo_log = (res, d')"
    by (metis prod.exhaust)
  have "bytes_be ?P" using demo_packages_be by (simp add: bytes_be_def)
  then have "log_rel ?P demo_log [] []" by (simp add: log_rel_def demo_log_registry demo_log_fields demo_names)
  from compaction_interrupted [OF this _ _ c, of 0] demo_can_write c show ?thesis
    by (simp add: demo_log_fields demo_log_registry demo_rec_def)
qed

text \<open>
  Reading from an offset at which a record begins returns the next
  records of the active segment, whole and in order, at most as many as asked for, together with the
  offset at which the record after them begins. If the next record fits in the 1 MiB window, the
  read makes progress.
\<close>

theorem page_reads_whole_records:
  assumes "segment P (registry d) (active_file d) (before @ after)" "after \<noteq> []"
    and "length (active_file d) < 2 ^ 64"
  shows "\<exists>k \<le> length after.
    read_entries_from_offset P d (word_of_nat (length (wal_bytes P (registry d) before))) n =
      (take k after, word_of_nat (length (wal_bytes P (registry d) (before @ take k after)))) \<and>
    k \<le> n \<and>
    (length (encode_record P (registry d) (hd after)) \<le> 1048576 \<and> 0 < n \<longrightarrow> 0 < k)"
proof -
  let ?a = "wal_bytes P (registry d) after"
  let ?w = "min (length ?a) 1048576"
  from assms(1) have good: "\<forall>r \<in> set after. rec_good P (registry d) r" by (simp add: segment_def)
  from wal_pages.rdn_window [OF good assms(2), of n ?w] obtain k where
    k: "k \<le> length after"
      "read_entries_loop P (registry d) n (take ?w ?a) =
         (take k after, length (wal_bytes P (registry d) (take k after)))" "k \<le> n"
      "length (encode_record P (registry d) (hd after)) \<le> ?w \<and> 0 < n \<longrightarrow> 0 < k"
    unfolding wal_bytes_def by blast
  moreover have "length (encode_record P (registry d) (hd after)) \<le> length ?a"
    using assms(2) by (cases after) simp_all
  ultimately show ?thesis
    using read_entries_at_boundary [OF assms, of n] by (intro exI [of _ k]) simp
qed

theorem page_reads_whole_records_witness:
  "\<exists>k \<le> 1. read_entries_from_offset demo_packages
       (demo_log\<lparr>registry := reg_of [''jobs''], wal_a := wal_bytes demo_packages (reg_of [''jobs'']) [demo_rec, demo_rec]\<rparr>)
       (word_of_nat (length (wal_bytes demo_packages (reg_of [''jobs'']) [demo_rec]))) 10 =
     (take k [demo_rec],
      word_of_nat (length (wal_bytes demo_packages (reg_of [''jobs'']) ([demo_rec] @ take k [demo_rec])))) \<and> 0 < k"
proof -
  let ?d = "demo_log\<lparr>registry := reg_of [''jobs''], wal_a := wal_bytes demo_packages (reg_of [''jobs'']) [demo_rec, demo_rec]\<rparr>"
  have len: "length (encode_record demo_packages (reg_of [''jobs'']) demo_rec) = 30"
    by (simp add: demo_rec_def length_encode_push demo_packages_be)
  have "segment demo_packages (registry ?d) (active_file ?d) ([demo_rec] @ [demo_rec])"
    by (simp add: segment_def active_file_def demo_log_fields demo_rec_good)
  moreover have "length (active_file ?d) < 2 ^ 64" by (simp add: active_file_def demo_log_fields len)
  ultimately show ?thesis
    using page_reads_whole_records [of demo_packages ?d "[demo_rec]" "[demo_rec]" 10] len
    by (simp add: list.size(3,4)) blast
qed

text \<open>
  A record longer than the 1 MiB window stops the paging reader for
  good: from the offset where it begins, every read returns no record and the same offset, whatever
  follows it. Payloads are not limited below that size anywhere on the push path.
\<close>

theorem oversized_record_stalls:
  assumes "segment P (registry d) (active_file d) (before @ after)" "after \<noteq> []"
    and "length (active_file d) < 2 ^ 64"
    and "1048576 < length (encode_record P (registry d) (hd after))"
  shows "read_entries_from_offset P d (word_of_nat (length (wal_bytes P (registry d) before))) n =
    ([], word_of_nat (length (wal_bytes P (registry d) before)))"
proof -
  let ?a = "wal_bytes P (registry d) after" and ?e = "encode_record P (registry d) (hd after)"
  obtain rest where a: "?a = ?e @ rest" using assms(2) by (cases after) simp_all
  have w: "take (min (length ?a) 1048576) ?a = take 1048576 ?e" using assms(4) by (simp add: a)
  have "strict_prefix (take 1048576 ?e) ?e"
    using assms(4) by (metis append_take_drop_id drop_eq_Nil linorder_not_le strict_prefixI' prefixI
        strict_prefix_def append_Nil2 same_append_eq)
  moreover have "rec_good P (registry d) (hd after)"
    using assms(1,2) by (simp add: segment_def)
  ultimately have "decode_record P (registry d) (take 1048576 ?e) = None"
    by (rule decode_torn_record [rotated])
  then have "read_entries_loop P (registry d) n (take 1048576 ?e) = ([], 0)" by (cases n) simp_all
  with read_entries_at_boundary [OF assms(1-3), of n] show ?thesis by (simp add: w)
qed

theorem oversized_record_stalls_witness:
  "\<exists>big d. length (wr_payload big) = 1048576 \<and> active_file d = wal_bytes demo_packages (registry d) [big, demo_rec] \<and>
     read_entries_from_offset demo_packages d 0 100 = ([], 0)"
proof -
  let ?big = "WalPush 9 ''jobs'' 1577836900 (replicate 1048576 0)"
  let ?d = "demo_log\<lparr>registry := reg_of [''jobs''], wal_a := wal_bytes demo_packages (reg_of [''jobs'']) [?big, demo_rec]\<rparr>"
  have len: "length (encode_record demo_packages (reg_of [''jobs'']) ?big) = 1048603"
    "length (encode_record demo_packages (reg_of [''jobs'']) demo_rec) = 30"
    by (simp_all add: demo_rec_def length_encode_push demo_packages_be)
  have "rec_good demo_packages (reg_of [''jobs'']) ?big"
    by (simp add: rec_good_def demo_packages_be demo_names time_ok_def EPOCH_2020_SEC_def)
  then have "segment demo_packages (registry ?d) (active_file ?d) ([] @ [?big, demo_rec])"
    by (simp add: segment_def active_file_def demo_log_fields demo_rec_good)
  moreover have "length (active_file ?d) < 2 ^ 64" using len by (simp add: active_file_def demo_log_fields)
  ultimately have "read_entries_from_offset demo_packages ?d 0 100 = ([], 0)"
    using oversized_record_stalls [of demo_packages ?d "[]" "[?big, demo_rec]" 100] len by simp
  then show ?thesis
    by (intro exI [of _ ?big] exI [of _ ?d]) (simp add: active_file_def demo_log_fields)
qed

text \<open>
  Registering a name keeps every id already given out, and reading the
  manifest back yields the same registry. If the write fails part-way, the name is not registered,
  and reading the manifest back yields the registry as it was.
\<close>

theorem registry_survives_restart:
  assumes "bytes_be P" "reg_ok r" "name_ok q" "length (id_to_name r) < 65536"
    and "get_or_register fault q r = (res, r')"
    and "case fault of None \<Rightarrow> True | Some k \<Rightarrow> k < 4 + length q"
  shows "name_to_id (registry_open P (manifest r')) = name_to_id r' \<and>
    id_to_name (registry_open P (manifest r')) = id_to_name r' \<and>
    (\<forall>p i. hm_get (name_to_id r) p = Some i \<longrightarrow> hm_get (name_to_id r') p = Some i \<and> get_name r' i = Some p) \<and>
    (case res of Inr i \<Rightarrow> hm_get (name_to_id r') q = Some i \<and> get_name r' i = Some q
               | Inl _ \<Rightarrow> name_to_id r' = name_to_id r \<and> id_to_name r' = id_to_name r)"
proof -
  obtain ns where r: "r = reg_of ns" "names_ok ns" using assms(2) by (metis reg_ok_def)
  show ?thesis
  proof (cases "q \<in> set ns")
    case True
    then obtain i where i: "i < length ns" "q = ns ! i" "hm_get (name_ids ns) q = Some (word_of_nat i)"
      by (rule names_ok_index [OF r(2)])
    from get_or_register_old [of ns i fault] i r assms(5)
    have "res = Inr (word_of_nat i)" "r' = reg_of ns" by (auto simp: names_ok_def)
    with i r get_name_of_get show ?thesis using registry_open_ok [OF assms(1), of r] by simp
  next
    case new: False
    then have none: "hm_get (name_ids ns) q = None" by (simp add: name_ids_None)
    show ?thesis
    proof (cases fault)
      case None
      with get_or_register_new [OF new] assms(5) r
      have res: "res = Inr (word_of_nat (length ns))" "r' = reg_of (ns @ [q])" by auto
      have ok: "names_ok (ns @ [q])" using names_ok_snoc new r assms(3,4) by simp
      from registry_open_ok [OF assms(1), of r'] ok res have "registry_open P (manifest r') = r'" by simp
      moreover have "hm_get (name_ids (ns @ [q])) p = (if p = q then Some (word_of_nat (length ns)) else hm_get (name_ids ns) p)" for p
        using none by (auto simp: name_ids_snoc map_add_def split: option.split)
      ultimately show ?thesis using get_name_of_get [OF ok] none by (auto simp: res r)
    next
      case (Some k)
      with none assms(5) r have res: "res = Inl IoError"
        "r' = r\<lparr>manifest := manifest r @ take k (manifest_entry (word_of_nat (length ns)) q)\<rparr>"
        by (auto simp: get_or_register_def Let_def)
      have "strict_prefix (take k (manifest_entry (word_of_nat (length ns)) q)) (manifest_entry (word_of_nat (length ns)) q)"
        using Some assms(6) length_manifest_entry [of "word_of_nat (length ns)" q]
        by (simp add: strict_prefix_def take_is_prefix)
      note opened = registry_open_torn [OF assms(1) r(2) assms(3) this]
      have "get_name r' i = get_name (reg_of ns) i" for i by (simp add: res r get_name_def)
      with opened res r get_name_of_get [OF r(2)] show ?thesis by simp
    qed
  qed
qed

theorem registry_survives_restart_witness:
  "let r' = snd (get_or_register (Some 5) ''jobs'' (reg_of [])) in
   id_to_name (registry_open demo_packages (manifest r')) = []"
  using registry_survives_restart [OF demo_packages_be demo_names(2,3), of "Some 5" "fst (get_or_register (Some 5) ''jobs'' (reg_of []))"
      "snd (get_or_register (Some 5) ''jobs'' (reg_of []))"]
  by (simp add: get_or_register_def Let_def)

text \<open>
  Opening a log does not cut off the incomplete record a crash left at
  the end of the active segment, and the writer appends after it. When the payload of the torn
  record is missing more bytes than are appended afterwards, the next opening takes the appended
  bytes for that payload and recovers none of the appended records, although their callers were
  notified.
\<close>

theorem torn_tail_hides_appends:
  assumes "segment P reg bs rs" "rec_good P reg (WalPush i q v payload)"
    and "have_bytes < length payload"
    and "torn = take (27 + have_bytes) (encode_record P reg (WalPush i q v payload))"
    and "have_bytes + length (wal_bytes P reg appended) < length payload"
  shows "read_wal_file P reg (bs @ torn @ wal_bytes P reg appended) = rs"
proof -
  let ?h = "push_header i (q_id_of reg q) v (length payload)"
  let ?t = "torn @ wal_bytes P reg appended"
  from assms(2) have be: "bytes_be P" and len: "length payload < 2 ^ 32"
    by (simp_all add: rec_good_def)
  then have "?t = ?h @ (take have_bytes payload @ wal_bytes P reg appended)"
    by (simp add: assms(4) encode_push_header)
  with decode_push_header [OF be len] assms(3,5) have "decode_record P reg ?t = None" by simp
  then have "read_wal_file P reg ?t = []" by (simp add: read_wal_file.simps)
  with wal.rd_concat [of rs P reg ?t] assms(1) show ?thesis by (simp add: segment_def wal_bytes_def)
qed

theorem torn_tail_hides_appends_witness:
  "let reg = reg_of [''jobs''];
       big = WalPush 9 ''jobs'' 1577836900 (replicate 100 0)
   in read_wal_file demo_packages reg
        (take 30 (encode_record demo_packages reg big) @ wal_bytes demo_packages reg [demo_rec]) = []"
proof -
  let ?reg = "reg_of [''jobs'']"
  have "rec_good demo_packages ?reg (WalPush 9 ''jobs'' 1577836900 (replicate 100 0))"
    by (simp add: rec_good_def demo_packages_be demo_names time_ok_def EPOCH_2020_SEC_def)
  moreover have "length (encode_record demo_packages ?reg demo_rec) = 30"
    by (simp add: demo_rec_def length_encode_push demo_packages_be)
  ultimately show ?thesis
    using torn_tail_hides_appends [of demo_packages ?reg "[]" "[]" 9 "''jobs''" 1577836900
        "replicate 100 0" 3 _ "[demo_rec]", OF _ _ _ refl]
    by (simp add: Let_def)
qed

text \<open>
  Queue ids have 16 bits and are not checked: the 65537th queue is given the id
  of the first one, so a message logged for it is recovered into the first queue.
\<close>

theorem registry_id_wraps:
  assumes "bytes_be P" "reg_ok r" "length (id_to_name r) = 65536" "q \<notin> set (id_to_name r)"
    and "get_or_register None q r = (Inr q_id, r')" "length payload < 2 ^ 32"
  shows "\<exists>v'. decode_record P r' (encode_push P i q_id v payload) =
    Some (WalPush i (id_to_name r ! 0) v' payload, [])"
proof -
  obtain ns where r: "r = reg_of ns" using assms(2) by (metis reg_ok_def)
  with get_or_register_new [of q ns] assms(3-5) have "q_id = 0" "r' = reg_of (ns @ [q])" "0 < length ns"
    by auto
  with r have "queue_name_of r' q_id = id_to_name r ! 0"
    by (simp add: queue_name_of_def get_name_def nth_append)
  with decode_push_header [OF assms(1,6), of r' i q_id v payload] show ?thesis
    by (simp add: encode_push_header [OF assms(1)])
qed

lemma valid_utf8_replicate: "valid_utf8 (replicate n 0x61)"
  by (induction n) (simp_all add: valid_utf8_ascii)

lemma many_names_ok: "n \<le> 65536 \<Longrightarrow> names_ok (map (\<lambda>k. replicate k CHR ''a'') [0..<n])"
proof -
  assume n: "n \<le> 65536"
  have "inj (\<lambda>k. replicate k CHR ''a'')" by (rule injI) (metis length_replicate)
  moreover have "as_bytes (replicate k CHR ''a'') = replicate k 0x61" for k
    by (simp add: as_bytes_def)
  ultimately show ?thesis
    using n by (auto simp: names_ok_def name_ok_def valid_utf8_replicate distinct_map
        intro: inj_on_subset)
qed

theorem registry_id_wraps_witness:
  "\<exists>r q_id r'. reg_ok r \<and> get_or_register None ''jobs'' r = (Inr q_id, r') \<and>
     (\<exists>v'. decode_record demo_packages r' (encode_push demo_packages 7 q_id 1577836900 [1]) =
       Some (WalPush 7 (id_to_name r ! 0) v' [1], [])) \<and> id_to_name r ! 0 = ''''"
proof -
  let ?ns = "map (\<lambda>k. replicate k CHR ''a'') [0..<65536]"
  have new: "''jobs'' \<notin> set ?ns"
  proof
    assume "''jobs'' \<in> set ?ns"
    then obtain k where "''jobs'' = replicate k CHR ''a''" by auto
    then have "CHR ''j'' \<in> set (replicate k CHR ''a'')" by (metis list.set_intros(1))
    then show False by simp
  qed
  have ok: "reg_ok (reg_of ?ns)" using many_names_ok [of 65536] by (simp only: reg_ok_reg_of order.refl)
  have reg: "get_or_register None ''jobs'' (reg_of ?ns) = (Inr (word_of_nat (length ?ns)), reg_of (?ns @ [''jobs'']))"
    by (rule get_or_register_new [OF new])
  have len: "length ?ns = 65536" and first: "?ns ! 0 = ''''" by (simp_all del: upt_Suc)
  have wrapped: "\<exists>v'. decode_record demo_packages (reg_of (?ns @ [''jobs'']))
      (encode_push demo_packages 7 (word_of_nat (length ?ns)) 1577836900 [1]) =
      Some (WalPush 7 (id_to_name (reg_of ?ns) ! 0) v' [1], [])"
  proof (rule registry_id_wraps [OF demo_packages_be ok _ _ reg])
    show "length (id_to_name (reg_of ?ns)) = 65536" by (simp only: reg_of_sel len)
    show "''jobs'' \<notin> set (id_to_name (reg_of ?ns))" unfolding reg_of_sel by (rule new)
  qed simp
  then obtain v' where v': "decode_record demo_packages (reg_of (?ns @ [''jobs'']))
      (encode_push demo_packages 7 (word_of_nat (length ?ns)) 1577836900 [1]) =
      Some (WalPush 7 (id_to_name (reg_of ?ns) ! 0) v' [1], [])" ..
  show ?thesis
  proof (intro exI conjI)
    show "reg_ok (reg_of ?ns)" by (rule ok)
    show "get_or_register None ''jobs'' (reg_of ?ns) = (Inr (word_of_nat (length ?ns)), reg_of (?ns @ [''jobs'']))"
      by (rule reg)
    show "decode_record demo_packages (reg_of (?ns @ [''jobs'']))
      (encode_push demo_packages 7 (word_of_nat (length ?ns)) 1577836900 [1]) =
      Some (WalPush 7 (id_to_name (reg_of ?ns) ! 0) v' [1], [])" by (rule v')
    show "id_to_name (reg_of ?ns) ! 0 = ''''" by (simp only: reg_of_sel first)
  qed
qed

end
