(* ===== verification/Single_Queue.thy ===== *)
theory Single_Queue
  imports Packages
begin

text \<open>
  One queue of the engine (\<open>SingleQueue\<close> in \<open>walrq/src/engine/queue.rs\<close>): a FIFO of ready message
  ids, hot delay buckets keyed by second, far-future items, and tombstones for deleted ids that
  are still in one of the lists. The abstraction of a queue is the list of ids it will hand out
  (\<open>sq_live\<close>) and the set of ids it holds back with the second they are released
  (\<open>sq_wait\<close>); the locale \<open>delay_queue\<close> states the operations in those terms.
  \<open>HashMap\<close> iteration order is the parameter \<open>ord\<close>, any function that permutes the keys.
\<close>

section \<open>Model\<close>

definition HOT_DELAY_HORIZON_SEC :: u64 where
  "HOT_DELAY_HORIZON_SEC = 300"

record far_future_item =
  ff_id :: ulid
  ff_visible_at :: u64

record single_queue =
  ready :: "ulid list"
  hot_delay_buckets :: "(u64, ulid list) hmap"
  far_future :: "far_future_item list"
  deleted :: "ulid set"
  last_drained_sec :: u64

definition sq_new :: "u64 \<Rightarrow> single_queue" where
  "sq_new now_sec =
     \<lparr>ready = [], hot_delay_buckets = [], far_future = [], deleted = {}, last_drained_sec = now_sec\<rparr>"

text \<open>\<open>entry(k).or_default().push(id)\<close>.\<close>

definition bucket_push :: "u64 \<Rightarrow> ulid \<Rightarrow> (u64, ulid list) hmap \<Rightarrow> (u64, ulid list) hmap" where
  "bucket_push k i m = hm_insert k ((case hm_get m k of None \<Rightarrow> [] | Some b \<Rightarrow> b) @ [i]) m"

definition bucket_min :: "u64 \<Rightarrow> u64" where
  "bucket_min visible_at = (visible_at div 60) * 60"

fun promote :: "u64 \<Rightarrow> ulid set \<Rightarrow> far_future_item list \<Rightarrow> (u64, ulid list) hmap \<Rightarrow>
    (u64, ulid list) hmap \<times> far_future_item list" where
  "promote horizon_limit del [] m = (m, [])"
| "promote horizon_limit del (item # items) m =
     (if ff_id item \<in> del then promote horizon_limit del items m
      else if ff_visible_at item \<le> horizon_limit then
        promote horizon_limit del items (bucket_push (bucket_min (ff_visible_at item)) (ff_id item) m)
      else
        (let (m', remaining) = promote horizon_limit del items m in (m', item # remaining)))"

fun drain_ids :: "ulid list \<Rightarrow> ulid list \<times> ulid set \<Rightarrow> ulid list \<times> ulid set" where
  "drain_ids [] s = s"
| "drain_ids (i # is) (r, d) = drain_ids is (if i \<in> d then (r, d - {i}) else (r @ [i], d))"

definition drain_bucket :: "u64 \<Rightarrow> single_queue \<Rightarrow> single_queue" where
  "drain_bucket sec q =
     (case hm_get (hot_delay_buckets q) sec of
        Some bucket \<Rightarrow>
          (let (r, d) = drain_ids bucket (ready q, deleted q)
           in q\<lparr>hot_delay_buckets := hm_remove sec (hot_delay_buckets q), ready := r, deleted := d\<rparr>)
      | None \<Rightarrow> q)"

definition advance_and_drain :: "(u64 list \<Rightarrow> u64 list) \<Rightarrow> u64 \<Rightarrow> single_queue \<Rightarrow> single_queue" where
  "advance_and_drain ord now_sec q =
     (if now_sec < last_drained_sec q then q
      else
        let horizon_limit = now_sec + HOT_DELAY_HORIZON_SEC;
            (m, remaining) = promote horizon_limit (deleted q) (far_future q) (hot_delay_buckets q);
            q1 = q\<lparr>hot_delay_buckets := m, far_future := remaining\<rparr>;
            ready_secs = filter (\<lambda>sec. sec \<le> now_sec) (ord (hm_keys m))
        in (fold drain_bucket ready_secs q1)\<lparr>last_drained_sec := now_sec\<rparr>)"

definition sq_insert :: "ulid \<Rightarrow> u64 \<Rightarrow> u64 \<Rightarrow> single_queue \<Rightarrow> single_queue" where
  "sq_insert i visible_at now_sec q =
     (let q1 = q\<lparr>deleted := deleted q - {i}\<rparr> in
      if visible_at \<le> now_sec then q1\<lparr>ready := ready q1 @ [i]\<rparr>
      else if visible_at \<le> now_sec + HOT_DELAY_HORIZON_SEC then
        q1\<lparr>hot_delay_buckets := bucket_push visible_at i (hot_delay_buckets q1)\<rparr>
      else q1\<lparr>far_future := far_future q1 @ [\<lparr>ff_id = i, ff_visible_at = visible_at\<rparr>]\<rparr>)"

definition mark_deleted :: "ulid \<Rightarrow> single_queue \<Rightarrow> single_queue" where
  "mark_deleted i q =
     (case ready q of
        x # r \<Rightarrow> if x = i then q\<lparr>ready := r\<rparr> else q\<lparr>deleted := insert i (deleted q)\<rparr>
      | [] \<Rightarrow> q\<lparr>deleted := insert i (deleted q)\<rparr>)"

definition ready_len :: "single_queue \<Rightarrow> nat" where
  "ready_len q = length (ready q) - card (deleted q)"

fun pop_loop :: "ulid list \<Rightarrow> ulid set \<Rightarrow> ulid option \<times> ulid list \<times> ulid set" where
  "pop_loop [] d = (None, [], d)"
| "pop_loop (i # r) d = (if i \<in> d then pop_loop r (d - {i}) else (Some i, r, d))"

definition pop_ready :: "single_queue \<Rightarrow> ulid option \<times> single_queue" where
  "pop_ready q =
     (let (res, r, d) = pop_loop (ready q) (deleted q) in
      case res of
        Some i \<Rightarrow> (Some i, q\<lparr>ready := r, deleted := d\<rparr>)
      | None \<Rightarrow>
          (None, q\<lparr>ready := r, deleted := (if r = [] \<and> d \<noteq> {} then {} else d)\<rparr>))"

text \<open>The claim loop of \<open>poll\<close>: pop until \<open>n\<close> ids are claimed or the queue has none.\<close>

primrec claim_ready :: "nat \<Rightarrow> single_queue \<Rightarrow> ulid list \<times> single_queue" where
  "claim_ready 0 q = ([], q)"
| "claim_ready (Suc n) q =
     (case pop_ready q of
        (Some i, q1) \<Rightarrow> (let (is, q2) = claim_ready n q1 in (i # is, q2))
      | (None, q1) \<Rightarrow> ([], q1))"

section \<open>Abstraction and invariant\<close>

definition bucket_sched :: "(u64, ulid list) hmap \<Rightarrow> (ulid \<times> u64) list" where
  "bucket_sched m = concat (map (\<lambda>(k, b). map (\<lambda>i. (i, k)) b) m)"

definition far_sched :: "far_future_item list \<Rightarrow> (ulid \<times> u64) list" where
  "far_sched ffs = map (\<lambda>it. (ff_id it, bucket_min (ff_visible_at it))) ffs"

definition sq_sched :: "single_queue \<Rightarrow> (ulid \<times> u64) list" where
  "sq_sched q = bucket_sched (hot_delay_buckets q) @ far_sched (far_future q)"

definition sq_ids :: "single_queue \<Rightarrow> ulid list" where
  "sq_ids q = ready q @ map fst (sq_sched q)"

definition sq_ok :: "single_queue \<Rightarrow> bool" where
  "sq_ok q \<longleftrightarrow> finite (deleted q) \<and> hm_wf (hot_delay_buckets q) \<and> distinct (sq_ids q)"

definition sq_live :: "single_queue \<Rightarrow> ulid list" where
  "sq_live q = filter (\<lambda>i. i \<notin> deleted q) (ready q)"

definition sq_wait :: "single_queue \<Rightarrow> (ulid \<times> u64) set" where
  "sq_wait q = {(i, t). (i, t) \<in> set (sq_sched q) \<and> i \<notin> deleted q}"

section \<open>Lemmas\<close>

subsection \<open>Buckets\<close>

lemma bucket_sched_simps [simp]:
  "bucket_sched [] = []"
  "bucket_sched ((k, b) # m) = map (\<lambda>i. (i, k)) b @ bucket_sched m"
  by (simp_all add: bucket_sched_def)

lemma bucket_sched_push:
  "mset (bucket_sched (bucket_push k i m)) = add_mset (i, k) (mset (bucket_sched m))"
  by (induction m) (auto simp: bucket_push_def split: option.splits if_splits)

lemma bucket_push_wf [simp]: "hm_wf m \<Longrightarrow> hm_wf (bucket_push k i m)"
  by (simp add: bucket_push_def)

lemma bucket_sched_none: "k \<notin> set (hm_keys m) \<Longrightarrow> (i, k) \<notin> set (bucket_sched m)"
  by (induction m) auto

lemma bucket_sched_remove:
  "hm_wf m \<Longrightarrow> mset (bucket_sched (hm_remove k m)) =
     filter_mset (\<lambda>(i, t). t \<noteq> k) (mset (bucket_sched m))"
proof (induction m)
  case Nil
  then show ?case by simp
next
  case (Cons p m)
  obtain k' b where p: "p = (k', b)" by (cases p)
  have "filter_mset (\<lambda>(i, t). t \<noteq> k) (image_mset (\<lambda>i. (i, k')) (mset b)) =
      (if k' = k then {#} else image_mset (\<lambda>i. (i, k')) (mset b))"
    by (induction b) auto
  with Cons p show ?case by auto
qed

lemma bucket_sched_lookup:
  "hm_wf m \<Longrightarrow> hm_get m k = Some b \<Longrightarrow>
   filter_mset (\<lambda>(i, t). t = k) (mset (bucket_sched m)) = image_mset (\<lambda>i. (i, k)) (mset b)"
proof (induction m)
  case Nil
  then show ?case by simp
next
  case (Cons p m)
  obtain k' c where p: "p = (k', c)" by (cases p)
  have c: "filter_mset (\<lambda>(i, t). t = k) (image_mset (\<lambda>i. (i, k')) (mset c)) =
      (if k' = k then image_mset (\<lambda>i. (i, k)) (mset c) else {#})"
    by (induction c) auto
  show ?case
  proof (cases "k' = k")
    case True
    then have "filter_mset (\<lambda>(i, t). t = k) (mset (bucket_sched m)) = {#}"
      using Cons.prems p bucket_sched_none [of k m] by (auto simp: filter_mset_eq_conv)
    with True c Cons.prems p show ?thesis by simp
  next
    case False
    with c Cons p show ?thesis by auto
  qed
qed

subsection \<open>Promotion and draining\<close>

lemma promote_eq:
  assumes "promote h del ffs m = (m', rm)" and "hm_wf m"
  shows "hm_wf m' \<and> rm = filter (\<lambda>it. ff_id it \<notin> del \<and> \<not> ff_visible_at it \<le> h) ffs \<and>
    mset (bucket_sched m') = mset (bucket_sched m) +
      mset (far_sched (filter (\<lambda>it. ff_id it \<notin> del \<and> ff_visible_at it \<le> h) ffs))"
  using assms
proof (induction h del ffs m arbitrary: m' rm rule: promote.induct)
  case (1 h del m)
  then show ?case by (simp add: far_sched_def)
next
  case (2 h del item items m)
  consider (dead) "ff_id item \<in> del"
    | (hot) "ff_id item \<notin> del" "ff_visible_at item \<le> h"
    | (far) "ff_id item \<notin> del" "\<not> ff_visible_at item \<le> h" by blast
  then show ?case
  proof cases
    case dead
    with 2 show ?thesis by simp
  next
    case hot
    with 2 show ?thesis by (simp add: far_sched_def bucket_sched_push)
  next
    case far
    obtain m1 r1 where pr: "promote h del items m = (m1, r1)" by (cases "promote h del items m")
    with far 2(4) have "m' = m1" "rm = item # r1" by simp_all
    with far 2(3) [OF far pr 2(5)] show ?thesis by (simp add: far_sched_def)
  qed
qed

lemma drain_ids_eq:
  "distinct is \<Longrightarrow> drain_ids is (r, d) = (r @ filter (\<lambda>i. i \<notin> d) is, d - set is)"
proof (induction "is" arbitrary: r d)
  case Nil
  then show ?case by simp
next
  case (Cons i "is")
  then have "filter (\<lambda>j. j \<notin> d - {i}) is = filter (\<lambda>j. j \<notin> d) is"
    by (intro filter_cong) auto
  with Cons show ?case by auto
qed

lemma pop_loop_eq:
  "distinct r \<Longrightarrow> pop_loop r d =
     (case filter (\<lambda>i. i \<notin> d) r of
        [] \<Rightarrow> (None, [], d - set r)
      | x # _ \<Rightarrow> (Some x, tl (dropWhile (\<lambda>i. i \<in> d) r), d - set (takeWhile (\<lambda>i. i \<in> d) r)))"
proof (induction r d rule: pop_loop.induct)
  case (1 d)
  then show ?case by simp
next
  case (2 i r d)
  have f: "filter (\<lambda>j. j \<notin> d - {i}) r = filter (\<lambda>j. j \<notin> d) r"
    "dropWhile (\<lambda>j. j \<in> d - {i}) r = dropWhile (\<lambda>j. j \<in> d) r"
    "takeWhile (\<lambda>j. j \<in> d - {i}) r = takeWhile (\<lambda>j. j \<in> d) r"
    using 2(2) by (auto intro!: filter_cong dropWhile_cong takeWhile_cong)
  show ?case
  proof (cases "i \<in> d")
    case True
    with 2 f show ?thesis by (auto split: list.splits)
  next
    case False
    then show ?thesis by simp
  qed
qed

subsection \<open>Operations on the abstraction\<close>

lemma sq_new_ok: "sq_ok (sq_new now)" "sq_live (sq_new now) = []" "sq_wait (sq_new now) = {}"
  by (simp_all add: sq_ok_def sq_new_def sq_ids_def sq_sched_def far_sched_def sq_live_def sq_wait_def)

lemma distinct_mset_cong: "mset xs = mset ys \<Longrightarrow> distinct xs \<longleftrightarrow> distinct ys"
  by (rule mset_eq_imp_distinct_iff)

lemma sq_ids_bucket:
  "sq_ok q \<Longrightarrow> hm_get (hot_delay_buckets q) k = Some b \<Longrightarrow>
   distinct (ready q @ b @ map fst (bucket_sched (hm_remove k (hot_delay_buckets q))) @
     map fst (far_sched (far_future q))) \<and>
   distinct b \<and> set b \<inter> set (ready q) = {} \<and>
   set b \<inter> fst ` set (bucket_sched (hm_remove k (hot_delay_buckets q))) = {} \<and>
   set b \<inter> fst ` set (far_sched (far_future q)) = {}"
proof -
  let ?m = "hot_delay_buckets q"
  assume ok: "sq_ok q" and b: "hm_get ?m k = Some b"
  have wf: "hm_wf ?m" using ok by (simp add: sq_ok_def)
  have "mset (bucket_sched ?m) = image_mset (\<lambda>i. (i, k)) (mset b) + mset (bucket_sched (hm_remove k ?m))"
  proof -
    have "{#p \<in># mset (bucket_sched ?m). snd p = k#} = image_mset (\<lambda>i. (i, k)) (mset b)"
      "{#p \<in># mset (bucket_sched ?m). snd p \<noteq> k#} = mset (bucket_sched (hm_remove k ?m))"
      using bucket_sched_lookup [OF wf b] bucket_sched_remove [OF wf, of k] by (simp_all add: split_def)
    then show ?thesis
      using multiset_partition [of "mset (bucket_sched ?m)" "\<lambda>p. snd p = k"] by metis
  qed
  then have "mset (sq_ids q) = mset (ready q @ b @ map fst (bucket_sched (hm_remove k ?m)) @
      map fst (far_sched (far_future q)))"
    by (simp add: sq_ids_def sq_sched_def image_mset.compositionality comp_def)
  from distinct_mset_cong [OF this]
  have "distinct (ready q @ b @ map fst (bucket_sched (hm_remove k ?m)) @
      map fst (far_sched (far_future q)))"
    using ok by (simp only: sq_ok_def)
  then show ?thesis by auto
qed

lemma drain_bucket_step:
  assumes ok: "sq_ok q" and b: "hm_get (hot_delay_buckets q) k = Some b"
  shows "sq_live (drain_bucket k q) = sq_live q @ filter (\<lambda>i. i \<notin> deleted q) b"
    and "deleted (drain_bucket k q) = deleted q - set b"
    and "hot_delay_buckets (drain_bucket k q) = hm_remove k (hot_delay_buckets q)"
    and "far_future (drain_bucket k q) = far_future q"
    and "sq_ok (drain_bucket k q)"
proof -
  note d = sq_ids_bucket [OF assms]
  have eq: "drain_bucket k q = q\<lparr>hot_delay_buckets := hm_remove k (hot_delay_buckets q),
      ready := ready q @ filter (\<lambda>i. i \<notin> deleted q) b, deleted := deleted q - set b\<rparr>"
    using b d by (simp add: drain_bucket_def drain_ids_eq)
  show "deleted (drain_bucket k q) = deleted q - set b"
    "hot_delay_buckets (drain_bucket k q) = hm_remove k (hot_delay_buckets q)"
    "far_future (drain_bucket k q) = far_future q"
    by (simp_all add: eq)
  have rd: "ready (drain_bucket k q) = ready q @ filter (\<lambda>i. i \<notin> deleted q) b" by (simp add: eq)
  have "filter (\<lambda>i. i \<notin> deleted q - set b) (ready q) = filter (\<lambda>i. i \<notin> deleted q) (ready q)"
    "filter (\<lambda>i. i \<notin> deleted q - set b) (filter (\<lambda>i. i \<notin> deleted q) b) = filter (\<lambda>i. i \<notin> deleted q) b"
    using d by (auto intro!: filter_cong simp: filter_id_conv)
  then show "sq_live (drain_bucket k q) = sq_live q @ filter (\<lambda>i. i \<notin> deleted q) b"
    unfolding sq_live_def \<open>deleted (drain_bucket k q) = deleted q - set b\<close> rd
    by (simp only: filter_append)
  have sub: "distinct (xs @ b @ ys) \<Longrightarrow> distinct (xs @ filter P b @ ys)" for xs ys P
    by auto
  have "distinct (ready q @ filter (\<lambda>i. i \<notin> deleted q) b @
      map fst (bucket_sched (hm_remove k (hot_delay_buckets q))) @ map fst (far_sched (far_future q)))"
    using d sub by blast
  then have "distinct (sq_ids (drain_bucket k q))" by (simp add: sq_ids_def sq_sched_def eq)
  moreover have "finite (deleted (drain_bucket k q))" "hm_wf (hot_delay_buckets (drain_bucket k q))"
    using ok by (simp_all add: sq_ok_def eq)
  ultimately show "sq_ok (drain_bucket k q)" by (simp add: sq_ok_def)
qed

lemma bucket_sched_mem:
  "hm_wf m \<Longrightarrow> (i, k) \<in> set (bucket_sched m) \<longleftrightarrow> (\<exists>b. hm_get m k = Some b \<and> i \<in> set b)"
proof (induction m)
  case Nil
  then show ?case by simp
next
  case (Cons p m)
  obtain k' b where p: "p = (k', b)" by (cases p)
  with Cons have "hm_get m k' = None" by (simp add: hm_get_None)
  with Cons p show ?case by auto
qed

lemma fold_drain_bucket:
  "sq_ok q \<Longrightarrow> distinct secs \<Longrightarrow> set secs \<subseteq> set (hm_keys (hot_delay_buckets q)) \<Longrightarrow>
   \<exists>L. sq_live (fold drain_bucket secs q) = sq_live q @ L \<and>
     set L = {i. i \<notin> deleted q \<and> (\<exists>t \<in> set secs. (i, t) \<in> set (bucket_sched (hot_delay_buckets q)))} \<and>
     deleted (fold drain_bucket secs q) =
       deleted q - {i. \<exists>t \<in> set secs. (i, t) \<in> set (bucket_sched (hot_delay_buckets q))} \<and>
     set (bucket_sched (hot_delay_buckets (fold drain_bucket secs q))) =
       {(i, t) \<in> set (bucket_sched (hot_delay_buckets q)). t \<notin> set secs} \<and>
     far_future (fold drain_bucket secs q) = far_future q \<and> sq_ok (fold drain_bucket secs q)"
proof (induction secs arbitrary: q)
  case Nil
  then show ?case by auto
next
  case (Cons k secs)
  let ?m = "hot_delay_buckets q" and ?q = "drain_bucket k q"
  from Cons.prems obtain b where b: "hm_get ?m k = Some b"
    by (metis hm_get_None list.set_intros(1) not_Some_eq subsetD)
  note st = drain_bucket_step [OF Cons.prems(1) b]
  have wf: "hm_wf ?m" using Cons.prems(1) by (simp add: sq_ok_def)
  have keys: "set secs \<subseteq> set (hm_keys (hot_delay_buckets ?q))"
    using Cons.prems(2,3) unfolding st(3) hm_keys_remove by auto
  have sch: "(i, t) \<in> set (bucket_sched (hot_delay_buckets ?q)) \<longleftrightarrow>
      (i, t) \<in> set (bucket_sched ?m) \<and> t \<noteq> k" for i t
    using wf by (simp add: st bucket_sched_mem)
  have mem: "i \<in> set b \<longleftrightarrow> (i, k) \<in> set (bucket_sched ?m)" for i
    using wf b by (simp add: bucket_sched_mem)
  from Cons.IH [OF st(5) _ keys] Cons.prems(2) obtain L where
    L: "sq_live (fold drain_bucket secs ?q) = sq_live ?q @ L"
      "set L = {i. i \<notin> deleted ?q \<and> (\<exists>t \<in> set secs. (i, t) \<in> set (bucket_sched (hot_delay_buckets ?q)))}"
      "deleted (fold drain_bucket secs ?q) =
         deleted ?q - {i. \<exists>t \<in> set secs. (i, t) \<in> set (bucket_sched (hot_delay_buckets ?q))}"
      "set (bucket_sched (hot_delay_buckets (fold drain_bucket secs ?q))) =
         {(i, t) \<in> set (bucket_sched (hot_delay_buckets ?q)). t \<notin> set secs}"
      "far_future (fold drain_bucket secs ?q) = far_future ?q" "sq_ok (fold drain_bucket secs ?q)"
    by auto
  have nk: "i \<notin> set b" if "(i, t) \<in> set (bucket_sched (hot_delay_buckets ?q))" for i t
  proof -
    have "i \<in> fst ` set (bucket_sched (hm_remove k ?m))"
      using that unfolding st(3) by (rule image_eqI [rotated]) simp
    then show ?thesis using sq_ids_bucket [OF Cons.prems(1) b] by blast
  qed
  have "sq_live (fold drain_bucket secs ?q) = sq_live q @ (filter (\<lambda>i. i \<notin> deleted q) b @ L)"
    using L(1) st(1) by simp
  moreover have "set (filter (\<lambda>i. i \<notin> deleted q) b @ L) = {i. i \<notin> deleted q \<and>
      (\<exists>t \<in> set (k # secs). (i, t) \<in> set (bucket_sched ?m))}"
    using Cons.prems(2) nk by (auto simp: L(2) st(2) sch mem)
  moreover have "deleted (fold drain_bucket secs ?q) =
      deleted q - {i. \<exists>t \<in> set (k # secs). (i, t) \<in> set (bucket_sched ?m)}"
    using Cons.prems(2) by (auto simp: L(3) st(2) sch mem)
  moreover have "set (bucket_sched (hot_delay_buckets (fold drain_bucket secs ?q))) =
      {(i, t) \<in> set (bucket_sched ?m). t \<notin> set (k # secs)}"
    by (auto simp: L(4) sch)
  ultimately show ?case using L(5,6) st(4) by (intro exI [of _ "filter (\<lambda>i. i \<notin> deleted q) b @ L"]) simp
qed

lemma unat_bucket_min: "unat (bucket_min v) = unat v div 60 * 60"
proof -
  have "unat v div 60 * 60 \<le> unat v" by simp
  also have "unat v < 2 ^ LENGTH(64)" by (rule unsigned_less)
  finally have "unat v div 60 * 60 < 2 ^ LENGTH(64)" .
  then show ?thesis
    by (simp add: bucket_min_def unat_word_ariths unat_div)
qed

lemma bucket_min_le: "bucket_min v \<le> v"
  by (simp add: word_le_nat_alt unat_bucket_min)

lemma bucket_min_early: "unat v < unat (bucket_min v) + 60"
  unfolding unat_bucket_min by (metis add.commute add_less_cancel_left div_mult_mod_eq mod_less_divisor
      zero_less_numeral mult.commute)

lemma far_item_not_due:
  assumes "unat now + 300 < 2 ^ 64" "\<not> v \<le> now + HOT_DELAY_HORIZON_SEC"
  shows "\<not> bucket_min v \<le> now"
proof -
  have "unat (now + 300) = unat now + 300"
    using assms(1) by (simp add: unat_word_ariths)
  then have "unat now + 300 < unat v"
    using assms(2) by (simp add: HOT_DELAY_HORIZON_SEC_def word_le_nat_alt)
  with bucket_min_early [of v] show ?thesis by (simp add: word_le_nat_alt)
qed

lemma sq_ok_last_drained [simp]: "sq_ok (q\<lparr>last_drained_sec := t\<rparr>) = sq_ok q"
  by (simp add: sq_ok_def sq_ids_def sq_sched_def)

lemma sq_view_last_drained [simp]:
  "sq_live (q\<lparr>last_drained_sec := t\<rparr>) = sq_live q"
  "sq_wait (q\<lparr>last_drained_sec := t\<rparr>) = sq_wait q"
  by (simp_all add: sq_live_def sq_wait_def sq_sched_def)

lemma promote_view:
  assumes ok: "sq_ok q" and pr: "promote h (deleted q) (far_future q) (hot_delay_buckets q) = (m, rm)"
  defines "q1 \<equiv> q\<lparr>hot_delay_buckets := m, far_future := rm\<rparr>"
  shows "sq_ok q1" "sq_live q1 = sq_live q" "sq_wait q1 = sq_wait q" "set (sq_sched q1) \<subseteq> set (sq_sched q)"
proof -
  let ?hot = "filter (\<lambda>it. ff_id it \<notin> deleted q \<and> ff_visible_at it \<le> h) (far_future q)"
  let ?far = "filter (\<lambda>it. ff_id it \<notin> deleted q \<and> \<not> ff_visible_at it \<le> h) (far_future q)"
  let ?dead = "filter (\<lambda>it. ff_id it \<in> deleted q) (far_future q)"
  have wf: "hm_wf (hot_delay_buckets q)" using ok by (simp add: sq_ok_def)
  note p = promote_eq [OF pr wf]
  have "mset xs = mset (filter (\<lambda>it. ff_id it \<notin> deleted q \<and> ff_visible_at it \<le> h) xs) +
      mset (filter (\<lambda>it. ff_id it \<notin> deleted q \<and> \<not> ff_visible_at it \<le> h) xs) +
      mset (filter (\<lambda>it. ff_id it \<in> deleted q) xs)" for xs
    by (induction xs) auto
  then have split3: "mset (far_future q) = mset ?hot + mset ?far + mset ?dead" .
  have "mset (far_sched (far_future q)) = mset (far_sched ?hot) + mset (far_sched ?far) + mset (far_sched ?dead)"
    unfolding far_sched_def mset_map by (subst split3) (simp only: image_mset_union)
  then have sched: "mset (sq_sched q) = mset (sq_sched q1) + mset (far_sched ?dead)"
    using p by (simp add: sq_sched_def q1_def)
  then have "mset (sq_ids q) = mset (sq_ids q1 @ map fst (far_sched ?dead))"
    by (simp add: sq_ids_def q1_def)
  from distinct_mset_cong [OF this] show "sq_ok q1"
    using ok p by (simp add: sq_ok_def q1_def)
  show "sq_live q1 = sq_live q" by (simp add: sq_live_def q1_def)
  have st: "set (sq_sched q) = set (sq_sched q1) \<union> set (far_sched ?dead)"
    using arg_cong [OF sched, of set_mset] by simp
  then show "set (sq_sched q1) \<subseteq> set (sq_sched q)" by blast
  have dead: "i \<in> deleted q" if "(i, t) \<in> set (far_sched ?dead)" for i t
    using that by (auto simp: far_sched_def)
  have "deleted q1 = deleted q" by (simp add: q1_def)
  then have "(i, t) \<in> sq_wait q1 \<longleftrightarrow> (i, t) \<in> sq_wait q" for i t
    unfolding sq_wait_def st using dead [of i t] by blast
  then show "sq_wait q1 = sq_wait q" by auto
qed

lemma advance_spec:
  assumes ok: "sq_ok q" and ord: "iter_order ord" and fwd: "last_drained_sec q \<le> now"
    and bound: "unat now + 300 < 2 ^ 64"
  defines "q' \<equiv> advance_and_drain ord now q"
  shows "\<exists>xs. sq_live q' = sq_live q @ xs \<and> set xs = {i. \<exists>t. (i, t) \<in> sq_wait q \<and> t \<le> now}"
    and "sq_wait q' = {(i, t) \<in> sq_wait q. now < t}"
    and "sq_ok q'" and "last_drained_sec q' = now"
proof -
  let ?h = "now + HOT_DELAY_HORIZON_SEC"
  obtain m rm where pr: "promote ?h (deleted q) (far_future q) (hot_delay_buckets q) = (m, rm)"
    by (cases "promote ?h (deleted q) (far_future q) (hot_delay_buckets q)")
  define q1 where "q1 = q\<lparr>hot_delay_buckets := m, far_future := rm\<rparr>"
  define secs where "secs = filter (\<lambda>sec. sec \<le> now) (ord (hm_keys m))"
  have q': "q' = (fold drain_bucket secs q1)\<lparr>last_drained_sec := now\<rparr>"
    using fwd pr by (simp add: q'_def advance_and_drain_def q1_def secs_def Let_def)
  note v = promote_view [OF ok pr, folded q1_def]
  have wf: "hm_wf m" using v(1) by (simp add: sq_ok_def q1_def)
  have secs: "distinct secs" "set secs = {k \<in> set (hm_keys m). k \<le> now}"
    using iter_orderD [OF ord, of "hm_keys m"] wf by (auto simp: secs_def)
  then have "set secs \<subseteq> set (hm_keys (hot_delay_buckets q1))" by (auto simp: q1_def)
  from fold_drain_bucket [OF v(1) secs(1) this] obtain L where
    L: "sq_live (fold drain_bucket secs q1) = sq_live q1 @ L"
      "set L = {i. i \<notin> deleted q \<and> (\<exists>t \<in> set secs. (i, t) \<in> set (bucket_sched m))}"
      "deleted (fold drain_bucket secs q1) = deleted q - {i. \<exists>t \<in> set secs. (i, t) \<in> set (bucket_sched m)}"
      "set (bucket_sched (hot_delay_buckets (fold drain_bucket secs q1))) =
         {(i, t) \<in> set (bucket_sched m). t \<notin> set secs}"
      "far_future (fold drain_bucket secs q1) = rm" "sq_ok (fold drain_bucket secs q1)"
    by (auto simp: q1_def)
  have key: "t \<in> set secs \<longleftrightarrow> t \<le> now" if "(i, t) \<in> set (bucket_sched m)" for i t
    using that bucket_sched_none [of t m i] secs(2) by auto
  have "\<not> ff_visible_at it \<le> ?h" if "it \<in> set rm" for it
    using that promote_eq [OF pr] ok by (auto simp: sq_ok_def)
  then have far: "\<not> t \<le> now" if "(i, t) \<in> set (far_sched rm)" for i t
    using that far_item_not_due [OF bound] by (auto simp: far_sched_def)
  have w1: "sq_wait q = {(i, t). ((i, t) \<in> set (bucket_sched m) \<or> (i, t) \<in> set (far_sched rm)) \<and> i \<notin> deleted q}"
    unfolding v(3) [symmetric] by (auto simp: sq_wait_def sq_sched_def q1_def)
  have "set L = {i. \<exists>t. (i, t) \<in> sq_wait q \<and> t \<le> now}"
    unfolding L(2) w1 using key far by blast
  then show "\<exists>xs. sq_live q' = sq_live q @ xs \<and> set xs = {i. \<exists>t. (i, t) \<in> sq_wait q \<and> t \<le> now}"
    using L(1) v(2) q' by (intro exI [of _ L]) simp
  have uniq: "s = t" if "(i, s) \<in> set (sq_sched q1)" "(i, t) \<in> set (sq_sched q1)" for i s t
  proof -
    have "distinct (map fst (sq_sched q1))" using v(1) by (simp add: sq_ok_def sq_ids_def)
    then show ?thesis using that by (metis eq_key_imp_eq_value)
  qed
  have "sq_wait (fold drain_bucket secs q1) = {(i, t) \<in> sq_wait q. now < t}"
  proof (intro set_eqI iffI; clarsimp)
    fix i t
    assume "(i, t) \<in> sq_wait (fold drain_bucket secs q1)"
    then have mem: "((i, t) \<in> set (bucket_sched m) \<and> t \<notin> set secs) \<or> (i, t) \<in> set (far_sched rm)"
      and nd: "i \<notin> deleted q \<or> (\<exists>s \<in> set secs. (i, s) \<in> set (bucket_sched m))"
      by (auto simp: sq_wait_def sq_sched_def L(3,4,5))
    have late: "now < t" using mem key [of i t] far [of i t] by auto
    have "i \<notin> deleted q"
    proof (rule ccontr)
      assume "\<not> i \<notin> deleted q"
      then obtain s where "s \<in> set secs" "(i, s) \<in> set (bucket_sched m)" using nd by blast
      then have "s = t" "s \<le> now"
        using uniq [of i s t] mem secs(2) by (auto simp: sq_sched_def q1_def)
      with late show False by simp
    qed
    with mem late show "(i, t) \<in> sq_wait q \<and> now < t" by (auto simp: w1)
  next
    fix i t
    assume "(i, t) \<in> sq_wait q" and late: "now < t"
    then have "(i, t) \<in> set (bucket_sched m) \<or> (i, t) \<in> set (far_sched rm)" "i \<notin> deleted q"
      unfolding w1 by auto
    then show "(i, t) \<in> sq_wait (fold drain_bucket secs q1)"
      using secs(2) late by (auto simp: sq_wait_def sq_sched_def L(3,4,5))
  qed
  then show "sq_wait q' = {(i, t) \<in> sq_wait q. now < t}" by (simp add: q')
  show "sq_ok q'" using L(6) by (simp add: q')
  show "last_drained_sec q' = now" by (simp add: q')
qed

lemma sq_insert_ids:
  "mset (sq_ids (sq_insert i v now q)) = add_mset i (mset (sq_ids q))"
  by (simp add: sq_insert_def sq_ids_def sq_sched_def far_sched_def bucket_sched_push Let_def)

lemma sq_insert_ok:
  assumes ok: "sq_ok q" and new: "i \<notin> set (sq_ids q)"
  shows "sq_ok (sq_insert i v now q)"
proof -
  have "mset (sq_ids (sq_insert i v now q)) = mset (i # sq_ids q)" by (simp add: sq_insert_ids)
  from distinct_mset_cong [OF this] show ?thesis
    using ok new by (auto simp: sq_ok_def sq_insert_def Let_def)
qed

definition release_at :: "u64 \<Rightarrow> u64 \<Rightarrow> u64" where
  "release_at v now = (if v \<le> now + HOT_DELAY_HORIZON_SEC then v else bucket_min v)"

lemma filter_undelete: "i \<notin> set xs \<Longrightarrow> filter (\<lambda>j. j \<notin> d - {i}) xs = filter (\<lambda>j. j \<notin> d) xs"
  by (intro filter_cong) auto

lemma sq_insert_live:
  assumes new: "i \<notin> set (sq_ids q)"
  shows "sq_live (sq_insert i v now q) = (if v \<le> now then sq_live q @ [i] else sq_live q)"
proof -
  have "i \<notin> set (ready q)" using new by (simp add: sq_ids_def)
  from filter_undelete [OF this, of "deleted q"] show ?thesis
    by (simp add: sq_live_def sq_insert_def Let_def)
qed

lemma sq_insert_wait:
  assumes new: "i \<notin> set (sq_ids q)"
  shows "sq_wait (sq_insert i v now q) =
    (if v \<le> now then sq_wait q else insert (i, release_at v now) (sq_wait q))"
proof -
  have nin: "i \<notin> fst ` set (sq_sched q)" using new by (simp add: sq_ids_def)
  have del: "deleted (sq_insert i v now q) = deleted q - {i}" by (simp add: sq_insert_def Let_def)
  have sch: "set (sq_sched (sq_insert i v now q)) =
      (if v \<le> now then set (sq_sched q) else insert (i, release_at v now) (set (sq_sched q)))"
    using arg_cong [OF bucket_sched_push [of v i "hot_delay_buckets q"], of set_mset]
    by (auto simp: sq_insert_def sq_sched_def far_sched_def release_at_def Let_def)
  show ?thesis unfolding sq_wait_def sch del using nin by (auto simp: image_iff split: if_splits)
qed

lemma pop_ready_ok: "sq_ok q \<Longrightarrow> pop_ready q = (res, q') \<Longrightarrow> sq_ok q'"
  and pop_ready_ids: "sq_ok q \<Longrightarrow> pop_ready q = (res, q') \<Longrightarrow> set (sq_ids q') \<subseteq> set (sq_ids q)"
proof -
  have pl: "pop_loop r d = (res, r', d') \<Longrightarrow> (\<exists>p. r = p @ r') \<and> d' \<subseteq> d" for r d res r' d'
  proof (induction r d arbitrary: res r' d' rule: pop_loop.induct)
    case (1 d)
    then show ?case by simp
  next
    case (2 i r d)
    show ?case
    proof (cases "i \<in> d")
      case True
      with 2 have "(\<exists>p. r = p @ r') \<and> d' \<subseteq> d - {i}" by simp
      then show ?thesis by (auto intro: exI [of _ "i # _"])
    next
      case False
      with 2 show ?thesis by (auto intro: exI [of _ "[i]"])
    qed
  qed
  assume ok: "sq_ok q" and pop: "pop_ready q = (res, q')"
  obtain o' r d where "pop_loop (ready q) (deleted q) = (o', r, d)"
    by (cases "pop_loop (ready q) (deleted q)") auto
  with pl [OF this] pop obtain p where "ready q = p @ ready q'"
    "deleted q' \<subseteq> deleted q" "sq_sched q' = sq_sched q" "hot_delay_buckets q' = hot_delay_buckets q"
    by (auto simp: pop_ready_def sq_sched_def split: option.splits)
  with ok show "sq_ok q'" "set (sq_ids q') \<subseteq> set (sq_ids q)"
    by (auto simp: sq_ok_def sq_ids_def intro: finite_subset)
qed

lemma pop_loop_live:
  "distinct r \<Longrightarrow> pop_loop r d = (res, r', d') \<Longrightarrow>
   (case filter (\<lambda>i. i \<notin> d) r of
      [] \<Rightarrow> res = None \<and> r' = []
    | x # xs \<Rightarrow> res = Some x \<and> filter (\<lambda>i. i \<notin> d') r' = xs \<and> (\<forall>j. j \<notin> set r \<longrightarrow> (j \<in> d' \<longleftrightarrow> j \<in> d)))"
proof (induction r d arbitrary: res r' d' rule: pop_loop.induct)
  case (1 d)
  then show ?case by simp
next
  case (2 i r d)
  show ?case
  proof (cases "i \<in> d")
    case True
    have "filter (\<lambda>j. j \<notin> d - {i}) r = filter (\<lambda>j. j \<notin> d) r"
      using 2(2) by (intro filter_undelete) simp
    with True 2 show ?thesis by (auto split: list.splits)
  next
    case False
    with 2 show ?thesis by auto
  qed
qed

lemma pop_ready_live:
  assumes ok: "sq_ok q" and pop: "pop_ready q = (res, q')"
  shows "case sq_live q of
      [] \<Rightarrow> res = None \<and> sq_live q' = []
    | x # xs \<Rightarrow> res = Some x \<and> sq_live q' = xs \<and> sq_wait q' = sq_wait q"
proof -
  obtain o' r d where pl: "pop_loop (ready q) (deleted q) = (o', r, d)"
    by (cases "pop_loop (ready q) (deleted q)") auto
  have dist: "distinct (ready q)" "set (ready q) \<inter> fst ` set (sq_sched q) = {}"
    using ok by (auto simp: sq_ok_def sq_ids_def)
  note l = pop_loop_live [OF dist(1) pl, folded sq_live_def]
  show ?thesis
  proof (cases "sq_live q")
    case Nil
    with l pl pop show ?thesis by (auto simp: pop_ready_def sq_live_def)
  next
    case (Cons x xs)
    with l have o': "o' = Some x" "filter (\<lambda>i. i \<notin> d) r = xs"
      and dd: "\<And>j. j \<notin> set (ready q) \<Longrightarrow> j \<in> d \<longleftrightarrow> j \<in> deleted q" by auto
    then have res: "res = Some x" and q': "q' = q\<lparr>ready := r, deleted := d\<rparr>"
      using pl pop by (auto simp: pop_ready_def)
    have "j \<in> d \<longleftrightarrow> j \<in> deleted q" if "(j, t) \<in> set (sq_sched q)" for j t
      using dd dist(2) that by (metis disjoint_iff fst_conv image_eqI)
    then have "sq_wait q' = sq_wait q"
      unfolding sq_wait_def q' by (auto simp: sq_sched_def)
    with Cons res o' show ?thesis by (simp add: sq_live_def q')
  qed
qed

lemma mark_deleted_ok:
  assumes ok: "sq_ok q"
  shows "sq_ok (mark_deleted i q)" and "sq_live (mark_deleted i q) = filter (\<lambda>j. j \<noteq> i) (sq_live q)"
    and "sq_wait (mark_deleted i q) = {(j, t) \<in> sq_wait q. j \<noteq> i}"
    and "set (sq_ids (mark_deleted i q)) \<subseteq> set (sq_ids q)"
proof -
  consider (front) r where "ready q = i # r"
    | (mark) "mark_deleted i q = q\<lparr>deleted := insert i (deleted q)\<rparr>"
    by (cases "ready q"; cases "hd (ready q) = i") (auto simp: mark_deleted_def)
  then have "sq_ok (mark_deleted i q) \<and> sq_live (mark_deleted i q) = filter (\<lambda>j. j \<noteq> i) (sq_live q) \<and>
    sq_wait (mark_deleted i q) = {(j, t) \<in> sq_wait q. j \<noteq> i} \<and>
    set (sq_ids (mark_deleted i q)) \<subseteq> set (sq_ids q)"
  proof cases
    case front
    then have eq: "mark_deleted i q = q\<lparr>ready := r\<rparr>" by (simp add: mark_deleted_def)
    have d: "i \<notin> set r" "i \<notin> fst ` set (sq_sched q)"
      using ok front by (auto simp: sq_ok_def sq_ids_def)
    have "filter (\<lambda>j. j \<noteq> i) (filter (\<lambda>j. j \<notin> deleted q) r) = filter (\<lambda>j. j \<notin> deleted q) r"
      using d(1) by (simp only: filter_id_conv) auto
    then have "sq_live (mark_deleted i q) = filter (\<lambda>j. j \<noteq> i) (sq_live q)"
      unfolding eq sq_live_def by (simp add: front del: filter_filter)
    moreover have "j \<noteq> i" if "(j, t) \<in> sq_wait q" for j t
      using that image_eqI [of j fst "(j, t)" "set (sq_sched q)"] d(2) by (auto simp: sq_wait_def)
    then have "{(j, t) \<in> sq_wait q. j \<noteq> i} = sq_wait q" by blast
    moreover have "sq_wait (mark_deleted i q) = sq_wait q" by (simp add: sq_wait_def sq_sched_def eq)
    moreover have "sq_ok (mark_deleted i q)" "set (sq_ids (mark_deleted i q)) \<subseteq> set (sq_ids q)"
      using ok front by (auto simp: eq sq_ok_def sq_ids_def sq_sched_def)
    ultimately show ?thesis by (simp only:)
  next
    case mark
    have "sq_ok (mark_deleted i q)" "sq_ids (mark_deleted i q) = sq_ids q"
      using ok by (simp_all add: mark sq_ok_def sq_ids_def sq_sched_def)
    moreover have "sq_live (mark_deleted i q) = filter (\<lambda>j. j \<noteq> i) (sq_live q)"
      by (auto simp: mark sq_live_def intro: filter_cong)
    moreover have "sq_wait (mark_deleted i q) = {(j, t) \<in> sq_wait q. j \<noteq> i}"
      by (auto simp: mark sq_wait_def sq_sched_def)
    ultimately show ?thesis by simp
  qed
  then show "sq_ok (mark_deleted i q)" "sq_live (mark_deleted i q) = filter (\<lambda>j. j \<noteq> i) (sq_live q)"
    "sq_wait (mark_deleted i q) = {(j, t) \<in> sq_wait q. j \<noteq> i}"
    "set (sq_ids (mark_deleted i q)) \<subseteq> set (sq_ids q)" by blast+
qed

subsection \<open>Which ids a queue holds\<close>

text \<open>How an operation changes the ids of a queue and its tombstones, told without order: \<open>sq_keeps q q' X\<close>
  says that no id and no tombstone appears from nowhere and that every id that is not a tombstone
  stays, except the ids in \<open>X\<close>, which leave.\<close>

definition sq_keeps :: "single_queue \<Rightarrow> single_queue \<Rightarrow> ulid set \<Rightarrow> bool" where
  "sq_keeps q q' X \<longleftrightarrow>
     set (sq_ids q') \<subseteq> set (sq_ids q) - X \<and> deleted q' \<subseteq> deleted q \<and>
     (\<forall>j \<in> set (sq_ids q). j \<notin> deleted q \<longrightarrow> j \<notin> X \<longrightarrow> j \<in> set (sq_ids q'))"

lemma sq_keeps_refl: "sq_keeps q q {}"
  by (simp add: sq_keeps_def)

lemma sq_keeps_trans:
  assumes "sq_keeps q q' X" "sq_keeps q' q'' Y"
  shows "sq_keeps q q'' (X \<union> Y)"
  using assms unfolding sq_keeps_def by blast

lemma sq_ids_present:
  "j \<in> set (sq_ids q) \<and> j \<notin> deleted q \<longleftrightarrow> j \<in> set (sq_live q) \<or> j \<in> fst ` sq_wait q"
  by (force simp: sq_ids_def sq_live_def sq_wait_def)

lemma drain_bucket_ids:
  assumes "sq_ok q"
  shows "set (sq_ids (drain_bucket k q)) \<subseteq> set (sq_ids q)" "deleted (drain_bucket k q) \<subseteq> deleted q"
proof -
  have "set (sq_ids (drain_bucket k q)) \<subseteq> set (sq_ids q) \<and> deleted (drain_bucket k q) \<subseteq> deleted q"
  proof (cases "hm_get (hot_delay_buckets q) k")
    case None
    then show ?thesis by (simp add: drain_bucket_def)
  next
    case (Some b)
    from assms have wf: "hm_wf (hot_delay_buckets q)" by (simp add: sq_ok_def)
    from sq_ids_bucket [OF assms Some] have "distinct b" by simp
    moreover have "set b \<subseteq> fst ` set (bucket_sched (hot_delay_buckets q))"
      using bucket_sched_mem [OF wf, of _ k] Some by (force simp: image_iff)
    moreover have "set (bucket_sched (hm_remove k (hot_delay_buckets q))) \<subseteq> set (bucket_sched (hot_delay_buckets q))"
      using arg_cong [OF bucket_sched_remove [OF wf, of k], of set_mset] by auto
    ultimately show ?thesis using Some
      by (auto simp: drain_bucket_def drain_ids_eq sq_ids_def sq_sched_def)
  qed
  then show "set (sq_ids (drain_bucket k q)) \<subseteq> set (sq_ids q)" "deleted (drain_bucket k q) \<subseteq> deleted q"
    by auto
qed

lemma drain_bucket_ok: "sq_ok q \<Longrightarrow> sq_ok (drain_bucket k q)"
  by (cases "hm_get (hot_delay_buckets q) k") (auto simp: drain_bucket_step(5), simp add: drain_bucket_def)

lemma fold_drain_ids:
  "sq_ok q \<Longrightarrow> set (sq_ids (fold drain_bucket ks q)) \<subseteq> set (sq_ids q) \<and>
     deleted (fold drain_bucket ks q) \<subseteq> deleted q"
proof (induction ks arbitrary: q)
  case Nil
  then show ?case by simp
next
  case (Cons k ks)
  from Cons.IH [OF drain_bucket_ok [OF Cons.prems, of k]] drain_bucket_ids [OF Cons.prems, of k]
  show ?case by auto
qed

lemma sq_ids_last_drained [simp]: "sq_ids (q\<lparr>last_drained_sec := t\<rparr>) = sq_ids q"
  by (simp add: sq_ids_def sq_sched_def)

lemma advance_ids:
  assumes "sq_ok q"
  shows "set (sq_ids (advance_and_drain ord now q)) \<subseteq> set (sq_ids q) \<and>
    deleted (advance_and_drain ord now q) \<subseteq> deleted q"
proof (cases "now < last_drained_sec q")
  case True
  then show ?thesis by (simp add: advance_and_drain_def)
next
  case False
  obtain m rm where pr: "promote (now + HOT_DELAY_HORIZON_SEC) (deleted q) (far_future q) (hot_delay_buckets q) = (m, rm)"
    by (metis prod.exhaust)
  note v = promote_view [OF assms pr]
  from v(4) have "set (sq_ids (q\<lparr>hot_delay_buckets := m, far_future := rm\<rparr>)) \<subseteq> set (sq_ids q)"
    by (auto simp: sq_ids_def)
  with fold_drain_ids [OF v(1), of "filter (\<lambda>sec. sec \<le> now) (ord (hm_keys m))"] False pr
  show ?thesis by (auto simp: advance_and_drain_def Let_def)
qed

lemma advance_keeps:
  assumes "sq_ok q" "iter_order ord" "unat now + 300 < 2 ^ 64"
  shows "sq_keeps q (advance_and_drain ord now q) {} \<and> sq_ok (advance_and_drain ord now q)"
proof (cases "now < last_drained_sec q")
  case True
  with assms show ?thesis by (simp add: advance_and_drain_def sq_keeps_refl)
next
  case False
  then have fwd: "last_drained_sec q \<le> now" by simp
  note a = advance_spec [OF assms(1,2) fwd assms(3)]
  let ?q = "advance_and_drain ord now q"
  obtain xs where l: "sq_live ?q = sq_live q @ xs" "set xs = {i. \<exists>t. (i, t) \<in> sq_wait q \<and> t \<le> now}"
    using a(1) by blast
  have "j \<in> set (sq_ids ?q)" if "j \<in> set (sq_ids q)" "j \<notin> deleted q" for j
  proof -
    from that have "j \<in> set (sq_live q) \<or> (\<exists>t. (j, t) \<in> sq_wait q)"
      using sq_ids_present [of j q] by force
    then have "j \<in> set (sq_live ?q) \<or> (\<exists>t. (j, t) \<in> sq_wait ?q)"
      unfolding a(2) l(1) set_append l(2) by force
    then have "j \<in> set (sq_live ?q) \<or> j \<in> fst ` sq_wait ?q" by force
    then show ?thesis using sq_ids_present [of j ?q] by blast
  qed
  with advance_ids [OF assms(1), of ord now] a(3) show ?thesis by (simp add: sq_keeps_def)
qed

lemma pop_ready_keeps:
  assumes "sq_ok q" "pop_ready q = (res, q')"
  shows "sq_keeps q q' (set_option res)" "\<forall>i \<in> set_option res. i \<in> set (sq_ids q) \<and> i \<notin> deleted q"
proof -
  obtain r d where pl: "pop_loop (ready q) (deleted q) = (res, r, d)"
    and q': "q' = q\<lparr>ready := r, deleted := d\<rparr> \<or> (res = None \<and> q' = q\<lparr>ready := r, deleted := {}\<rparr>)"
    using assms(2) by (auto simp: pop_ready_def split: prod.splits option.splits if_splits)
  from assms(1) have dr: "distinct (ready q)" and dis: "distinct (ready q @ map fst (sq_sched q))"
    by (simp_all add: sq_ok_def sq_ids_def)
  have s: "sq_sched q' = sq_sched q" using q' by (auto simp: sq_sched_def)
  have "sq_keeps q q' (set_option res) \<and> (\<forall>i \<in> set_option res. i \<in> set (sq_ids q) \<and> i \<notin> deleted q)"
  proof (cases "filter (\<lambda>i. i \<notin> deleted q) (ready q)")
    case Nil
    with pl pop_loop_eq [OF dr, of "deleted q"] have "res = None" "r = []" "d \<subseteq> deleted q" by auto
    moreover from Nil have "\<forall>i \<in> set (ready q). i \<in> deleted q" by (simp add: filter_empty_conv)
    ultimately show ?thesis using q' s by (auto simp: sq_keeps_def sq_ids_def)
  next
    case (Cons x xs)
    from filter_eq_ConsD [OF Cons] obtain us ys where
      rq: "ready q = us @ x # ys" and tomb: "\<forall>i \<in> set us. i \<in> deleted q" and x: "x \<notin> deleted q" by blast
    then have dw: "dropWhile (\<lambda>i. i \<in> deleted q) (ready q) = x # ys" by simp
    with Cons pl pop_loop_eq [OF dr, of "deleted q"]
    have res: "res = Some x" "r = tl (dropWhile (\<lambda>i. i \<in> deleted q) (ready q))" "d \<subseteq> deleted q" by auto
    from dis rq have xn: "x \<notin> set us" "x \<notin> set ys" "x \<notin> fst ` set (sq_sched q)" by auto
    have "r = ys" using res dw by simp
    with res x xn tomb q' s rq show ?thesis
      unfolding sq_keeps_def sq_ids_def by (auto simp: res)
  qed
  then show "sq_keeps q q' (set_option res)" "\<forall>i \<in> set_option res. i \<in> set (sq_ids q) \<and> i \<notin> deleted q"
    by auto
qed

lemma claim_ready_keeps:
  "sq_ok q \<Longrightarrow> claim_ready n q = (is, q') \<Longrightarrow>
   sq_keeps q q' (set is) \<and> sq_ok q' \<and> distinct is \<and> (\<forall>i \<in> set is. i \<in> set (sq_ids q))"
proof (induction n arbitrary: q "is" q')
  case 0
  then show ?case by (simp add: sq_keeps_refl)
next
  case (Suc n)
  obtain res q1 where pop: "pop_ready q = (res, q1)" by (cases "pop_ready q")
  note k = pop_ready_keeps [OF Suc.prems(1) pop] and ok = pop_ready_ok [OF Suc.prems(1) pop]
  show ?case
  proof (cases res)
    case None
    with Suc.prems(2) pop k(1) ok show ?thesis by simp
  next
    case (Some i)
    obtain js where c: "claim_ready n q1 = (js, q')" "is = i # js"
      using Suc.prems(2) pop Some by (auto split: prod.splits)
    note IH = Suc.IH [OF ok c(1)]
    from k Some have k1: "sq_keeps q q1 {i}" "i \<in> set (sq_ids q)" by simp_all
    from k1 IH have "sq_keeps q q' ({i} \<union> set js)" by (blast intro: sq_keeps_trans)
    moreover have "\<forall>j \<in> set js. j \<noteq> i \<and> j \<in> set (sq_ids q)" using IH k1(1) by (auto simp: sq_keeps_def)
    ultimately show ?thesis using IH k1 c(2) by auto
  qed
qed

lemma set_sq_insert_ids: "set (sq_ids (sq_insert i v now q)) = insert i (set (sq_ids q))"
  using arg_cong [OF sq_insert_ids, of set_mset i v now q] by simp

lemma sq_insert_deleted [simp]: "deleted (sq_insert i v now q) = deleted q - {i}"
  by (simp add: sq_insert_def Let_def)

lemma mark_deleted_other:
  assumes "j \<noteq> i"
  shows "j \<in> set (sq_ids (mark_deleted i q)) \<longleftrightarrow> j \<in> set (sq_ids q)"
    "j \<in> deleted (mark_deleted i q) \<longleftrightarrow> j \<in> deleted q"
  using assms by (auto simp: mark_deleted_def sq_ids_def sq_sched_def split: list.splits)

section \<open>The contract of a delay queue\<close>

text \<open>
  What the engine relies on: due ids are handed out first in, first out; an advance releases
  exactly the ids whose release second has come and appends them; a deletion removes one id from
  both views. \<open>claim\<close> is iterated \<open>pop\<close>.
\<close>

locale delay_queue =
  fixes ok :: "'q \<Rightarrow> bool" and live :: "'q \<Rightarrow> ulid list" and wait :: "'q \<Rightarrow> (ulid \<times> u64) set"
    and ids :: "'q \<Rightarrow> ulid set" and drained :: "'q \<Rightarrow> u64"
    and ins :: "ulid \<Rightarrow> u64 \<Rightarrow> u64 \<Rightarrow> 'q \<Rightarrow> 'q" and rel :: "u64 \<Rightarrow> u64 \<Rightarrow> u64"
    and adv :: "u64 \<Rightarrow> 'q \<Rightarrow> 'q" and pop :: "'q \<Rightarrow> ulid option \<times> 'q"
    and claim :: "nat \<Rightarrow> 'q \<Rightarrow> ulid list \<times> 'q"
  assumes live_ids: "set (live q) \<subseteq> ids q"
    and ins_ok: "ok q \<Longrightarrow> i \<notin> ids q \<Longrightarrow> ok (ins i v now q)"
    and ins_live: "ok q \<Longrightarrow> i \<notin> ids q \<Longrightarrow> live (ins i v now q) = (if v \<le> now then live q @ [i] else live q)"
    and ins_wait: "ok q \<Longrightarrow> i \<notin> ids q \<Longrightarrow>
      wait (ins i v now q) = (if v \<le> now then wait q else insert (i, rel v now) (wait q))"
    and ins_drained: "drained (ins i v now q) = drained q"
    and wait_ids: "(i, t) \<in> wait q \<Longrightarrow> i \<in> ids q"
    and adv_live: "ok q \<Longrightarrow> drained q \<le> now \<Longrightarrow> unat now + 300 < 2 ^ 64 \<Longrightarrow>
      \<exists>xs. live (adv now q) = live q @ xs \<and> set xs = {i. \<exists>t. (i, t) \<in> wait q \<and> t \<le> now}"
    and adv_ok: "ok q \<Longrightarrow> drained q \<le> now \<Longrightarrow> unat now + 300 < 2 ^ 64 \<Longrightarrow> ok (adv now q)"
    and pop_ok: "ok q \<Longrightarrow> pop q = (r, q') \<Longrightarrow> ok q'"
    and pop_live: "ok q \<Longrightarrow> pop q = (r, q') \<Longrightarrow>
      (case live q of [] \<Rightarrow> r = None \<and> live q' = [] | x # xs \<Rightarrow> r = Some x \<and> live q' = xs)"
    and claim_0: "claim 0 q = ([], q)"
    and claim_Suc: "claim (Suc n) q =
      (case pop q of
         (Some i, q1) \<Rightarrow> (let (is, q2) = claim n q1 in (i # is, q2))
       | (None, q1) \<Rightarrow> ([], q1))"
begin

lemma claim_take:
  "ok q \<Longrightarrow> claim n q = (is, q') \<Longrightarrow> is = take n (live q) \<and> live q' = drop n (live q) \<and> ok q'"
proof (induction n arbitrary: q "is" q')
  case 0
  then show ?case by (simp add: claim_0)
next
  case (Suc n)
  obtain r q1 where pop: "pop q = (r, q1)" by (cases "pop q")
  note ok1 = pop_ok [OF Suc.prems(1) pop] and l = pop_live [OF Suc.prems(1) pop]
  show ?case
  proof (cases "live q")
    case Nil
    with l pop ok1 Suc.prems(2) show ?thesis by (simp add: claim_Suc)
  next
    case (Cons x xs)
    obtain is2 q2 where c: "claim n q1 = (is2, q2)" by (cases "claim n q1")
    from Suc.IH [OF ok1 c] l Cons pop c Suc.prems(2) show ?thesis by (simp add: claim_Suc)
  qed
qed

text \<open>A delayed id is not handed out by an advance before its release second, and is by one at or
  after it.\<close>

lemma release_exact:
  assumes q: "ok q" "i \<notin> ids q" "now < v"
    and t: "drained q \<le> t" "unat t + 300 < 2 ^ 64"
  shows "i \<in> set (live (adv t (ins i v now q))) \<longleftrightarrow> rel v now \<le> t"
proof -
  let ?q = "ins i v now q"
  have ok': "ok ?q" and w: "wait ?q = insert (i, rel v now) (wait q)" and l: "live ?q = live q"
    using q ins_ok ins_wait ins_live by auto
  obtain xs where xs: "live (adv t ?q) = live q @ xs" "set xs = {j. \<exists>s. (j, s) \<in> wait ?q \<and> s \<le> t}"
    using adv_live [OF ok' _ t(2)] t(1) l ins_drained by auto
  have "i \<notin> set (live q)" "\<And>s. (i, s) \<notin> wait q" using q(2) live_ids wait_ids by blast+
  then show ?thesis using xs w by auto
qed

end

lemma advance_and_drain_drained: "last_drained_sec (sq_insert i v now q) = last_drained_sec q"
  by (simp add: sq_insert_def Let_def)

lemma sq_wait_ids: "(i, t) \<in> sq_wait q \<Longrightarrow> i \<in> set (sq_ids q)"
  by (force simp: sq_wait_def sq_ids_def)

interpretation sq: delay_queue "\<lambda>q. iter_order ord \<and> sq_ok q" sq_live sq_wait "\<lambda>q. set (sq_ids q)"
    last_drained_sec sq_insert release_at "advance_and_drain ord" pop_ready claim_ready
  for ord
proof (unfold_locales, goal_cases)
  case (1 q)
  show ?case by (auto simp: sq_live_def sq_ids_def)
next
  case (2 q i v now)
  then show ?case by (simp add: sq_insert_ok)
next
  case (3 q i v now)
  then show ?case by (intro sq_insert_live)
next
  case (4 q i v now)
  then show ?case by (intro sq_insert_wait)
next
  case (5 i v now q)
  show ?case by (rule advance_and_drain_drained)
next
  case (6 i t q)
  then show ?case by (rule sq_wait_ids)
next
  case (7 q now)
  then show ?case using advance_spec(1) by blast
next
  case (8 q now)
  then show ?case using advance_spec(3) by blast
next
  case (9 q r q')
  then show ?case using pop_ready_ok by blast
next
  case (10 q r q')
  then have "sq_ok q" by simp
  from pop_ready_live [OF this 10(2)] show ?case by (auto split: list.splits)
next
  case (11 q)
  show ?case by simp
next
  case (12 n q)
  show ?case by simp
qed

section \<open>Properties\<close>

text \<open>The claim loop of \<open>poll\<close> hands out the deliverable ids in FIFO order: claiming
  \<open>n\<close> ids returns the first \<open>n\<close> ids of the ready queue that are not tombstoned and leaves
  the rest in order.\<close>

theorem claim_fifo:
  assumes "sq_ok q"
  shows "fst (claim_ready n q) = take n (sq_live q) \<and>
    sq_live (snd (claim_ready n q)) = drop n (sq_live q) \<and> sq_ok (snd (claim_ready n q))"
  using sq.claim_take [OF conjI [OF iter_order_id assms] prod.collapse [symmetric]] by blast

theorem claim_fifo_witness:
  "fst (claim_ready 2 \<lparr>ready = [1, 2, 3], hot_delay_buckets = [], far_future = [], deleted = {1},
      last_drained_sec = 0\<rparr>) = [2, 3]"
proof -
  let ?q = "\<lparr>ready = [1, 2, 3], hot_delay_buckets = [], far_future = [], deleted = {1}, last_drained_sec = 0\<rparr>"
  have "sq_ok ?q" by (simp add: sq_ok_def sq_ids_def sq_sched_def far_sched_def)
  from claim_fifo [OF this, of 2] show ?thesis by (simp add: sq_live_def)
qed

text \<open>C34 Advancing the clock releases exactly the due ids: whatever order the hash
  map iterates in, \<open>advance_and_drain\<close> appends to the deliverable ids, after those already
  deliverable, exactly the held-back ids whose release second has come, keeps the others held
  back, and preserves the queue's invariant.\<close>

theorem advance_releases_due:
  assumes "sq_ok q" and "iter_order ord" and "last_drained_sec q \<le> now" and "unat now + 300 < 2 ^ 64"
  shows "(\<exists>xs. sq_live (advance_and_drain ord now q) = sq_live q @ xs \<and>
        set xs = {i. \<exists>t. (i, t) \<in> sq_wait q \<and> t \<le> now}) \<and>
    sq_wait (advance_and_drain ord now q) = {(i, t) \<in> sq_wait q. now < t} \<and>
    sq_ok (advance_and_drain ord now q)"
  using advance_spec [OF assms] by blast

theorem advance_releases_due_witness:
  "(9, 100) \<in> sq_wait (sq_insert 9 100 50 (sq_new 50)) \<and>
   9 \<in> set (sq_live (advance_and_drain rev 100 (sq_insert 9 100 50 (sq_new 50))))"
proof -
  let ?q = "sq_insert 9 100 50 (sq_new 50)"
  have ids: "9 \<notin> set (sq_ids (sq_new 50))" by (simp add: sq_ids_def sq_new_def sq_sched_def far_sched_def)
  have ok: "sq_ok ?q" using sq_insert_ok [OF sq_new_ok(1) ids] .
  have ord: "iter_order (rev :: u64 list \<Rightarrow> u64 list)" by (simp add: iter_order_def)
  have w: "sq_wait ?q = {(9, 100)}" "sq_live ?q = []"
    using ids by (simp_all add: sq_insert_wait sq_insert_live sq_new_ok release_at_def HOT_DELAY_HORIZON_SEC_def)
  have "last_drained_sec ?q \<le> 100" by (simp add: sq_insert_def sq_new_def Let_def)
  from advance_releases_due [OF ok ord this] obtain xs
    where "sq_live (advance_and_drain rev 100 ?q) = sq_live ?q @ xs" "set xs = {9}"
    by (auto simp: w)
  with w show ?thesis by simp
qed

text \<open>A message delayed by at most the hot horizon (300 seconds) is never delivered
  early and never held back once due: whenever the queue is next advanced, it is deliverable
  if and only if its \<open>visible_at\<close> second has come.\<close>

theorem hot_delay_exact:
  assumes "sq_ok q" and "i \<notin> set (sq_ids q)" and "iter_order ord"
    and "now < v" and "v \<le> now + HOT_DELAY_HORIZON_SEC"
    and "last_drained_sec q \<le> t" and "unat t + 300 < 2 ^ 64"
  shows "i \<in> set (sq_live (advance_and_drain ord t (sq_insert i v now q))) \<longleftrightarrow> v \<le> t"
  using sq.release_exact [OF conjI [OF assms(3,1)] assms(2,4,6,7)] assms(5)
  by (simp add: release_at_def)

theorem hot_delay_exact_witness:
  "9 \<notin> set (sq_live (advance_and_drain rev 99 (sq_insert 9 100 50 (sq_new 50)))) \<and>
   9 \<in> set (sq_live (advance_and_drain rev 100 (sq_insert 9 100 50 (sq_new 50))))"
  using hot_delay_exact [of "sq_new 50" 9 rev 50 100 99] hot_delay_exact [of "sq_new 50" 9 rev 50 100 100]
  by (simp add: sq_new_ok sq_ids_def sq_sched_def far_sched_def iter_order_def HOT_DELAY_HORIZON_SEC_def)
     (simp add: sq_new_def far_sched_def)

text \<open>C35 A message beyond the horizon goes through a minute bucket: it is never late,
  and never more than 59 seconds early. Advancing at \<open>t\<close> makes it deliverable whenever
  \<open>visible_at \<le> t\<close>, and never while \<open>visible_at\<close> is at least a minute away.\<close>

theorem far_future_window:
  assumes "sq_ok q" and "i \<notin> set (sq_ids q)" and "iter_order ord"
    and "now < v" and "\<not> v \<le> now + HOT_DELAY_HORIZON_SEC"
    and "last_drained_sec q \<le> t" and "unat t + 300 < 2 ^ 64"
  shows "(v \<le> t \<longrightarrow> i \<in> set (sq_live (advance_and_drain ord t (sq_insert i v now q)))) \<and>
    (unat t + 60 \<le> unat v \<longrightarrow> i \<notin> set (sq_live (advance_and_drain ord t (sq_insert i v now q))))"
proof -
  have "i \<in> set (sq_live (advance_and_drain ord t (sq_insert i v now q))) \<longleftrightarrow> bucket_min v \<le> t"
    using sq.release_exact [OF conjI [OF assms(3,1)] assms(2,4,6,7)] assms(5)
    by (simp add: release_at_def)
  then show ?thesis
    using bucket_min_le [of v] bucket_min_early [of v] by (auto simp: word_le_nat_alt)
qed

theorem far_future_window_witness:
  "9 \<in> set (sq_live (advance_and_drain rev 1019 (sq_insert 9 1019 100 (sq_new 50)))) \<and>
   9 \<notin> set (sq_live (advance_and_drain rev 959 (sq_insert 9 1019 100 (sq_new 50))))"
  using far_future_window [of "sq_new 50" 9 rev 100 1019 1019] far_future_window [of "sq_new 50" 9 rev 100 1019 959]
  by (simp add: sq_new_ok sq_ids_def sq_sched_def far_sched_def iter_order_def HOT_DELAY_HORIZON_SEC_def)
     (simp add: sq_new_def far_sched_def)

text \<open>The far-future path really does deliver early: a message that must stay invisible
  until second 1019 is deliverable at second 960, 59 seconds too soon.\<close>

theorem far_future_early:
  assumes "iter_order ord"
  shows "sq_live (advance_and_drain ord 960 (sq_insert 9 1019 100 (sq_new 100))) = [9]"
proof -
  have "mset (ord [960]) = {#960#}" using assms by (simp add: iter_order_def)
  then have "ord [960] = [960]" by (simp add: mset_single_iff)
  then show ?thesis
    by (simp add: advance_and_drain_def sq_insert_def sq_new_def HOT_DELAY_HORIZON_SEC_def Let_def
        bucket_push_def bucket_min_def drain_bucket_def sq_live_def)
qed

theorem far_future_early_witness:
  "sq_live (advance_and_drain rev 960 (sq_insert 9 1019 100 (sq_new 100))) = [9]"
  by (rule far_future_early) (simp add: iter_order_def)

text \<open>A deletion can be forgotten: after a delayed id is deleted, one empty poll
  clears the tombstones, and the id is handed out once its second comes.\<close>

theorem tombstone_forgotten:
  "let q1 = mark_deleted 9 (sq_insert 9 100 50 (sq_new 50));
       q2 = snd (pop_ready q1)
   in fst (pop_ready (advance_and_drain (\<lambda>ks. ks) 100 q1)) = None \<and>
      fst (pop_ready q1) = None \<and>
      fst (pop_ready (advance_and_drain (\<lambda>ks. ks) 100 q2)) = Some 9"
  by (simp add: advance_and_drain_def sq_insert_def sq_new_def HOT_DELAY_HORIZON_SEC_def Let_def
      bucket_push_def drain_bucket_def mark_deleted_def pop_ready_def)

end
