(* ===== verification/Timer_Wheel.thy ===== *)
theory Timer_Wheel
  imports Walr_Prelude
begin

text \<open>
  The visibility leases of \<open>walrq/src/engine/timer_wheel.rs\<close>: a wheel of one-second slots of
  in-flight items with an index from message id to slot and receipt. The definitions follow the
  source operation by operation. The abstraction of a wheel is the map from message id to the
  lease it holds; the locale \<open>lease_table\<close> states what the engine relies on in terms of that map,
  and its interpretation proves it of the wheel, including that the targeted sweep of the elapsed
  slots collects exactly what a scan of every lease would.
\<close>

section \<open>Model\<close>

record in_flight_item =
  if_id :: uuid
  if_queue :: string
  if_receipt :: string
  if_expire_at :: u64

record timer_wheel =
  slots :: "in_flight_item list list"
  tw_size :: nat
  index_by_id :: "(uuid, nat \<times> string) hmap"
  last_checked_sec :: u64

definition tw_new :: "nat \<Rightarrow> timer_wheel" where
  "tw_new capacity_secs =
     (let size = max capacity_secs 60
      in \<lparr>slots = replicate size [], tw_size = size, index_by_id = [], last_checked_sec = 0\<rparr>)"

definition tw_insert :: "in_flight_item \<Rightarrow> timer_wheel \<Rightarrow> timer_wheel" where
  "tw_insert item w =
     (let slot = unat (if_expire_at item) mod tw_size w
      in w\<lparr>index_by_id := hm_insert (if_id item) (slot, if_receipt item) (index_by_id w),
           slots := (slots w)[slot := slots w ! slot @ [item]]\<rparr>)"

definition remove_if_valid :: "uuid \<Rightarrow> string \<Rightarrow> timer_wheel \<Rightarrow> bool \<times> timer_wheel" where
  "remove_if_valid i receipt w =
     (case hm_get (index_by_id w) i of
        Some (slot, valid_receipt) \<Rightarrow>
          if valid_receipt = receipt then
            (let w1 = w\<lparr>index_by_id := hm_remove i (index_by_id w)\<rparr> in
             case position (\<lambda>it. if_id it = i) (slots w1 ! slot) of
               Some pos \<Rightarrow>
                 (True, w1\<lparr>slots := (slots w1)[slot := swap_remove (slots w1 ! slot) pos]\<rparr>)
             | None \<Rightarrow> (True, w1))
          else (False, w)
      | None \<Rightarrow> (False, w))"

text \<open>The body shared by both sweeps: one slot is drained into expired and remaining items, and
  the expired ones leave the index.\<close>

fun sweep_slot :: "u64 \<Rightarrow> in_flight_item list \<Rightarrow> (uuid, nat \<times> string) hmap \<Rightarrow>
    in_flight_item list \<times> in_flight_item list \<times> (uuid, nat \<times> string) hmap" where
  "sweep_slot now [] ix = ([], [], ix)"
| "sweep_slot now (item # items) ix =
     (if if_expire_at item \<le> now then
        (let (expired, remaining, ix') = sweep_slot now items (hm_remove (if_id item) ix)
         in (item # expired, remaining, ix'))
      else
        (let (expired, remaining, ix') = sweep_slot now items ix
         in (expired, item # remaining, ix')))"

definition sweep_at :: "u64 \<Rightarrow> nat \<Rightarrow> in_flight_item list \<times> timer_wheel \<Rightarrow>
    in_flight_item list \<times> timer_wheel" where
  "sweep_at now slot_idx s =
     (let (expired, w) = s;
          (ex, remaining, ix) = sweep_slot now (slots w ! slot_idx) (index_by_id w)
      in (expired @ ex,
          w\<lparr>slots := (slots w)[slot_idx := remaining], index_by_id := ix\<rparr>))"

text \<open>The slots a check visits: the ticks after the last check up to now, or every slot when the
  wheel has gone round.\<close>

definition slots_to_visit :: "u64 \<Rightarrow> u64 \<Rightarrow> timer_wheel \<Rightarrow> nat list" where
  "slots_to_visit now_sec last_sec w =
     (let elapsed_ticks = min (unat (sat_sub now_sec last_sec)) (tw_size w) in
      if elapsed_ticks \<ge> tw_size w then [0..<length (slots w)]
      else map (\<lambda>t. unat (last_sec + of_nat t) mod tw_size w) [1..<Suc elapsed_ticks])"

definition collect_expired :: "u64 \<Rightarrow> timer_wheel \<Rightarrow> in_flight_item list \<times> timer_wheel" where
  "collect_expired now_sec w =
     (if index_by_id w = [] then ([], w\<lparr>last_checked_sec := now_sec\<rparr>)
      else
        let last = (if last_checked_sec w = 0 then sat_sub now_sec 1 else last_checked_sec w);
            (expired, w') = fold (sweep_at now_sec) (slots_to_visit now_sec last w) ([], w)
        in (expired, w'\<lparr>last_checked_sec := now_sec\<rparr>))"

section \<open>Abstraction and invariant\<close>

definition slot_of :: "timer_wheel \<Rightarrow> in_flight_item \<Rightarrow> nat" where
  "slot_of w it = unat (if_expire_at it) mod tw_size w"

definition tw_items :: "timer_wheel \<Rightarrow> in_flight_item multiset" where
  "tw_items w = mset (concat (slots w))"

definition tw_leases :: "timer_wheel \<Rightarrow> uuid \<rightharpoonup> in_flight_item" where
  "tw_leases w = map_of (map (\<lambda>it. (if_id it, it)) (concat (slots w)))"

definition slots_ok :: "timer_wheel \<Rightarrow> bool" where
  "slots_ok w \<longleftrightarrow> 0 < tw_size w \<and> length (slots w) = tw_size w \<and>
     (\<forall>i < tw_size w. \<forall>it \<in> set (slots w ! i). slot_of w it = i)"

definition wheel_ok :: "timer_wheel \<Rightarrow> bool" where
  "wheel_ok w \<longleftrightarrow> slots_ok w \<and> distinct (map if_id (concat (slots w))) \<and> hm_wf (index_by_id w) \<and>
     (\<forall>k. hm_get (index_by_id w) k =
        map_option (\<lambda>it. (slot_of w it, if_receipt it)) (tw_leases w k))"

text \<open>Every lease still in the wheel expires after the second the wheel was last checked.\<close>

definition wheel_fresh :: "timer_wheel \<Rightarrow> bool" where
  "wheel_fresh w \<longleftrightarrow>
     (\<forall>it \<in># tw_items w. last_checked_sec w < if_expire_at it) \<and>
     (tw_items w \<noteq> {#} \<longrightarrow> last_checked_sec w \<noteq> 0)"

section \<open>Lemmas\<close>

lemma mset_concat_update:
  "i < length xss \<Longrightarrow> mset (concat (xss[i := ys])) + mset (xss ! i) = mset (concat xss) + mset ys"
proof (induction xss arbitrary: i)
  case Nil
  then show ?case by simp
next
  case (Cons xs xss)
  show ?case
  proof (cases i)
    case 0
    then show ?thesis by simp
  next
    case (Suc j)
    with Cons.prems have "j < length xss" by simp
    from Cons.IH [OF this] Suc show ?thesis by (simp add: add.assoc)
  qed
qed

lemma nth_subset_concat: "i < length xss \<Longrightarrow> x \<in> set (xss ! i) \<Longrightarrow> x \<in> set (concat xss)"
  using nth_mem by fastforce

lemma tw_leases_Some:
  "distinct (map if_id (concat (slots w))) \<Longrightarrow>
   tw_leases w k = Some it \<longleftrightarrow> it \<in># tw_items w \<and> if_id it = k"
  by (auto simp: tw_leases_def tw_items_def comp_def map_of_eq_Some_iff)

lemma tw_leases_None: "tw_leases w k = None \<longleftrightarrow> (\<forall>it \<in># tw_items w. if_id it \<noteq> k)"
proof -
  have "fst ` set (map (\<lambda>it. (if_id it, it)) (concat (slots w))) = if_id ` set_mset (tw_items w)"
    by (simp add: tw_items_def image_image)
  then show ?thesis
    unfolding tw_leases_def map_of_eq_None_iff by auto
qed

lemma distinct_ids_mset:
  "mset (concat (slots w)) = mset xs \<Longrightarrow>
   distinct (map if_id (concat (slots w))) \<longleftrightarrow> distinct (map if_id xs)"
  by (metis mset_eq_imp_distinct_iff mset_map)

lemma wheel_ok_index:
  assumes "distinct (map if_id (concat (slots w)))"
  shows "(\<forall>k. hm_get (index_by_id w) k =
            map_option (\<lambda>it. (slot_of w it, if_receipt it)) (tw_leases w k)) \<longleftrightarrow>
         (\<forall>k s r. hm_get (index_by_id w) k = Some (s, r) \<longleftrightarrow>
            (\<exists>it \<in># tw_items w. if_id it = k \<and> if_receipt it = r \<and> slot_of w it = s))"
    (is "?L \<longleftrightarrow> ?R")
proof
  assume ?L
  then show ?R
    using assms by (auto simp: tw_leases_Some)
next
  assume R: ?R
  show ?L
  proof
    fix k
    show "hm_get (index_by_id w) k =
       map_option (\<lambda>it. (slot_of w it, if_receipt it)) (tw_leases w k)"
    proof (cases "tw_leases w k")
      case None
      then have "hm_get (index_by_id w) k \<noteq> Some (s, r)" for s r
        using R by (auto simp: tw_leases_None)
      then have "hm_get (index_by_id w) k = None"
        by (cases "hm_get (index_by_id w) k") auto
      with None show ?thesis by simp
    next
      case (Some it)
      then have "it \<in># tw_items w" "if_id it = k" using assms by (auto simp: tw_leases_Some)
      then have "hm_get (index_by_id w) k = Some (slot_of w it, if_receipt it)"
        using R by blast
      with Some show ?thesis by simp
    qed
  qed
qed

lemma wheel_ok_alt:
  "wheel_ok w \<longleftrightarrow> slots_ok w \<and> distinct (map if_id (concat (slots w))) \<and> hm_wf (index_by_id w) \<and>
     (\<forall>k s r. hm_get (index_by_id w) k = Some (s, r) \<longleftrightarrow>
        (\<exists>it \<in># tw_items w. if_id it = k \<and> if_receipt it = r \<and> slot_of w it = s))"
  unfolding wheel_ok_def using wheel_ok_index by blast

lemma wheel_ok_unique:
  "wheel_ok w \<Longrightarrow> a \<in># tw_items w \<Longrightarrow> b \<in># tw_items w \<Longrightarrow> if_id a = if_id b \<Longrightarrow> a = b"
  by (metis option.inject tw_leases_Some wheel_ok_def)

lemma item_slot:
  assumes ok: "slots_ok w"
  shows "it \<in># tw_items w \<longleftrightarrow> it \<in> set (slots w ! slot_of w it)"
proof
  assume "it \<in># tw_items w"
  then obtain xs where "xs \<in> set (slots w)" "it \<in> set xs" by (auto simp: tw_items_def)
  then obtain i where "i < length (slots w)" "it \<in> set (slots w ! i)"
    by (auto simp: in_set_conv_nth [of xs])
  with ok show "it \<in> set (slots w ! slot_of w it)" by (auto simp: slots_ok_def)
next
  assume "it \<in> set (slots w ! slot_of w it)"
  moreover have "slot_of w it < length (slots w)" using ok by (simp add: slots_ok_def slot_of_def)
  ultimately show "it \<in># tw_items w" using nth_subset_concat by (fastforce simp: tw_items_def)
qed

subsection \<open>A new wheel\<close>

lemma tw_new_ok: "wheel_ok (tw_new n) \<and> wheel_fresh (tw_new n) \<and> tw_leases (tw_new n) = Map.empty"
proof -
  have c: "concat (slots (tw_new n)) = []" by (simp add: tw_new_def Let_def)
  then have "slots_ok (tw_new n)"
    by (simp add: slots_ok_def tw_new_def Let_def)
  with c show ?thesis
    by (simp add: wheel_ok_def wheel_fresh_def tw_items_def tw_leases_def tw_new_def Let_def)
qed

subsection \<open>Insertion\<close>

lemma tw_insert_items:
  "slots_ok w \<Longrightarrow> tw_items (tw_insert item w) = add_mset item (tw_items w)"
  unfolding tw_items_def tw_insert_def Let_def slots_ok_def
  using mset_concat_update [of "unat (if_expire_at item) mod tw_size w" "slots w"
      "slots w ! (unat (if_expire_at item) mod tw_size w) @ [item]"]
  by simp

lemma tw_insert_slots_ok: "slots_ok w \<Longrightarrow> slots_ok (tw_insert item w)"
  unfolding slots_ok_def tw_insert_def Let_def slot_of_def
  by (auto simp: nth_list_update)

lemma tw_insert_ok:
  assumes ok: "wheel_ok w" and new: "tw_leases w (if_id item) = None"
  shows "wheel_ok (tw_insert item w)"
proof -
  let ?w = "tw_insert item w"
  from ok have sl: "slots_ok w" by (simp add: wheel_ok_def)
  note it = tw_insert_items [OF sl, of item]
  then have m: "mset (concat (slots ?w)) = mset (item # concat (slots w))"
    by (simp add: tw_items_def)
  have nin: "if_id item \<notin> if_id ` set_mset (tw_items w)"
    using new by (auto simp: tw_leases_None)
  then have dist: "distinct (map if_id (concat (slots ?w)))"
    unfolding distinct_ids_mset [OF m] using ok by (auto simp: wheel_ok_def tw_items_def)
  have so: "slot_of ?w = slot_of w" by (rule ext) (simp add: slot_of_def tw_insert_def Let_def)
  have ix: "hm_get (index_by_id ?w) k =
      (if k = if_id item then Some (slot_of w item, if_receipt item) else hm_get (index_by_id w) k)" for k
    by (simp add: tw_insert_def Let_def slot_of_def)
  have "hm_get (index_by_id ?w) k = Some (s, r) \<longleftrightarrow>
      (\<exists>x \<in># tw_items ?w. if_id x = k \<and> if_receipt x = r \<and> slot_of ?w x = s)" for k s r
    unfolding ix it so using ok nin by (auto simp: wheel_ok_alt image_iff)
  moreover have "hm_wf (index_by_id ?w)"
    using ok by (simp add: tw_insert_def Let_def wheel_ok_def)
  ultimately show ?thesis
    unfolding wheel_ok_alt using tw_insert_slots_ok [OF sl] dist by blast
qed

lemma tw_insert_leases:
  assumes ok: "wheel_ok w" and new: "tw_leases w (if_id item) = None"
  shows "tw_leases (tw_insert item w) = (tw_leases w)(if_id item \<mapsto> item)"
proof (rule ext)
  fix k
  let ?w = "tw_insert item w"
  have d: "distinct (map if_id (concat (slots ?w)))" "distinct (map if_id (concat (slots w)))"
    using tw_insert_ok [OF assms] ok by (auto simp: wheel_ok_def)
  have it: "tw_items ?w = add_mset item (tw_items w)"
    using ok by (intro tw_insert_items) (simp add: wheel_ok_def)
  have "tw_leases ?w k = Some x \<longleftrightarrow> ((tw_leases w)(if_id item \<mapsto> item)) k = Some x" for x
    using new d by (auto simp: tw_leases_Some it tw_leases_None)
  then show "tw_leases ?w k = ((tw_leases w)(if_id item \<mapsto> item)) k"
    by (metis not_Some_eq)
qed

subsection \<open>Removal with a receipt\<close>

lemma remove_if_valid_cases:
  assumes ok: "wheel_ok w"
  shows "remove_if_valid k r w = (b, w') \<longleftrightarrow>
    (case tw_leases w k of
       Some it \<Rightarrow>
         if if_receipt it = r then
           b \<and> (\<exists>pos. position (\<lambda>x. if_id x = k) (slots w ! slot_of w it) = Some pos \<and>
                slots w ! slot_of w it ! pos = it \<and>
                w' = w\<lparr>index_by_id := hm_remove k (index_by_id w),
                       slots := (slots w)[slot_of w it := swap_remove (slots w ! slot_of w it) pos]\<rparr>)
         else \<not> b \<and> w' = w
     | None \<Rightarrow> \<not> b \<and> w' = w)"
proof (cases "tw_leases w k")
  case None
  with ok show ?thesis by (auto simp: remove_if_valid_def wheel_ok_def)
next
  case (Some it)
  with ok have it: "it \<in># tw_items w" "if_id it = k"
    by (auto simp: wheel_ok_def tw_leases_Some)
  have sl: "slots_ok w" using ok by (simp add: wheel_ok_def)
  have mem: "it \<in> set (slots w ! slot_of w it)" using item_slot [OF sl] it by blast
  have bound: "slot_of w it < length (slots w)" using sl by (simp add: slots_ok_def slot_of_def)
  have "position (\<lambda>x. if_id x = k) (slots w ! slot_of w it) \<noteq> None"
    unfolding position_None using mem it by blast
  then obtain pos where pos: "position (\<lambda>x. if_id x = k) (slots w ! slot_of w it) = Some pos"
    by blast
  have "slots w ! slot_of w it ! pos \<in># tw_items w"
    using position_Some [OF pos] bound nth_subset_concat [OF bound] by (fastforce simp: tw_items_def)
  then have "slots w ! slot_of w it ! pos = it"
    using position_Some [OF pos] it wheel_ok_unique [OF ok, of "slots w ! slot_of w it ! pos" it]
    by simp
  moreover have "hm_get (index_by_id w) k = Some (slot_of w it, if_receipt it)"
    using ok Some by (simp add: wheel_ok_def)
  ultimately show ?thesis
    using Some pos by (auto simp: remove_if_valid_def Let_def)
qed

lemma remove_if_valid_refused:
  "wheel_ok w \<Longrightarrow> (\<And>it. tw_leases w k = Some it \<Longrightarrow> if_receipt it \<noteq> r) \<Longrightarrow>
   remove_if_valid k r w = (False, w)"
  by (subst remove_if_valid_cases) (auto split: option.splits)

lemma remove_if_valid_items:
  assumes ok: "wheel_ok w" and it: "tw_leases w k = Some it" "if_receipt it = r"
    and rm: "remove_if_valid k r w = (b, w')"
  shows "b \<and> tw_items w = add_mset it (tw_items w') \<and> slots_ok w' \<and>
     index_by_id w' = hm_remove k (index_by_id w) \<and> tw_size w' = tw_size w \<and>
     last_checked_sec w' = last_checked_sec w"
proof -
  let ?s = "slot_of w it"
  have sl: "slots_ok w" using ok by (simp add: wheel_ok_def)
  have bound: "?s < length (slots w)" using sl by (simp add: slots_ok_def slot_of_def)
  from rm it obtain pos where b: b
    and pos: "position (\<lambda>x. if_id x = k) (slots w ! ?s) = Some pos" "slots w ! ?s ! pos = it"
    and w': "w' = w\<lparr>index_by_id := hm_remove k (index_by_id w),
                    slots := (slots w)[?s := swap_remove (slots w ! ?s) pos]\<rparr>"
    unfolding remove_if_valid_cases [OF ok] by auto
  have lt: "pos < length (slots w ! ?s)" using position_Some [OF pos(1)] by simp
  then have sw: "mset (swap_remove (slots w ! ?s) pos) = mset (slots w ! ?s) - {#it#}"
    and mem: "it \<in># mset (slots w ! ?s)"
    using mset_swap_remove [OF lt] pos(2) nth_mem [OF lt] by auto
  have "mset (concat (slots w')) + mset (slots w ! ?s) =
        mset (concat (slots w)) + (mset (slots w ! ?s) - {#it#})"
    using mset_concat_update [OF bound] by (simp add: w' sw)
  moreover from mem obtain S where "mset (slots w ! ?s) = add_mset it S"
    by (metis multi_member_split)
  ultimately have "add_mset it (mset (concat (slots w'))) + S = mset (concat (slots w)) + S"
    by simp
  then have "mset (concat (slots w)) = add_mset it (mset (concat (slots w')))"
    by (simp only: add_right_cancel)
  moreover have "set_mset (mset (swap_remove (slots w ! ?s) pos)) \<subseteq> set_mset (mset (slots w ! ?s))"
    unfolding sw by (auto dest: in_diffD)
  then have "slots_ok w'"
    using sl by (auto simp: slots_ok_def w' slot_of_def nth_list_update)
  ultimately show ?thesis using b by (simp add: tw_items_def w')
qed

lemma remove_if_valid_ok:
  assumes ok: "wheel_ok w" and rm: "remove_if_valid k r w = (b, w')"
  shows "wheel_ok w' \<and>
    tw_leases w' = (if b then (tw_leases w)(k := None) else tw_leases w) \<and>
    (b \<longleftrightarrow> (\<exists>it. tw_leases w k = Some it \<and> if_receipt it = r))"
proof (cases "\<exists>it. tw_leases w k = Some it \<and> if_receipt it = r")
  case False
  with ok rm have "b = False \<and> w' = w" using remove_if_valid_refused by auto
  with False ok show ?thesis by auto
next
  case True
  then obtain it where it: "tw_leases w k = Some it" "if_receipt it = r" by blast
  note * = remove_if_valid_items [OF ok it rm]
  have d: "distinct (map if_id (concat (slots w)))" using ok by (simp add: wheel_ok_def)
  have "mset (concat (slots w)) = mset (it # concat (slots w'))" using * by (simp add: tw_items_def)
  then have d': "distinct (map if_id (it # concat (slots w')))"
    using d distinct_ids_mset by blast
  have idit: "if_id it = k" using it d by (simp add: tw_leases_Some)
  have "if_id it \<notin> if_id ` set_mset (tw_items w')" using d' by (simp add: tw_items_def)
  then have nk: "if_id x \<noteq> k" if "x \<in># tw_items w'" for x
    using that idit by (metis image_eqI)
  have so: "slot_of w' = slot_of w" using * by (intro ext) (simp add: slot_of_def)
  have lk: "tw_leases w' x = ((tw_leases w)(k := None)) x" for x
  proof -
    have "tw_leases w' x = Some y \<longleftrightarrow> ((tw_leases w)(k := None)) x = Some y" for y
      using d d' * nk idit by (auto simp: tw_leases_Some)
    then show ?thesis by (metis not_Some_eq)
  qed
  have "hm_get (index_by_id w') x =
      map_option (\<lambda>it. (slot_of w' it, if_receipt it)) (tw_leases w' x)" for x
    using ok * by (simp add: lk so wheel_ok_def)
  moreover have "hm_wf (index_by_id w')" using ok * by (simp add: wheel_ok_def)
  ultimately have "wheel_ok w'" using * d' by (simp add: wheel_ok_def)
  then show ?thesis using * lk True by auto
qed

subsection \<open>Sweeping\<close>

lemma sweep_slot_eq:
  "sweep_slot now its ix =
     (filter (\<lambda>it. if_expire_at it \<le> now) its, filter (\<lambda>it. \<not> if_expire_at it \<le> now) its,
      fold (\<lambda>it. hm_remove (if_id it)) (filter (\<lambda>it. if_expire_at it \<le> now) its) ix)"
  by (induction now its ix rule: sweep_slot.induct) auto

lemma fold_hm_remove:
  "hm_get (fold (\<lambda>it. hm_remove (if_id it)) its ix) k =
     (if k \<in> if_id ` set its then None else hm_get ix k)"
  by (induction its arbitrary: ix) auto

lemma fold_hm_remove_wf: "hm_wf ix \<Longrightarrow> hm_wf (fold (\<lambda>it. hm_remove (if_id it)) its ix)"
  by (induction its arbitrary: ix) auto

text \<open>What a sweep of some slots does: \<open>swept now w is new w'\<close> says that \<open>new\<close> was collected.\<close>

definition swept :: "u64 \<Rightarrow> timer_wheel \<Rightarrow> nat list \<Rightarrow> in_flight_item list \<Rightarrow> timer_wheel \<Rightarrow> bool" where
  "swept now w is new w' \<longleftrightarrow>
     (\<forall>it \<in> set new. if_expire_at it \<le> now) \<and> mset new + tw_items w' = tw_items w \<and>
     length (slots w') = length (slots w) \<and> tw_size w' = tw_size w \<and>
     (\<forall>j < length (slots w). set (slots w' ! j) \<subseteq> set (slots w ! j)) \<and>
     (\<forall>j \<in> set is. \<forall>it \<in> set (slots w' ! j). \<not> if_expire_at it \<le> now) \<and>
     (hm_wf (index_by_id w) \<longrightarrow> hm_wf (index_by_id w')) \<and>
     (\<forall>k. hm_get (index_by_id w') k =
        (if k \<in> if_id ` set new then None else hm_get (index_by_id w) k))"

lemma sweep_at_swept:
  assumes i: "i < length (slots w)"
  obtains new w' where "sweep_at now i (ex, w) = (ex @ new, w')" "swept now w [i] new w'"
proof -
  let ?due = "\<lambda>it. if_expire_at it \<le> now"
  let ?new = "filter ?due (slots w ! i)"
  let ?w' = "w\<lparr>slots := (slots w)[i := filter (\<lambda>it. \<not> ?due it) (slots w ! i)],
     index_by_id := fold (\<lambda>it. hm_remove (if_id it)) ?new (index_by_id w)\<rparr>"
  have "mset ?new + mset (filter (\<lambda>it. \<not> ?due it) (slots w ! i)) = mset (slots w ! i)"
    using multiset_partition [of "mset (slots w ! i)" ?due] by simp
  moreover have "tw_items ?w' + mset (slots w ! i) =
      tw_items w + mset (filter (\<lambda>it. \<not> ?due it) (slots w ! i))"
    using mset_concat_update [OF i] by (simp add: tw_items_def)
  moreover have "mset ?new + tw_items ?w' + mset (filter (\<lambda>it. \<not> ?due it) (slots w ! i)) =
      tw_items ?w' + (mset ?new + mset (filter (\<lambda>it. \<not> ?due it) (slots w ! i)))"
    by (simp only: ac_simps)
  ultimately have "mset ?new + tw_items ?w' + mset (filter (\<lambda>it. \<not> ?due it) (slots w ! i)) =
      tw_items w + mset (filter (\<lambda>it. \<not> ?due it) (slots w ! i))"
    by (simp only:)
  then have "mset ?new + tw_items ?w' = tw_items w" by (simp only: add_right_cancel)
  then have "swept now w [i] ?new ?w'"
    using i by (auto simp: swept_def nth_list_update fold_hm_remove fold_hm_remove_wf)
  then show thesis
    by (rule that [rotated]) (simp add: sweep_at_def sweep_slot_eq)
qed

lemma fold_sweep_swept:
  "\<forall>i \<in> set is. i < length (slots w) \<Longrightarrow>
   \<exists>new w'. fold (sweep_at now) is (ex, w) = (ex @ new, w') \<and> swept now w is new w'"
proof (induction "is" arbitrary: ex w)
  case Nil
  then show ?case by (auto simp: swept_def)
next
  case (Cons i "is")
  then have "i < length (slots w)" by simp
  then obtain new w1 where 1: "sweep_at now i (ex, w) = (ex @ new, w1)" "swept now w [i] new w1"
    by (rule sweep_at_swept)
  with Cons.prems have "\<forall>i \<in> set is. i < length (slots w1)" by (simp add: swept_def)
  from Cons.IH [OF this] obtain new2 w2
    where 2: "fold (sweep_at now) is (ex @ new, w1) = (ex @ new @ new2, w2)" "swept now w1 is new2 w2"
    by (metis append.assoc)
  have "set (slots w2 ! j) \<subseteq> set (slots w ! j)" if "j < length (slots w)" for j
    using 1(2) 2(2) that by (fastforce simp: swept_def)
  moreover have "\<not> if_expire_at it \<le> now" if "it \<in> set (slots w2 ! i)" for it
    using 1(2) 2(2) that Cons.prems by (fastforce simp: swept_def)
  moreover have "mset (new @ new2) + tw_items w2 = tw_items w"
    using 1(2) 2(2) by (simp add: swept_def add.assoc)
  ultimately have "swept now w (i # is) (new @ new2) w2"
    using 1(2) 2(2) by (auto simp: swept_def)
  with 1(1) 2(1) show ?case by auto
qed

lemma swept_ok:
  assumes ok: "wheel_ok w" and sw: "swept now w is new w'"
  shows "wheel_ok w'"
    and "tw_leases w' k = (if k \<in> if_id ` set new then None else tw_leases w k)"
proof -
  have m: "mset (concat (slots w)) = mset (new @ concat (slots w'))"
    using sw by (simp add: swept_def tw_items_def)
  have d: "distinct (map if_id (concat (slots w)))" using ok by (simp add: wheel_ok_def)
  then have d': "distinct (map if_id (new @ concat (slots w')))" using m distinct_ids_mset by blast
  have itw: "tw_items w = mset new + tw_items w'" using sw by (simp add: swept_def)
  have so: "slot_of w' = slot_of w" using sw by (intro ext) (simp add: slot_of_def swept_def)
  have lk: "tw_leases w' k = (if k \<in> if_id ` set new then None else tw_leases w k)" for k
  proof -
    have "if_id ` set new \<inter> if_id ` set_mset (tw_items w') = {}"
      using d' by (simp add: tw_items_def)
    then have "tw_leases w' k = Some y \<longleftrightarrow>
        (if k \<in> if_id ` set new then None else tw_leases w k) = Some y" for y
      using d d' by (auto simp: tw_leases_Some itw)
    then show ?thesis by (metis not_Some_eq)
  qed
  then show "tw_leases w' k = (if k \<in> if_id ` set new then None else tw_leases w k)" .
  have "slots_ok w'"
    using ok sw by (fastforce simp: wheel_ok_def slots_ok_def swept_def so)
  then show "wheel_ok w'"
    using ok sw d' by (simp add: wheel_ok_def swept_def so lk)
qed

lemma slots_to_visit_bound:
  "0 < tw_size w \<Longrightarrow> length (slots w) = tw_size w \<Longrightarrow> i \<in> set (slots_to_visit now lst w) \<Longrightarrow>
   i < length (slots w)"
  by (auto simp: slots_to_visit_def Let_def split: if_splits)

lemma due_slot_visited:
  assumes lst: "lst < if_expire_at it" and now: "if_expire_at it \<le> now"
    and sz: "0 < tw_size w" "length (slots w) = tw_size w"
  shows "slot_of w it \<in> set (slots_to_visit now lst w)"
proof (cases "unat (now - lst) < tw_size w")
  case False
  then show ?thesis
    using sz lst now by (simp add: slots_to_visit_def sat_sub_def slot_of_def Let_def)
next
  case True
  let ?t = "unat (if_expire_at it - lst)"
  have le: "lst \<le> if_expire_at it" "lst \<le> now" using lst now by auto
  have "unat lst < unat (if_expire_at it)" using lst by (simp add: word_less_nat_alt)
  then have "1 \<le> ?t" "?t \<le> unat (now - lst)"
    using now le by (auto simp: unat_sub word_le_nat_alt)
  then have "?t \<in> set [1..<Suc (unat (now - lst))]" by (simp only: set_upt) simp
  moreover have "slot_of w it = unat (lst + of_nat ?t) mod tw_size w" by (simp add: slot_of_def)
  moreover have "slots_to_visit now lst w =
      map (\<lambda>t. unat (lst + of_nat t) mod tw_size w) [1..<Suc (unat (now - lst))]"
    using True le by (simp add: slots_to_visit_def sat_sub_def Let_def del: upt_Suc)
  ultimately show ?thesis by (simp only: set_map image_eqI)
qed

lemma wheel_ok_index_empty: "wheel_ok w \<Longrightarrow> index_by_id w = [] \<Longrightarrow> tw_items w = {#}"
  by (metis map_of.simps(1) multiset_nonemptyE option.distinct(1) wheel_ok_alt)

lemma leases_cong: "slots w' = slots w \<Longrightarrow> tw_leases w' = tw_leases w \<and> tw_items w' = tw_items w"
  by (simp add: tw_leases_def tw_items_def)

lemma wheel_ok_last_checked: "wheel_ok (w\<lparr>last_checked_sec := t\<rparr>) \<longleftrightarrow> wheel_ok w"
  by (simp add: wheel_ok_def slots_ok_def slot_of_def tw_leases_def)

lemma collect_expired_swept:
  assumes ok: "wheel_ok w" and fr: "wheel_fresh w"
    and le: "last_checked_sec w \<le> now" and ce: "collect_expired now w = (ex, w')"
  obtains "is" w1 where "swept now w is ex w1" "w' = w1\<lparr>last_checked_sec := now\<rparr>"
    and "\<forall>it \<in># tw_items w1. now < if_expire_at it"
proof (cases "index_by_id w = []")
  case True
  then have "tw_items w = {#}" using ok wheel_ok_index_empty by blast
  then have "swept now w [] [] w" "\<forall>it \<in># tw_items w. now < if_expire_at it"
    by (auto simp: swept_def)
  moreover have "ex = []" "w' = w\<lparr>last_checked_sec := now\<rparr>"
    using ce True by (auto simp: collect_expired_def)
  ultimately show thesis using that by blast
next
  case False
  let ?last = "last_checked_sec w"
  let ?visit = "slots_to_visit now ?last w"
  from False obtain k v where "hm_get (index_by_id w) k = Some v"
    by (metis map_of_eq_empty_iff not_Some_eq)
  then have "tw_items w \<noteq> {#}"
    using ok by (cases v) (auto simp: wheel_ok_alt)
  with fr have "?last \<noteq> 0" by (auto simp: wheel_fresh_def)
  with ce False have res: "(ex, w') =
      (let (expired, w1) = fold (sweep_at now) ?visit ([], w) in (expired, w1\<lparr>last_checked_sec := now\<rparr>))"
    by (simp add: collect_expired_def)
  have sl: "0 < tw_size w" "length (slots w) = tw_size w"
    using ok by (auto simp: wheel_ok_def slots_ok_def)
  then have "\<forall>i \<in> set ?visit. i < length (slots w)" using slots_to_visit_bound by blast
  from fold_sweep_swept [OF this, of now "[]"] obtain w1
    where w1: "fold (sweep_at now) ?visit ([], w) = (ex, w1)" "swept now w ?visit ex w1"
      "w' = w1\<lparr>last_checked_sec := now\<rparr>"
    using res by auto
  have "now < if_expire_at it" if it: "it \<in># tw_items w1" for it
  proof (rule ccontr)
    assume "\<not> now < if_expire_at it"
    then have due: "if_expire_at it \<le> now" by simp
    have "tw_items w = mset ex + tw_items w1" using w1(2) by (simp add: swept_def)
    then have "it \<in># tw_items w" using it by simp
    then have late: "?last < if_expire_at it" using fr by (simp add: wheel_fresh_def)
    have "slot_of w it \<in> set ?visit" using due_slot_visited [OF late due sl] .
    moreover have "wheel_ok w1" using swept_ok(1) [OF ok w1(2)] .
    then have "it \<in> set (slots w1 ! slot_of w1 it)" using item_slot it by (auto simp: wheel_ok_def)
    moreover have "slot_of w1 it = slot_of w it" using w1(2) by (simp add: slot_of_def swept_def)
    ultimately show False using w1(2) due unfolding swept_def by metis
  qed
  with w1 show thesis using that by blast
qed

lemma collect_expired_exact:
  assumes ok: "wheel_ok w" and fr: "wheel_fresh w"
    and le: "last_checked_sec w \<le> now" and ce: "collect_expired now w = (ex, w')"
  shows "mset ex = filter_mset (\<lambda>it. if_expire_at it \<le> now) (tw_items w)"
    and "tw_items w' = filter_mset (\<lambda>it. now < if_expire_at it) (tw_items w)"
    and "wheel_ok w'" and "last_checked_sec w' = now"
    and "now \<noteq> 0 \<Longrightarrow> wheel_fresh w'"
    and "tw_leases w' k = (if k \<in> if_id ` set ex then None else tw_leases w k)"
    and "tw_size w' = tw_size w"
proof -
  from assms obtain "is" w1 where sw: "swept now w is ex w1" "w' = w1\<lparr>last_checked_sec := now\<rparr>"
    and rest: "\<forall>it \<in># tw_items w1. now < if_expire_at it"
    by (rule collect_expired_swept)
  have its: "tw_items w = mset ex + tw_items w1" and due: "\<forall>it \<in># mset ex. if_expire_at it \<le> now"
    using sw(1) by (auto simp: swept_def)
  have items': "tw_items w' = tw_items w1" "tw_leases w' = tw_leases w1"
    using sw(2) leases_cong [of w' w1] by auto
  have "filter_mset (\<lambda>it. if_expire_at it \<le> now) (tw_items w1) = {#}"
    "filter_mset (\<lambda>it. now < if_expire_at it) (mset ex) = {#}"
    "filter_mset (\<lambda>it. if_expire_at it \<le> now) (mset ex) = mset ex"
    "filter_mset (\<lambda>it. now < if_expire_at it) (tw_items w1) = tw_items w1"
    using rest due by (auto simp: filter_mset_eq_conv)
  then show "mset ex = filter_mset (\<lambda>it. if_expire_at it \<le> now) (tw_items w)"
    "tw_items w' = filter_mset (\<lambda>it. now < if_expire_at it) (tw_items w)"
    by (simp_all add: its items')
  show "wheel_ok w'" using swept_ok(1) [OF ok sw(1)] sw(2) by (simp add: wheel_ok_last_checked)
  show "last_checked_sec w' = now" by (simp add: sw(2))
  show "now \<noteq> 0 \<Longrightarrow> wheel_fresh w'" using rest by (simp add: wheel_fresh_def sw(2) tw_items_def)
  show "tw_leases w' k = (if k \<in> if_id ` set ex then None else tw_leases w k)"
    using swept_ok(2) [OF ok sw(1)] items' by simp
  show "tw_size w' = tw_size w" using sw by (simp add: swept_def)
qed

section \<open>The contract of a lease table\<close>

text \<open>
  What the engine relies on. A lease table maps message ids to leases; a check at \<open>now\<close> hands out
  exactly the leases that are due and keeps the others; a receipt removes the lease it names and
  nothing else. The consequences for consumers are proved here once.
\<close>

locale lease_table =
  fixes leases :: "'w \<Rightarrow> uuid \<rightharpoonup> in_flight_item"
    and ok :: "'w \<Rightarrow> bool" and fresh :: "'w \<Rightarrow> bool" and checked :: "'w \<Rightarrow> u64"
    and ins :: "in_flight_item \<Rightarrow> 'w \<Rightarrow> 'w"
    and rem :: "uuid \<Rightarrow> string \<Rightarrow> 'w \<Rightarrow> bool \<times> 'w"
    and coll :: "u64 \<Rightarrow> 'w \<Rightarrow> in_flight_item list \<times> 'w"
  assumes lease_id: "ok w \<Longrightarrow> leases w k = Some it \<Longrightarrow> if_id it = k"
    and ins_ok: "ok w \<Longrightarrow> leases w (if_id it) = None \<Longrightarrow> ok (ins it w)"
    and ins_leases: "ok w \<Longrightarrow> leases w (if_id it) = None \<Longrightarrow>
      leases (ins it w) = (leases w)(if_id it \<mapsto> it)"
    and ins_fresh: "ok w \<Longrightarrow> fresh w \<Longrightarrow> checked w \<noteq> 0 \<Longrightarrow> checked w < if_expire_at it \<Longrightarrow>
      fresh (ins it w)"
    and ins_checked: "checked (ins it w) = checked w"
    and rem_ok: "ok w \<Longrightarrow> rem k r w = (b, w') \<Longrightarrow> ok w'"
    and rem_iff: "ok w \<Longrightarrow> rem k r w = (b, w') \<Longrightarrow>
      b \<longleftrightarrow> (\<exists>it. leases w k = Some it \<and> if_receipt it = r)"
    and rem_leases: "ok w \<Longrightarrow> rem k r w = (True, w') \<Longrightarrow> leases w' = (leases w)(k := None)"
    and rem_refused: "ok w \<Longrightarrow> rem k r w = (False, w') \<Longrightarrow> w' = w"
    and rem_fresh: "ok w \<Longrightarrow> fresh w \<Longrightarrow> rem k r w = (b, w') \<Longrightarrow> fresh w' \<and> checked w' = checked w"
    and coll_set: "ok w \<Longrightarrow> fresh w \<Longrightarrow> checked w \<le> now \<Longrightarrow> coll now w = (ex, w') \<Longrightarrow>
      distinct (map if_id ex) \<and> set ex = {it. \<exists>k. leases w k = Some it \<and> if_expire_at it \<le> now}"
    and coll_leases: "ok w \<Longrightarrow> fresh w \<Longrightarrow> checked w \<le> now \<Longrightarrow> coll now w = (ex, w') \<Longrightarrow>
      leases w' k = (if k \<in> if_id ` set ex then None else leases w k)"
    and coll_ok: "ok w \<Longrightarrow> fresh w \<Longrightarrow> checked w \<le> now \<Longrightarrow> coll now w = (ex, w') \<Longrightarrow>
      ok w' \<and> checked w' = now \<and> (now \<noteq> 0 \<longrightarrow> fresh w')"
begin

lemma receipt_used_once:
  assumes "ok w" "rem k r w = (True, w')"
  shows "rem k r2 w' = (False, w')"
proof -
  have ok': "ok w'" and lk: "leases w' k = None"
    using assms rem_ok rem_leases by auto
  obtain b w2 where rm: "rem k r2 w' = (b, w2)" by (cases "rem k r2 w'")
  then have "\<not> b" using rem_iff [OF ok' rm] lk by simp
  with rm show ?thesis using rem_refused [OF ok'] by auto
qed

lemma lease_not_due:
  assumes "ok w" "fresh w" "checked w \<le> now" "coll now w = (ex, w')" "leases w' k = Some it"
  shows "now < if_expire_at it"
proof (rule ccontr)
  assume due: "\<not> now < if_expire_at it"
  have lk: "leases w k = Some it" and nin: "k \<notin> if_id ` set ex"
    using coll_leases [OF assms(1-4), of k] assms(5) by (auto split: if_splits)
  have "it \<in> set ex" using coll_set [OF assms(1-4)] due lk by auto
  with nin lease_id [OF assms(1) lk] show False by blast
qed

lemma expired_receipt_refused:
  assumes w: "ok w" "fresh w" "checked w \<le> now" "coll now w = (ex, w')"
    and old: "leases w k = Some it" "if_expire_at it \<le> now"
  shows "rem k r w' = (False, w')"
proof -
  have ok': "ok w'" using coll_ok [OF w] by blast
  have "it \<in> set ex" using coll_set [OF w] old by blast
  then have "leases w' k = None"
    using coll_leases [OF w] lease_id [OF w(1) old(1)] by auto
  moreover obtain b w2 where rm: "rem k r w' = (b, w2)" by (cases "rem k r w'")
  ultimately show ?thesis using rem_iff [OF ok' rm] rem_refused [OF ok'] by auto
qed

lemma stale_receipt_refused:
  assumes w: "ok w" "fresh w" "checked w \<le> now" "coll now w = (ex, w')"
    and old: "leases w k = Some it" "if_expire_at it \<le> now"
    and new: "if_id it2 = k" "if_receipt it2 \<noteq> if_receipt it"
  shows "rem k (if_receipt it) (ins it2 w') = (False, ins it2 w')"
proof -
  have ok': "ok w'" using coll_ok [OF w] by blast
  have "it \<in> set ex" using coll_set [OF w] old by blast
  then have "leases w' (if_id it2) = None"
    using coll_leases [OF w] lease_id [OF w(1) old(1)] new by auto
  then have ok2: "ok (ins it2 w')" and l2: "leases (ins it2 w') k = Some it2"
    using ins_ok [OF ok'] ins_leases [OF ok'] new by auto
  obtain b w2 where rm: "rem k (if_receipt it) (ins it2 w') = (b, w2)"
    by (cases "rem k (if_receipt it) (ins it2 w')")
  then show ?thesis using rem_iff [OF ok2 rm] l2 new rem_refused [OF ok2] by auto
qed

end

lemma wheel_fresh_leases:
  "wheel_ok w \<Longrightarrow> wheel_fresh w \<longleftrightarrow>
     (\<forall>k it. tw_leases w k = Some it \<longrightarrow> last_checked_sec w < if_expire_at it \<and> last_checked_sec w \<noteq> 0)"
  by (auto simp: wheel_fresh_def wheel_ok_def tw_leases_Some)

lemma tw_insert_last_checked [simp]: "last_checked_sec (tw_insert it w) = last_checked_sec w"
  by (simp add: tw_insert_def Let_def)

lemma remove_if_valid_fresh:
  assumes "wheel_ok w" "wheel_fresh w" "remove_if_valid k r w = (b, w')"
  shows "wheel_fresh w' \<and> last_checked_sec w' = last_checked_sec w"
proof (cases "\<exists>it. tw_leases w k = Some it \<and> if_receipt it = r")
  case True
  then show ?thesis
    using remove_if_valid_items [OF assms(1) _ _ assms(3)] assms(2) by (auto simp: wheel_fresh_def)
next
  case False
  then have "w' = w" using remove_if_valid_refused [OF assms(1)] assms(3) by auto
  with assms(2) show ?thesis by simp
qed

lemma collect_expired_set:
  assumes "wheel_ok w" "wheel_fresh w" "last_checked_sec w \<le> now" "collect_expired now w = (ex, w')"
  shows "distinct (map if_id ex) \<and>
    set ex = {it. \<exists>k. tw_leases w k = Some it \<and> if_expire_at it \<le> now}"
proof
  note ce = collect_expired_exact [OF assms]
  have "distinct (map if_id (concat (slots w)))" using assms(1) by (simp add: wheel_ok_def)
  moreover have "mset ex + tw_items w' = tw_items w"
    using multiset_partition [of "tw_items w" "\<lambda>it. if_expire_at it \<le> now"] ce(1,2)
    by (simp add: not_le)
  then have "mset (concat (slots w)) = mset (ex @ concat (slots w'))" by (simp add: tw_items_def)
  ultimately have "distinct (map if_id (ex @ concat (slots w')))" using distinct_ids_mset by blast
  then show "distinct (map if_id ex)" by simp
  have "set_mset (mset ex) = {it. it \<in># tw_items w \<and> if_expire_at it \<le> now}" by (simp add: ce(1))
  then show "set ex = {it. \<exists>k. tw_leases w k = Some it \<and> if_expire_at it \<le> now}"
    using assms(1) by (auto simp: wheel_ok_def tw_leases_Some)
qed

interpretation wheel: lease_table tw_leases wheel_ok wheel_fresh last_checked_sec
    tw_insert remove_if_valid collect_expired
proof (unfold_locales, goal_cases)
  case (1 w k it)
  then show ?case by (simp add: wheel_ok_def tw_leases_Some)
next
  case (2 w it)
  then show ?case by (rule tw_insert_ok)
next
  case (3 w it)
  then show ?case by (rule tw_insert_leases)
next
  case (4 w it)
  then show ?case by (auto simp: wheel_fresh_def wheel_ok_def tw_insert_items)
next
  case (5 it w)
  show ?case by simp
next
  case (6 w k r b w')
  then show ?case using remove_if_valid_ok by blast
next
  case (7 w k r b w')
  then show ?case using remove_if_valid_ok by blast
next
  case (8 w k r w')
  then show ?case using remove_if_valid_ok [OF 8] by simp
next
  case (9 w k r w')
  then show ?case using remove_if_valid_ok [OF 9] remove_if_valid_refused by auto
next
  case (10 w k r b w')
  then show ?case by (rule remove_if_valid_fresh)
next
  case (11 w now ex w')
  then show ?case by (rule collect_expired_set)
next
  case (12 w now ex w' k)
  then show ?case by (rule collect_expired_exact(6))
next
  case (13 w now ex w')
  then show ?case using collect_expired_exact(3-5) [OF 13] by blast
qed

section \<open>Properties\<close>

text \<open>C12 The targeted sweep of the elapsed slots is equivalent to scanning every
  lease: a check at \<open>now\<close> returns exactly the items with \<open>expire_at \<le> now\<close>, each once, leaves
  exactly the others in the wheel, and re-establishes the invariants, however many ticks
  elapsed and whether or not the wheel went round.\<close>

theorem collect_expired_complete:
  assumes "wheel_ok w" and "wheel_fresh w" and "last_checked_sec w \<le> now" and "now \<noteq> 0"
  shows "mset (fst (collect_expired now w)) = filter_mset (\<lambda>it. if_expire_at it \<le> now) (tw_items w)
    \<and> tw_items (snd (collect_expired now w)) = filter_mset (\<lambda>it. now < if_expire_at it) (tw_items w)
    \<and> last_checked_sec (snd (collect_expired now w)) = now
    \<and> wheel_ok (snd (collect_expired now w)) \<and> wheel_fresh (snd (collect_expired now w))"
  using collect_expired_exact [OF assms(1-3) prod.collapse [symmetric]] assms(4) by blast

text \<open>Once a lease has expired and the message has been handed to another
  consumer under a new receipt, the old receipt acknowledges nothing and changes nothing.\<close>

theorem tw_stale_receipt_refused:
  assumes "wheel_ok w" and "wheel_fresh w" and "last_checked_sec w \<le> now"
    and "tw_leases w k = Some it" and "if_expire_at it \<le> now"
    and "if_id it2 = k" and "if_receipt it2 \<noteq> if_receipt it"
  shows "let w2 = tw_insert it2 (snd (collect_expired now w))
         in remove_if_valid k (if_receipt it) w2 = (False, w2)"
  using wheel.stale_receipt_refused [OF assms(1-3) prod.collapse [symmetric] assms(4-7)]
  by (simp add: Let_def)

text \<open>A receipt is accepted exactly when it is the receipt of the current lease,
  acceptance removes that lease and no other, and no receipt is accepted for the message after that.\<close>

theorem tw_receipt_used_once:
  assumes "wheel_ok w"
  shows "(fst (remove_if_valid k r w) \<longleftrightarrow> (\<exists>it. tw_leases w k = Some it \<and> if_receipt it = r)) \<and>
    (fst (remove_if_valid k r w) \<longrightarrow>
       tw_leases (snd (remove_if_valid k r w)) = (tw_leases w)(k := None) \<and>
       remove_if_valid k r2 (snd (remove_if_valid k r w)) = (False, snd (remove_if_valid k r w)))"
proof -
  obtain b w' where rm: "remove_if_valid k r w = (b, w')" by (cases "remove_if_valid k r w")
  have "b \<longleftrightarrow> (\<exists>it. tw_leases w k = Some it \<and> if_receipt it = r)" using wheel.rem_iff [OF assms rm] .
  moreover have "tw_leases w' = (tw_leases w)(k := None) \<and> remove_if_valid k r2 w' = (False, w')" if b
    using that rm wheel.rem_leases [OF assms] wheel.receipt_used_once [OF assms] by simp
  ultimately show ?thesis using rm by simp
qed

text \<open>A concrete wheel for the witnesses: one lease, taken at second 100 and due at second 105.\<close>

definition demo_item :: in_flight_item where
  "demo_item = \<lparr>if_id = 7, if_queue = ''orders'', if_receipt = ''r1'', if_expire_at = 105\<rparr>"

definition demo_wheel :: timer_wheel where
  "demo_wheel = tw_insert demo_item ((tw_new 60)\<lparr>last_checked_sec := 100\<rparr>)"

lemma demo_wheel_ok:
  "wheel_ok demo_wheel" "wheel_fresh demo_wheel" "last_checked_sec demo_wheel = 100"
  "tw_leases demo_wheel = [7 \<mapsto> demo_item]"
proof -
  let ?w = "(tw_new 60)\<lparr>last_checked_sec := 100\<rparr>"
  have ok: "wheel_ok ?w" using tw_new_ok by (simp add: wheel_ok_last_checked)
  have l: "tw_leases ?w = Map.empty" using tw_new_ok [of 60] by (simp add: tw_leases_def)
  show "wheel_ok demo_wheel" using wheel.ins_ok [OF ok] l by (simp add: demo_wheel_def)
  show lk: "tw_leases demo_wheel = [7 \<mapsto> demo_item]"
    using wheel.ins_leases [OF ok, of demo_item] l by (simp add: demo_wheel_def demo_item_def)
  show "last_checked_sec demo_wheel = 100" by (simp add: demo_wheel_def)
  then show "wheel_fresh demo_wheel"
    using lk wheel_fresh_leases [OF \<open>wheel_ok demo_wheel\<close>] by (simp add: demo_item_def)
qed

theorem collect_expired_complete_witness:
  "wheel_ok demo_wheel \<and> wheel_fresh demo_wheel \<and> last_checked_sec demo_wheel \<le> 110 \<and>
   mset (fst (collect_expired 110 demo_wheel)) =
     filter_mset (\<lambda>it. if_expire_at it \<le> 110) (tw_items demo_wheel)"
  using demo_wheel_ok collect_expired_complete [of demo_wheel 110] by simp

theorem tw_stale_receipt_refused_witness:
  "let w2 = tw_insert (demo_item\<lparr>if_receipt := ''r2''\<rparr>) (snd (collect_expired 110 demo_wheel))
   in remove_if_valid 7 ''r1'' w2 = (False, w2)"
  using demo_wheel_ok
    tw_stale_receipt_refused [of demo_wheel 110 7 demo_item "demo_item\<lparr>if_receipt := ''r2''\<rparr>"]
  by (simp add: demo_item_def)

theorem tw_receipt_used_once_witness:
  "fst (remove_if_valid 7 ''r1'' demo_wheel) \<and>
   tw_leases (snd (remove_if_valid 7 ''r1'' demo_wheel)) 7 = None"
  using demo_wheel_ok tw_receipt_used_once [of demo_wheel 7 "''r1''"] by (simp add: demo_item_def)

end
