(* ===== verification/Queue_Engine.thy ===== *)
theory Queue_Engine
  imports Disk_Log Single_Queue Timer_Wheel
begin

text \<open>
  The queue engine of \<open>walrq/src/engine/queue.rs\<close>: 32 shards, each with its queues, its messages, the
  ids it has seen and acknowledged and its timer wheel, over one write-ahead log. Every operation
  is a function from the engine to its result and the new engine. An operation reads the clock once;
  the number of seconds elapsed since the engine was opened is its argument \<open>el\<close>. Ulids come from the
  package's generator, and the engine counts how many it has drawn.
\<close>

section \<open>Data\<close>

definition NUM_SHARDS :: nat where
  "NUM_SHARDS = 32"

datatype queue_error =
    QIo io_error
  | QNotFound string
  | QRamLimitExceeded usize

record queue_options =
  default_visibility_timeout_sec :: u32
  max_delivery_count :: u32
  max_hot_messages_in_ram :: usize
  max_wal_segment_size :: u64

definition default_options :: queue_options where
  "default_options =
     \<lparr>default_visibility_timeout_sec = 300, max_delivery_count = 3,
      max_hot_messages_in_ram = 1000000, max_wal_segment_size = 64 * 1024 * 1024\<rparr>"

record polled_message =
  pm_message_id :: string
  pm_payload :: bytes
  pm_receipt_handle :: string
  pm_delivery_count :: u32

record push_item =
  pi_id :: "ulid option"
  pi_payload :: bytes
  pi_delay_seconds :: u64

record stored_msg =
  sm_id :: ulid
  sm_queue :: string
  sm_payload :: bytes
  sm_visible_at :: u64
  sm_delivery_count :: u32
  sm_max_delivery :: u32

record shard_state =
  queues :: "(string, single_queue) hmap"
  messages :: "(ulid, stored_msg) hmap"
  seen_ids :: "ulid set"
  acked_ids :: "ulid set"
  tw :: timer_wheel

definition shard_new :: shard_state where
  "shard_new = \<lparr>queues = [], messages = [], seen_ids = {}, acked_ids = {}, tw = tw_new 3600\<rparr>"

record queue_engine =
  shards :: "shard_state list"
  disk :: disk_log
  options :: queue_options
  base_epoch_sec :: u64
  total_messages_in_ram :: usize
  spill_read_offset :: u64
  ulids_drawn :: nat

section \<open>Shards\<close>

fun fnv1a :: "bytes \<Rightarrow> u64 \<Rightarrow> u64" where
  "fnv1a [] h = h"
| "fnv1a (b # bs) h = fnv1a bs ((h XOR ucast b) * 0x100000001b3)"

definition shard_idx :: "string \<Rightarrow> nat" where
  "shard_idx queue = unat (fnv1a (as_bytes queue) 0xcbf29ce484222325) mod NUM_SHARDS"

definition current_time_sec :: "u64 \<Rightarrow> queue_engine \<Rightarrow> u64" where
  "current_time_sec el e = base_epoch_sec e + el"

abbreviation shard_of :: "queue_engine \<Rightarrow> string \<Rightarrow> shard_state" where
  "shard_of e q \<equiv> shards e ! shard_idx q"

abbreviation set_shard :: "nat \<Rightarrow> shard_state \<Rightarrow> queue_engine \<Rightarrow> queue_engine" where
  "set_shard s st e \<equiv> e\<lparr>shards := (shards e)[s := st]\<rparr>"

text \<open>\<open>queues.entry(q).or_insert_with(|| SingleQueue::new(now)).insert(id, visible_at, now)\<close>.\<close>

definition enqueue :: "string \<Rightarrow> ulid \<Rightarrow> u64 \<Rightarrow> u64 \<Rightarrow> shard_state \<Rightarrow> shard_state" where
  "enqueue q i visible_at now st =
     st\<lparr>queues := hm_insert q
          (sq_insert i visible_at now
             (case hm_get (queues st) q of Some sq \<Rightarrow> sq | None \<Rightarrow> sq_new now)) (queues st)\<rparr>"

text \<open>\<open>if let Some(q) = queues.get_mut(q) { q.mark_deleted(id) }\<close>.\<close>

definition tombstone :: "string \<Rightarrow> ulid \<Rightarrow> shard_state \<Rightarrow> shard_state" where
  "tombstone q i st =
     (case hm_get (queues st) q of
        Some sq \<Rightarrow> st\<lparr>queues := hm_insert q (mark_deleted i sq) (queues st)\<rparr>
      | None \<Rightarrow> st)"

definition store_msg :: "stored_msg \<Rightarrow> shard_state \<Rightarrow> shard_state" where
  "store_msg m st = st\<lparr>messages := hm_insert (sm_id m) m (messages st)\<rparr>"

text \<open>Recording an acknowledgement: forget the message and leave a tombstone. The flag says whether
  the message was in memory.\<close>

definition forget_msg :: "string \<Rightarrow> ulid \<Rightarrow> shard_state \<Rightarrow> bool \<times> shard_state" where
  "forget_msg q i st =
     (let st1 = st\<lparr>acked_ids := insert i (acked_ids st)\<rparr> in
      case hm_get (messages st1) i of
        Some _ \<Rightarrow> (True, tombstone q i (st1\<lparr>messages := hm_remove i (messages st1)\<rparr>))
      | None \<Rightarrow> (False, tombstone q i st1))"

section \<open>Opening\<close>

fun replay_record :: "queue_options \<Rightarrow> u64 \<Rightarrow> wal_record \<Rightarrow> shard_state list \<times> usize \<Rightarrow>
    shard_state list \<times> usize" where
  "replay_record opts base (WalPush i q visible_at payload) (ss, total_in_ram) =
     (let s = shard_idx q;
          st = (ss ! s)\<lparr>seen_ids := insert i (seen_ids (ss ! s))\<rparr>
      in if total_in_ram < max_hot_messages_in_ram opts then
           let msg = \<lparr>sm_id = i, sm_queue = q, sm_payload = payload, sm_visible_at = visible_at,
                      sm_delivery_count = 0, sm_max_delivery = max_delivery_count opts\<rparr>
           in (ss[s := store_msg msg (enqueue q i visible_at base st)], total_in_ram + 1)
         else (ss[s := st], total_in_ram))"
| "replay_record opts base (WalAck i q) (ss, total_in_ram) =
     (let s = shard_idx q;
          (was_in_ram, st) = forget_msg q i (ss ! s)
      in (ss[s := st], if was_in_ram then sat_sub total_in_ram 1 else total_in_ram))"

definition engine_open :: "packages \<Rightarrow> bytes \<Rightarrow> bytes \<Rightarrow> bytes \<Rightarrow> queue_options \<Rightarrow> u64 \<Rightarrow> queue_engine" where
  "engine_open P file_a file_b manifest_file opts base =
     (let (d, recovered) = disk_log_open P file_a file_b manifest_file (max_wal_segment_size opts);
          (ss, total_in_ram) = fold (replay_record opts base) recovered (replicate NUM_SHARDS shard_new, 0)
      in \<lparr>shards = ss, disk = d, options = opts, base_epoch_sec = base,
          total_messages_in_ram = total_in_ram, spill_read_offset = 0, ulids_drawn = 0\<rparr>)"

section \<open>Compaction\<close>

definition is_spill_at_eof :: "queue_engine \<Rightarrow> bool" where
  "is_spill_at_eof e \<longleftrightarrow> spill_read_offset e \<ge> active_bytes (disk e)"

definition shard_survivors :: "packages \<Rightarrow> shard_state \<Rightarrow> (ulid \<times> string \<times> u64 \<times> bytes) list" where
  "shard_survivors P st =
     concat (map (\<lambda>i. case hm_get (messages st) i of
                        Some m \<Rightarrow> [(i, sm_queue m, sm_visible_at m, sm_payload m)]
                      | None \<Rightarrow> []) (iter_ids P (hm_keys (messages st))))"

definition get_surviving_snapshot_messages :: "packages \<Rightarrow> queue_engine \<Rightarrow> (ulid \<times> string \<times> u64 \<times> bytes) list" where
  "get_surviving_snapshot_messages P e = concat (map (shard_survivors P) (shards e))"

definition check_and_trigger_compaction :: "packages \<Rightarrow> queue_engine \<Rightarrow> (queue_error + unit) \<times> queue_engine" where
  "check_and_trigger_compaction P e =
     (if is_spill_at_eof e \<and> should_compact (disk e) then
        (case perform_flip_flop_compaction P (get_surviving_snapshot_messages P e) (disk e) of
           (Inl err, d) \<Rightarrow> (Inl (QIo err), e\<lparr>disk := d\<rparr>)
         | (Inr _, d) \<Rightarrow> (Inr (), e\<lparr>disk := d, spill_read_offset := 0\<rparr>))
      else (Inr (), e))"

definition force_compaction :: "packages \<Rightarrow> queue_engine \<Rightarrow> (queue_error + unit) \<times> queue_engine" where
  "force_compaction P e =
     (case perform_flip_flop_compaction P (get_surviving_snapshot_messages P e) (disk e) of
        (Inl err, d) \<Rightarrow> (Inl (QIo err), e\<lparr>disk := d\<rparr>)
      | (Inr _, d) \<Rightarrow> (Inr (), e\<lparr>disk := d\<rparr>))"

text \<open>\<open>check_and_trigger_compaction().await?; Ok(x)\<close>.\<close>

definition compact_then :: "packages \<Rightarrow> 'a \<Rightarrow> queue_engine \<Rightarrow> (queue_error + 'a) \<times> queue_engine" where
  "compact_then P x e =
     (case check_and_trigger_compaction P e of
        (Inl err, e') \<Rightarrow> (Inl err, e')
      | (Inr _, e') \<Rightarrow> (Inr x, e'))"

section \<open>Pushing\<close>

definition push_with_ulid :: "packages \<Rightarrow> u64 \<Rightarrow> string \<Rightarrow> ulid \<Rightarrow> bytes \<Rightarrow> u64 \<Rightarrow> queue_engine \<Rightarrow>
    (queue_error + string) \<times> queue_engine" where
  "push_with_ulid P el queue i payload delay_sec e =
     (let now = current_time_sec el e;
          visible_at = now + delay_sec;
          e1 = e\<lparr>disk := append_push_durable P i queue visible_at payload (disk e)\<rparr>;
          s = shard_idx queue;
          st = shards e1 ! s
      in if i \<in> seen_ids st then (Inr (ulid_to_string P i), e1)
         else
           let st1 = st\<lparr>seen_ids := insert i (seen_ids st)\<rparr>;
               within_horizon = (visible_at \<le> now + HOT_DELAY_HORIZON_SEC);
               e2 = (if within_horizon \<and> total_messages_in_ram e1 < max_hot_messages_in_ram (options e1)
                        \<and> \<not> hm_contains (messages st1) i
                     then
                       let msg = \<lparr>sm_id = i, sm_queue = queue, sm_payload = payload,
                                  sm_visible_at = visible_at, sm_delivery_count = 0,
                                  sm_max_delivery = max_delivery_count (options e1)\<rparr>
                       in (set_shard s (store_msg msg (enqueue queue i visible_at now st1)) e1)
                            \<lparr>total_messages_in_ram := total_messages_in_ram e1 + 1\<rparr>
                     else set_shard s st1 e1)
           in compact_then P (ulid_to_string P i) e2)"

definition push :: "packages \<Rightarrow> u64 \<Rightarrow> string \<Rightarrow> bytes \<Rightarrow> u64 \<Rightarrow> queue_engine \<Rightarrow>
    (queue_error + string) \<times> queue_engine" where
  "push P el queue payload delay_sec e =
     (let i = ulid_new P (ulids_drawn e)
      in push_with_ulid P el queue i payload delay_sec (e\<lparr>ulids_drawn := Suc (ulids_drawn e)\<rparr>))"

definition push_with_id :: "packages \<Rightarrow> u64 \<Rightarrow> string \<Rightarrow> uuid \<Rightarrow> bytes \<Rightarrow> u64 \<Rightarrow> queue_engine \<Rightarrow>
    (queue_error + string) \<times> queue_engine" where
  "push_with_id P el queue u payload delay_sec e = push_with_ulid P el queue u payload delay_sec e"

record batch_state =
  bs_shard :: shard_state
  bs_disk :: disk_log
  bs_drawn :: nat
  bs_added :: usize
  bs_ram :: usize
  bs_ids :: "string list"

definition push_batch_item :: "packages \<Rightarrow> queue_options \<Rightarrow> u64 \<Rightarrow> string \<Rightarrow> push_item \<Rightarrow> batch_state \<Rightarrow> batch_state" where
  "push_batch_item P opts now queue item b =
     (let (i, drawn) = (case pi_id item of
                          Some i \<Rightarrow> (i, bs_drawn b)
                        | None \<Rightarrow> (ulid_new P (bs_drawn b), Suc (bs_drawn b)));
          b1 = b\<lparr>bs_drawn := drawn, bs_ids := bs_ids b @ [ulid_to_string P i]\<rparr>;
          st = bs_shard b1
      in if i \<in> seen_ids st then b1
         else
           let st1 = st\<lparr>seen_ids := insert i (seen_ids st)\<rparr>;
               visible_at = now + pi_delay_seconds item;
               b2 = b1\<lparr>bs_shard := st1,
                       bs_disk := append_push_async i queue visible_at (pi_payload item) (bs_disk b1)\<rparr>;
               within_horizon = (visible_at \<le> now + HOT_DELAY_HORIZON_SEC)
           in if within_horizon \<and> bs_ram b2 < max_hot_messages_in_ram opts \<and> \<not> hm_contains (messages st1) i
              then
                let msg = \<lparr>sm_id = i, sm_queue = queue, sm_payload = pi_payload item,
                           sm_visible_at = visible_at, sm_delivery_count = 0,
                           sm_max_delivery = max_delivery_count opts\<rparr>
                in b2\<lparr>bs_shard := store_msg msg (enqueue queue i visible_at now st1),
                      bs_added := bs_added b2 + 1, bs_ram := bs_ram b2 + 1\<rparr>
              else b2)"

definition push_batch :: "packages \<Rightarrow> u64 \<Rightarrow> string \<Rightarrow> push_item list \<Rightarrow> queue_engine \<Rightarrow>
    (queue_error + string list) \<times> queue_engine" where
  "push_batch P el queue items e =
     (let now = current_time_sec el e;
          s = shard_idx queue;
          b = fold (push_batch_item P (options e) now queue) items
                \<lparr>bs_shard = shards e ! s, bs_disk = disk e, bs_drawn = ulids_drawn e,
                 bs_added = 0, bs_ram = total_messages_in_ram e, bs_ids = []\<rparr>;
          e1 = (set_shard s (bs_shard b) e)\<lparr>disk := bs_disk b, ulids_drawn := bs_drawn b\<rparr>;
          e2 = (if bs_added b > 0
                then e1\<lparr>total_messages_in_ram := total_messages_in_ram e1 + bs_added b\<rparr> else e1);
          e3 = e2\<lparr>disk := flush P (disk e2)\<rparr>
      in compact_then P (bs_ids b) e3)"

section \<open>Paging in spilled messages\<close>

record page_state =
  pg_shards :: "shard_state list"
  pg_total :: usize
  pg_added :: usize
  pg_target_added :: nat

fun page_record :: "queue_options \<Rightarrow> u64 \<Rightarrow> string \<Rightarrow> nat \<Rightarrow> wal_record \<Rightarrow> page_state \<Rightarrow> page_state" where
  "page_record opts now target_queue s (WalPush i q visible_at payload) g =
     (let st = pg_shards g ! s;
          already_known = hm_contains (messages st) i;
          is_acked = (i \<in> acked_ids st);
          within_horizon = (visible_at \<le> now + HOT_DELAY_HORIZON_SEC)
      in if within_horizon \<and> \<not> already_known \<and> \<not> is_acked then
           let msg = \<lparr>sm_id = i, sm_queue = q, sm_payload = payload, sm_visible_at = visible_at,
                      sm_delivery_count = 0, sm_max_delivery = max_delivery_count opts\<rparr>;
               st1 = st\<lparr>seen_ids := insert i (seen_ids st)\<rparr>;
               is_target = (s = shard_idx target_queue)
           in g\<lparr>pg_shards := (pg_shards g)[s := store_msg msg (enqueue q i visible_at now st1)],
                pg_added := pg_added g + 1,
                pg_target_added := pg_target_added g + (if is_target \<and> q = target_queue then 1 else 0)\<rparr>
         else g)"
| "page_record opts now target_queue s (WalAck i q) g =
     (let (was_in_ram, st) = forget_msg q i (pg_shards g ! s)
      in g\<lparr>pg_shards := (pg_shards g)[s := st],
           pg_total := (if was_in_ram then pg_total g - 1 else pg_total g)\<rparr>)"

text \<open>The records of a page are grouped by shard, and the shards are visited in order.\<close>

definition page_shard :: "queue_options \<Rightarrow> u64 \<Rightarrow> string \<Rightarrow> wal_record list \<Rightarrow> nat \<Rightarrow> page_state \<Rightarrow> page_state" where
  "page_shard opts now target_queue records s g =
     fold (page_record opts now target_queue s)
       (filter (\<lambda>r. shard_idx (wr_queue_name r) = s) records) g"

definition apply_page :: "u64 \<Rightarrow> string \<Rightarrow> wal_record list \<Rightarrow> queue_engine \<Rightarrow> nat \<times> queue_engine" where
  "apply_page now target_queue records e =
     (let g = fold (page_shard (options e) now target_queue records) [0..<NUM_SHARDS]
                \<lparr>pg_shards = shards e, pg_total = total_messages_in_ram e, pg_added = 0, pg_target_added = 0\<rparr>
      in (pg_target_added g,
          e\<lparr>shards := pg_shards g,
            total_messages_in_ram := (if pg_added g > 0 then pg_total g + pg_added g else pg_total g)\<rparr>))"

definition is_push :: "wal_record \<Rightarrow> bool" where
  "is_push r = (case r of WalPush _ _ _ _ \<Rightarrow> True | WalAck _ _ \<Rightarrow> False)"

lemma apply_page_frame:
  "disk (snd (apply_page now q rs e)) = disk e"
  "spill_read_offset (snd (apply_page now q rs e)) = spill_read_offset e"
  "options (snd (apply_page now q rs e)) = options e"
  "base_epoch_sec (snd (apply_page now q rs e)) = base_epoch_sec e"
  "ulids_drawn (snd (apply_page now q rs e)) = ulids_drawn e"
  by (simp_all add: apply_page_def Let_def)

lemma read_entries_loop_consumed:
  "snd (read_entries_loop P reg n bs) \<le> length bs \<and>
   (fst (read_entries_loop P reg n bs) \<noteq> [] \<longrightarrow> 0 < snd (read_entries_loop P reg n bs))"
proof (induction n arbitrary: bs)
  case 0
  show ?case by simp
next
  case (Suc n)
  show ?case
  proof (cases "decode_record P reg bs")
    case None
    then show ?thesis by simp
  next
    case (Some a)
    obtain r rest where a: "a = (r, rest)" by (cases a)
    with Some have "length rest < length bs" by (simp add: decode_record_shrinks)
    with Some a Suc [of rest] show ?thesis by (auto split: prod.split)
  qed
qed

lemma read_entries_advances:
  assumes "read_entries_from_offset P d off n = (rs, off')" "rs \<noteq> []"
  shows "unat off < unat off'" "unat off' \<le> unat (word_of_nat (length (active_file d)) :: u64)"
proof -
  let ?len = "word_of_nat (length (active_file d)) :: u64"
  let ?raw = "take (min (unat (?len - off)) (1024 * 1024)) (drop (unat off) (active_file d))"
  obtain c where l: "read_entries_loop P (registry d) n ?raw = (rs, c)"
    and off: "off < ?len" "off' = off + word_of_nat c"
    using assms by (auto simp: read_entries_from_offset_def Let_def split: if_splits prod.splits)
  have c: "0 < c" "c \<le> unat (?len - off)"
    using read_entries_loop_consumed [of P "registry d" n ?raw] l assms(2) by auto
  have d: "unat (?len - off) = unat ?len - unat off" "unat off < unat ?len"
    using off(1) unat_sub [OF less_imp_le [OF off(1)]] by (simp_all add: word_less_nat_alt)
  have "unat ?len < 2 ^ 64" using unsigned_less [of ?len] by simp
  with c d have "unat off + c < 2 ^ 64" by linarith
  then have "unat off' = unat off + c"
    using unat_plus_of_nat [of off c] by (simp add: off(2))
  with c d show "unat off < unat off'" "unat off' \<le> unat ?len" by linarith+
qed

function page_in_loop :: "packages \<Rightarrow> string \<Rightarrow> u64 \<Rightarrow> nat \<Rightarrow> bool \<Rightarrow> queue_engine \<Rightarrow> queue_engine" where
  "page_in_loop P target_queue now fetch_limit flushed e =
     (let (records, new_offset) = read_entries_from_offset P (disk e) (spill_read_offset e) fetch_limit
      in if records \<noteq> [] then
           let e1 = e\<lparr>spill_read_offset := new_offset\<rparr>
           in if \<not> (\<exists>r \<in> set records. is_push r)
              then page_in_loop P target_queue now fetch_limit flushed e1
              else
                let (target_added, e2) = apply_page now target_queue records e1
                in if target_added > 0 \<or> total_messages_in_ram e2 \<ge> max_hot_messages_in_ram (options e2)
                   then e2
                   else page_in_loop P target_queue now fetch_limit flushed e2
         else if \<not> flushed
         then page_in_loop P target_queue now fetch_limit True (e\<lparr>disk := flush P (disk e)\<rparr>)
         else if new_offset > 0 then e\<lparr>spill_read_offset := 0\<rparr>
         else e)"
  by pat_completeness auto
termination
proof (relation "inv_image (less_than <*lex*> less_than)
    (\<lambda>(P, q, now, n, fl, e). (if fl then 0 else 1 :: nat,
       unat (word_of_nat (length (active_file (disk e))) :: u64) - unat (spill_read_offset e)))", goal_cases)
  case 1
  show ?case by (intro wf_inv_image wf_lex_prod wf_less_than)
next
  case (2 P q now n fl e x rs off e1)
  then have r: "read_entries_from_offset P (disk e) (spill_read_offset e) n = (rs, off)" "rs \<noteq> []"
    by auto
  from read_entries_advances [OF r] 2 show ?case by auto
next
  case (3 P q now n fl e x rs off e1 y ta e2)
  then have r: "read_entries_from_offset P (disk e) (spill_read_offset e) n = (rs, off)" "rs \<noteq> []"
    by auto
  from 3 have "e2 = snd (apply_page now q rs e1)" by (metis snd_conv)
  then have "disk e2 = disk e" "spill_read_offset e2 = off" using 3 by (simp_all add: apply_page_frame)
  with read_entries_advances [OF r] 3 show ?case by auto
next
  case 4
  then show ?case by simp
qed

declare page_in_loop.simps [simp del]

definition page_in_cold_spill :: "packages \<Rightarrow> string \<Rightarrow> u64 \<Rightarrow> nat \<Rightarrow> queue_engine \<Rightarrow> queue_engine" where
  "page_in_cold_spill P target_queue now needed e =
     page_in_loop P target_queue now (max needed 1000) False e"

section \<open>Polling\<close>

text \<open>Expired leases whose message is still in memory; their messages leave the map.\<close>

fun take_expired :: "in_flight_item list \<Rightarrow> (ulid, stored_msg) hmap \<Rightarrow>
    stored_msg list \<times> (ulid, stored_msg) hmap" where
  "take_expired [] ms = ([], ms)"
| "take_expired (item # items) ms =
     (case hm_get ms (if_id item) of
        Some msg \<Rightarrow> (let (exs, ms') = take_expired items (hm_remove (if_id item) ms) in (msg # exs, ms'))
      | None \<Rightarrow> take_expired items ms)"

definition dlq_name :: "string \<Rightarrow> string" where
  "dlq_name q = q @ ''.dlq''"

definition route_expired :: "u64 \<Rightarrow> stored_msg \<Rightarrow> shard_state list \<Rightarrow> shard_state list" where
  "route_expired now msg ss =
     (if sm_delivery_count msg \<ge> sm_max_delivery msg then
        let dlq = dlq_name (sm_queue msg);
            orig = shard_idx (sm_queue msg);
            orig_state = tombstone (sm_queue msg) (sm_id msg)
              ((ss ! orig)\<lparr>acked_ids := insert (sm_id msg) (acked_ids (ss ! orig))\<rparr>);
            ss1 = ss[orig := orig_state];
            msg1 = msg\<lparr>sm_queue := dlq, sm_visible_at := now\<rparr>;
            target = shard_idx dlq;
            target_state = (ss1 ! target)\<lparr>seen_ids := insert (sm_id msg) (seen_ids (ss1 ! target))\<rparr>
        in ss1[target := store_msg msg1 (enqueue dlq (sm_id msg) now now target_state)]
      else
        let msg1 = msg\<lparr>sm_visible_at := now\<rparr>;
            target = shard_idx (sm_queue msg)
        in ss[target := store_msg msg1 (enqueue (sm_queue msg) (sm_id msg) now now (ss ! target))])"

definition collect_and_route :: "u64 \<Rightarrow> nat \<Rightarrow> shard_state list \<Rightarrow> shard_state list" where
  "collect_and_route now s ss =
     (let st = ss ! s;
          (exp, w) = collect_expired now (tw st);
          (expired, ms) = take_expired exp (messages st)
      in fold (route_expired now) expired (ss[s := st\<lparr>tw := w, messages := ms\<rparr>]))"

record lease_state =
  ls_messages :: "(ulid, stored_msg) hmap"
  ls_wheel :: timer_wheel
  ls_drawn :: nat
  ls_polled :: "polled_message list"

definition lease_one :: "packages \<Rightarrow> string \<Rightarrow> u64 \<Rightarrow> ulid \<Rightarrow> lease_state \<Rightarrow> lease_state" where
  "lease_one P queue expire_at i l =
     (case hm_get (ls_messages l) i of
        None \<Rightarrow> l
      | Some msg \<Rightarrow>
          let msg1 = msg\<lparr>sm_delivery_count := sm_delivery_count msg + 1\<rparr>;
              receipt = ulid_to_string P (ulid_new P (ls_drawn l))
          in \<lparr>ls_messages = hm_insert i msg1 (ls_messages l),
              ls_wheel = tw_insert \<lparr>if_id = i, if_queue = queue, if_receipt = receipt,
                                    if_expire_at = expire_at\<rparr> (ls_wheel l),
              ls_drawn = Suc (ls_drawn l),
              ls_polled = ls_polled l @
                [\<lparr>pm_message_id = ulid_to_string P i, pm_payload = sm_payload msg1,
                  pm_receipt_handle = receipt, pm_delivery_count = sm_delivery_count msg1\<rparr>]\<rparr>)"

definition claim_messages :: "packages \<Rightarrow> u64 \<Rightarrow> string \<Rightarrow> nat \<Rightarrow> shard_state \<Rightarrow> ulid list \<times> shard_state" where
  "claim_messages P now queue max_messages st =
     (case hm_get (queues st) queue of
        None \<Rightarrow> ([], st)
      | Some sq \<Rightarrow>
          let (claimed, sq') = claim_ready max_messages (advance_and_drain (iter_secs P) now sq)
          in (claimed, st\<lparr>queues := hm_insert queue sq' (queues st)\<rparr>))"

definition needs_page_in :: "string \<Rightarrow> nat \<Rightarrow> shard_state \<Rightarrow> bool" where
  "needs_page_in queue prefetch_threshold st =
     (case hm_get (queues st) queue of
        Some sq \<Rightarrow> ready_len sq < prefetch_threshold
      | None \<Rightarrow> True)"

definition poll_timeout :: "queue_options \<Rightarrow> u32 \<Rightarrow> u32" where
  "poll_timeout opts visibility_sec =
     (if visibility_sec = 0 then default_visibility_timeout_sec opts else visibility_sec)"

definition poll :: "packages \<Rightarrow> u64 \<Rightarrow> string \<Rightarrow> u32 \<Rightarrow> u32 \<Rightarrow> queue_engine \<Rightarrow>
    (queue_error + polled_message list) \<times> queue_engine" where
  "poll P el queue visibility_sec max_messages e =
     (let now = current_time_sec el e;
          s = shard_idx queue;
          e1 = e\<lparr>shards := collect_and_route now s (shards e)\<rparr>;
          prefetch_threshold = max (unat max_messages * 2) 200;
          e2 = (if needs_page_in queue prefetch_threshold (shards e1 ! s)
                then page_in_cold_spill P queue now prefetch_threshold e1 else e1);
          (claimed, st) = claim_messages P now queue (unat max_messages) (shards e2 ! s);
          expire_at = now + ucast (poll_timeout (options e) visibility_sec);
          l = fold (lease_one P queue expire_at) claimed
                \<lparr>ls_messages = messages st, ls_wheel = tw st, ls_drawn = ulids_drawn e2, ls_polled = []\<rparr>
      in (Inr (ls_polled l),
          (set_shard s (st\<lparr>messages := ls_messages l, tw := ls_wheel l\<rparr>) e2)\<lparr>ulids_drawn := ls_drawn l\<rparr>))"

section \<open>Acknowledging\<close>

definition parse_id_fast :: "packages \<Rightarrow> string \<Rightarrow> ulid option" where
  "parse_id_fast P id_str =
     (case (if length id_str = 26 then ulid_from_string P id_str else None) of
        Some u \<Rightarrow> Some u
      | None \<Rightarrow>
          (case uuid_parse_str P id_str of
             Some u \<Rightarrow> Some u
           | None \<Rightarrow> ulid_from_string P id_str))"

text \<open>The part of \<open>ack\<close> and \<open>ack_batch\<close> under the shard lock, after the receipt was accepted.\<close>

definition ack_msg :: "string \<Rightarrow> ulid \<Rightarrow> shard_state \<Rightarrow> bool \<times> shard_state" where
  "ack_msg queue i st =
     (case hm_get (messages st) i of
        Some _ \<Rightarrow>
          (True, tombstone queue i
             (st\<lparr>messages := hm_remove i (messages st), acked_ids := insert i (acked_ids st)\<rparr>))
      | None \<Rightarrow> (False, st\<lparr>acked_ids := insert i (acked_ids st)\<rparr>))"

definition ack :: "packages \<Rightarrow> string \<Rightarrow> string \<Rightarrow> string \<Rightarrow> queue_engine \<Rightarrow>
    (queue_error + bool) \<times> queue_engine" where
  "ack P queue message_id_str receipt e =
     (case parse_id_fast P message_id_str of
        None \<Rightarrow> (Inr False, e)
      | Some i \<Rightarrow>
          let s = shard_idx queue;
              st = shards e ! s;
              (valid, w) = remove_if_valid i receipt (tw st)
          in if \<not> valid then (Inr False, set_shard s (st\<lparr>tw := w\<rparr>) e)
             else
               let (was_in_ram, st1) = ack_msg queue i (st\<lparr>tw := w\<rparr>);
                   e1 = (set_shard s st1 e)
                          \<lparr>total_messages_in_ram :=
                             (if was_in_ram then total_messages_in_ram e - 1 else total_messages_in_ram e)\<rparr>;
                   e2 = e1\<lparr>disk := append_ack_durable P i queue (disk e1)\<rparr>
               in compact_then P True e2)"

definition ack_batch_item :: "string \<Rightarrow> ulid \<times> string \<Rightarrow> shard_state \<times> disk_log \<times> usize \<Rightarrow>
    shard_state \<times> disk_log \<times> usize" where
  "ack_batch_item queue = (\<lambda>(i, receipt) (st, d, count).
     let (valid, w) = remove_if_valid i receipt (tw st)
     in if \<not> valid then (st\<lparr>tw := w\<rparr>, d, count)
        else
          let (was_in_ram, st1) = ack_msg queue i (st\<lparr>tw := w\<rparr>)
          in (st1, append_ack_async i queue d, if was_in_ram then count + 1 else count))"

definition ack_batch :: "packages \<Rightarrow> string \<Rightarrow> (string \<times> string) list \<Rightarrow> queue_engine \<Rightarrow>
    (queue_error + usize) \<times> queue_engine" where
  "ack_batch P queue items e =
     (let ulids = concat (map (\<lambda>(m_id, receipt).
            case parse_id_fast P m_id of Some i \<Rightarrow> [(i, receipt)] | None \<Rightarrow> []) items);
          s = shard_idx queue;
          (st, d, count) = fold (ack_batch_item queue) ulids (shards e ! s, disk e, 0);
          e1 = (set_shard s st e)\<lparr>disk := d\<rparr>;
          e2 = (if count > 0
                then e1\<lparr>total_messages_in_ram := total_messages_in_ram e1 - count, disk := flush P (disk e1)\<rparr>
                else e1)
      in compact_then P count e2)"

definition ack_follower :: "packages \<Rightarrow> string \<Rightarrow> string \<Rightarrow> queue_engine \<Rightarrow>
    (queue_error + bool) \<times> queue_engine" where
  "ack_follower P queue message_id_str e =
     (case parse_id_fast P message_id_str of
        None \<Rightarrow> (Inr False, e)
      | Some i \<Rightarrow>
          let s = shard_idx queue;
              (was_in_ram, st) = forget_msg queue i (shards e ! s);
              e1 = (set_shard s st e)
                     \<lparr>total_messages_in_ram :=
                        (if was_in_ram then total_messages_in_ram e - 1 else total_messages_in_ram e)\<rparr>;
              e2 = e1\<lparr>disk := append_ack_durable P i queue (disk e1)\<rparr>
          in if was_in_ram then compact_then P True e2 else (Inr True, e2))"

section \<open>Maintenance\<close>

definition set_initial_spill_offset :: "u64 \<Rightarrow> queue_engine \<Rightarrow> queue_engine" where
  "set_initial_spill_offset offset e = e\<lparr>spill_read_offset := offset\<rparr>"

definition flush_wal :: "packages \<Rightarrow> queue_engine \<Rightarrow> queue_engine" where
  "flush_wal P e = e\<lparr>disk := flush P (disk e)\<rparr>"

definition clear_for_raft_recovery :: "queue_engine \<Rightarrow> queue_engine" where
  "clear_for_raft_recovery e =
     e\<lparr>shards := map (\<lambda>st. st\<lparr>queues := [], messages := [], seen_ids := {}, acked_ids := {},
                               tw := tw_new 3600\<rparr>) (shards e),
       total_messages_in_ram := 0, spill_read_offset := 0\<rparr>"

end
