(* ===== verification/Engine_Invariant.thy ===== *)
theory Engine_Invariant
  imports Queue_Engine
begin

text \<open>
  The invariant of the queue engine. Its core is custody: a message in memory is leased to one
  consumer or waits in its own queue, once, and never both. The theory proves that every operation
  of \<open>walrq/src/engine/queue.rs\<close> keeps the invariant, together with the counter of messages in
  memory.
\<close>

section \<open>Custody within a shard\<close>

text \<open>\<open>L\<close> is the set of messages in transit within an operation: they are neither queued nor leased.\<close>

definition msg_ok :: "nat \<Rightarrow> ulid set \<Rightarrow> shard_state \<Rightarrow> ulid \<Rightarrow> stored_msg \<Rightarrow> bool" where
  "msg_ok s L st i m \<longleftrightarrow>
     sm_id m = i \<and> shard_idx (sm_queue m) = s \<and> i \<in> seen_ids st \<and>
     (i \<in> L \<or> tw_leases (tw st) i \<noteq> None \<or>
      (\<exists>sq. hm_get (queues st) (sm_queue m) = Some sq \<and> i \<in> set (sq_ids sq)))"

definition queued_ok :: "ulid set \<Rightarrow> shard_state \<Rightarrow> string \<Rightarrow> single_queue \<Rightarrow> ulid \<Rightarrow> bool" where
  "queued_ok L st q sq i \<longleftrightarrow>
     i \<in> seen_ids st \<and> i \<notin> L \<and> (hm_get (messages st) i = None \<longrightarrow> i \<in> acked_ids st) \<and>
     (\<forall>m. hm_get (messages st) i = Some m \<longrightarrow>
        sm_queue m = q \<and> i \<notin> deleted sq \<and> tw_leases (tw st) i = None)"

definition lease_ok :: "ulid set \<Rightarrow> shard_state \<Rightarrow> ulid \<Rightarrow> bool" where
  "lease_ok L st i \<longleftrightarrow>
     i \<in> seen_ids st \<and> i \<notin> L \<and> (hm_get (messages st) i = None \<longrightarrow> i \<in> acked_ids st)"

definition shard_ok :: "nat \<Rightarrow> ulid set \<Rightarrow> shard_state \<Rightarrow> bool" where
  "shard_ok s L st \<longleftrightarrow>
     hm_wf (queues st) \<and> hm_wf (messages st) \<and> wheel_ok (tw st) \<and>
     (\<forall>q sq. hm_get (queues st) q = Some sq \<longrightarrow> sq_ok sq) \<and>
     (\<forall>i m. hm_get (messages st) i = Some m \<longrightarrow> msg_ok s L st i m) \<and>
     (\<forall>q sq i. hm_get (queues st) q = Some sq \<longrightarrow> i \<in> set (sq_ids sq) \<longrightarrow> queued_ok L st q sq i) \<and>
     (\<forall>i. tw_leases (tw st) i \<noteq> None \<longrightarrow> lease_ok L st i)"

text \<open>An id nobody holds: it is not in memory, not leased and not queued.\<close>

definition free_id :: "shard_state \<Rightarrow> ulid \<Rightarrow> bool" where
  "free_id st i \<longleftrightarrow>
     hm_get (messages st) i = None \<and> tw_leases (tw st) i = None \<and>
     (\<forall>q sq. hm_get (queues st) q = Some sq \<longrightarrow> i \<notin> set (sq_ids sq))"

lemma shard_okI:
  assumes "hm_wf (queues st)" "hm_wf (messages st)" "wheel_ok (tw st)"
    and "\<And>q sq. hm_get (queues st) q = Some sq \<Longrightarrow> sq_ok sq"
    and "\<And>i m. hm_get (messages st) i = Some m \<Longrightarrow> msg_ok s L st i m"
    and "\<And>q sq i. hm_get (queues st) q = Some sq \<Longrightarrow> i \<in> set (sq_ids sq) \<Longrightarrow> queued_ok L st q sq i"
    and "\<And>i. tw_leases (tw st) i \<noteq> None \<Longrightarrow> lease_ok L st i"
  shows "shard_ok s L st"
  using assms by (simp add: shard_ok_def)

lemma shard_okD:
  assumes "shard_ok s L st"
  shows "hm_wf (queues st)" "hm_wf (messages st)" "wheel_ok (tw st)"
    and "\<And>q sq. hm_get (queues st) q = Some sq \<Longrightarrow> sq_ok sq"
    and "\<And>i m. hm_get (messages st) i = Some m \<Longrightarrow> msg_ok s L st i m"
    and "\<And>q sq i. hm_get (queues st) q = Some sq \<Longrightarrow> i \<in> set (sq_ids sq) \<Longrightarrow> queued_ok L st q sq i"
    and "\<And>i. tw_leases (tw st) i \<noteq> None \<Longrightarrow> lease_ok L st i"
  using assms by (simp_all add: shard_ok_def)

lemma shard_new_ok: "shard_ok s {} shard_new"
  using tw_new_ok [of 3600] by (simp add: shard_ok_def shard_new_def)

lemma unseen_free:
  assumes "shard_ok s L st" "i \<notin> seen_ids st"
  shows "free_id st i"
proof -
  note D = shard_okD [OF assms(1)]
  have "hm_get (messages st) i = None" using D(5) [of i] assms(2) by (cases "hm_get (messages st) i") (auto simp: msg_ok_def)
  moreover have "tw_leases (tw st) i = None" using D(7) [of i] assms(2) by (cases "tw_leases (tw st) i") (auto simp: lease_ok_def)
  moreover have "\<forall>q sq. hm_get (queues st) q = Some sq \<longrightarrow> i \<notin> set (sq_ids sq)"
    using D(6) [of _ _ i] assms(2) by (auto simp: queued_ok_def)
  ultimately show ?thesis by (simp add: free_id_def)
qed

lemma unknown_free:
  assumes "shard_ok s L st" "hm_get (messages st) i = None" "i \<notin> acked_ids st"
  shows "free_id st i"
proof -
  note D = shard_okD [OF assms(1)]
  have "tw_leases (tw st) i = None" using D(7) [of i] assms(2,3) by (cases "tw_leases (tw st) i") (auto simp: lease_ok_def)
  moreover have "\<forall>q sq. hm_get (queues st) q = Some sq \<longrightarrow> i \<notin> set (sq_ids sq)"
    using D(6) [of _ _ i] assms(2,3) by (auto simp: queued_ok_def)
  ultimately show ?thesis using assms(2) by (simp add: free_id_def)
qed

lemma shard_ok_seen: "shard_ok s L st \<Longrightarrow> shard_ok s L (st\<lparr>seen_ids := insert i (seen_ids st)\<rparr>)"
  by (fastforce intro!: shard_okI dest: shard_okD simp: msg_ok_def queued_ok_def lease_ok_def)

lemma shard_ok_acked: "shard_ok s L st \<Longrightarrow> shard_ok s L (st\<lparr>acked_ids := insert i (acked_ids st)\<rparr>)"
  by (fastforce intro!: shard_okI dest: shard_okD simp: msg_ok_def queued_ok_def lease_ok_def)

subsection \<open>Putting a message into its queue\<close>

lemma sq_new_ids [simp]: "sq_ids (sq_new now) = []"
  by (simp add: sq_new_def sq_ids_def sq_sched_def far_sched_def)

lemma admit_ok:
  assumes ok: "shard_ok s L st" and free: "free_id st i" and L: "i \<notin> L"
    and m: "sm_id m = i" "sm_queue m = q" "shard_idx q = s"
  shows "shard_ok s L (store_msg m (enqueue q i v now (st\<lparr>seen_ids := insert i (seen_ids st)\<rparr>)))"
    (is "shard_ok s L ?st")
proof -
  note D = shard_okD [OF ok]
  define sq where "sq = (case hm_get (queues st) q of Some sq \<Rightarrow> sq | None \<Rightarrow> sq_new now)"
  have sq: "sq_ok sq" "i \<notin> set (sq_ids sq)"
    using D(4) [of q] free by (auto simp: sq_def free_id_def sq_new_ok split: option.split)
  have st: "queues ?st = hm_insert q (sq_insert i v now sq) (queues st)"
    "messages ?st = hm_insert i m (messages st)" "tw ?st = tw st"
    "seen_ids ?st = insert i (seen_ids st)" "acked_ids ?st = acked_ids st"
    using m by (simp_all add: store_msg_def enqueue_def sq_def)
  have sub: "j \<in> set (sq_ids sq) \<Longrightarrow> hm_get (queues st) q = Some sq" for j
    by (auto simp: sq_def split: option.splits)
  show ?thesis
  proof (rule shard_okI)
    show "hm_wf (queues ?st)" "hm_wf (messages ?st)" "wheel_ok (tw ?st)"
      using D(1-3) by (simp_all add: st)
  next
    fix p x assume "hm_get (queues ?st) p = Some x"
    then show "sq_ok x" using D(4) [of p x] sq_insert_ok [OF sq] by (auto simp: st split: if_splits)
  next
    fix j n assume "hm_get (messages ?st) j = Some n"
    then show "msg_ok s L ?st j n"
      using D(5) [of j n] m sub
      by (auto simp: msg_ok_def st set_sq_insert_ids sq_def split: if_splits)
  next
    fix p x j assume "hm_get (queues ?st) p = Some x" "j \<in> set (sq_ids x)"
    then consider "p = q" "x = sq_insert i v now sq" "j = i"
      | "p = q" "x = sq_insert i v now sq" "j \<in> set (sq_ids sq)" "j \<noteq> i"
      | "p \<noteq> q" "hm_get (queues st) p = Some x" "j \<noteq> i"
      using free sq(2) by (cases "j = i") (auto simp: st set_sq_insert_ids free_id_def split: if_splits)
    then show "queued_ok L ?st p x j"
    proof cases
      case 1
      then show ?thesis using m L free by (simp add: queued_ok_def st free_id_def)
    next
      case 2
      then show ?thesis using D(6) [of q sq j] sub [of j] by (auto simp: queued_ok_def st)
    next
      case 3
      have "j \<in> set (sq_ids x)" by fact
      then show ?thesis using D(6) [of p x j] 3 by (auto simp: queued_ok_def st)
    qed
  next
    fix j assume "tw_leases (tw ?st) j \<noteq> None"
    then show "lease_ok L ?st j" using D(7) [of j] free by (auto simp: lease_ok_def st free_id_def)
  qed
qed

lemma admit_messages:
  "messages (store_msg m (enqueue q i v now st)) = hm_insert (sm_id m) m (messages st)"
  "tw (store_msg m (enqueue q i v now st)) = tw st"
  "seen_ids (store_msg m (enqueue q i v now st)) = seen_ids st"
  "acked_ids (store_msg m (enqueue q i v now st)) = acked_ids st"
  by (simp_all add: store_msg_def enqueue_def)

subsection \<open>Forgetting a message\<close>

lemma tombstone_frame [simp]:
  "messages (tombstone q i st) = messages st" "tw (tombstone q i st) = tw st"
  "seen_ids (tombstone q i st) = seen_ids st" "acked_ids (tombstone q i st) = acked_ids st"
  by (simp_all add: tombstone_def split: option.split)

lemma tombstone_queues:
  "hm_get (queues (tombstone q i st)) p = Some x \<longleftrightarrow>
     (if p = q then \<exists>sq. hm_get (queues st) q = Some sq \<and> x = mark_deleted i sq
      else hm_get (queues st) p = Some x)"
  by (auto simp: tombstone_def split: option.split)

lemma tombstone_holds:
  "hm_get (queues st) p = Some sq \<Longrightarrow> j \<in> set (sq_ids sq) \<Longrightarrow> j \<noteq> i \<Longrightarrow>
   \<exists>x. hm_get (queues (tombstone q i st)) p = Some x \<and> j \<in> set (sq_ids x)"
  by (auto simp: tombstone_def mark_deleted_other split: option.split)

lemma tombstone_ok:
  assumes ok: "shard_ok s L st" and gone: "hm_get (messages st) i = None"
  shows "shard_ok s L (tombstone q i st)"
proof -
  note D = shard_okD [OF ok]
  let ?st = "tombstone q i st"
  show ?thesis
  proof (rule shard_okI)
    show "hm_wf (queues ?st)" using D(1) by (simp add: tombstone_def split: option.split)
    show "hm_wf (messages ?st)" "wheel_ok (tw ?st)" using D(2,3) by simp_all
  next
    fix p x assume "hm_get (queues ?st) p = Some x"
    then show "sq_ok x" using D(4) [of p] mark_deleted_ok(1) by (auto simp: tombstone_queues split: if_splits)
  next
    fix j n assume j: "hm_get (messages ?st) j = Some n"
    with gone have "j \<noteq> i" by auto
    with j show "msg_ok s L ?st j n"
      using D(5) [of j n] tombstone_holds [of st "sm_queue n" _ j i q] by (auto simp: msg_ok_def)
  next
    fix p x j assume px: "hm_get (queues ?st) p = Some x" "j \<in> set (sq_ids x)"
    then obtain sq where sq: "hm_get (queues st) p = Some sq" "j \<in> set (sq_ids sq)" "x = sq \<or> x = mark_deleted i sq"
      using mark_deleted_ok(4) D(4) by (fastforce simp: tombstone_queues split: if_splits)
    from D(6) [OF sq(1,2)] sq(3) gone show "queued_ok L ?st p x j"
      by (cases "j = i") (auto simp: queued_ok_def mark_deleted_other)
  next
    fix j assume "tw_leases (tw ?st) j \<noteq> None"
    then show "lease_ok L ?st j" using D(7) [of j] by (simp add: lease_ok_def)
  qed
qed

lemma unlist_ok:
  assumes ok: "shard_ok s L st" and "i \<in> acked_ids st"
  shows "shard_ok s L (st\<lparr>messages := hm_remove i (messages st)\<rparr>)"
  using shard_okD [OF ok] assms(2)
  by (intro shard_okI) (auto simp: msg_ok_def queued_ok_def lease_ok_def split: if_splits)

lemma forget_msg_spec:
  assumes ok: "shard_ok s L st" and f: "forget_msg q i st = (b, st')"
  shows "shard_ok s L st'" "b \<longleftrightarrow> hm_get (messages st) i \<noteq> None"
    "messages st' = (if b then hm_remove i (messages st) else messages st)"
    "tw st' = tw st" "seen_ids st' = seen_ids st" "acked_ids st' = insert i (acked_ids st)"
proof -
  let ?st = "st\<lparr>acked_ids := insert i (acked_ids st)\<rparr>"
  have 1: "shard_ok s L ?st" by (rule shard_ok_acked [OF ok])
  show "shard_ok s L st'"
  proof (cases "hm_get (messages st) i")
    case None
    with f tombstone_ok [OF 1, of i q] show ?thesis by (auto simp: forget_msg_def Let_def)
  next
    case (Some m)
    have "shard_ok s L (?st\<lparr>messages := hm_remove i (messages ?st)\<rparr>)" by (rule unlist_ok [OF 1]) simp
    from tombstone_ok [OF this, of i q] f Some show ?thesis by (auto simp: forget_msg_def Let_def)
  qed
  show "b \<longleftrightarrow> hm_get (messages st) i \<noteq> None"
    "messages st' = (if b then hm_remove i (messages st) else messages st)"
    "tw st' = tw st" "seen_ids st' = seen_ids st" "acked_ids st' = insert i (acked_ids st)"
    using f by (auto simp: forget_msg_def Let_def split: option.splits)
qed

subsection \<open>Acknowledging a lease\<close>

lemma unlease_ok:
  assumes ok: "shard_ok s L st" and gone: "hm_get (messages st) i = None"
    and w: "wheel_ok w" "tw_leases w = (tw_leases (tw st))(i := None)"
  shows "shard_ok s L (st\<lparr>tw := w\<rparr>)"
proof -
  note D = shard_okD [OF ok]
  show ?thesis
  proof (rule shard_okI)
    fix j n assume "hm_get (messages (st\<lparr>tw := w\<rparr>)) j = Some n"
    then show "msg_ok s L (st\<lparr>tw := w\<rparr>) j n" using D(5) [of j n] gone by (auto simp: msg_ok_def w(2))
  next
    fix p x j assume "hm_get (queues (st\<lparr>tw := w\<rparr>)) p = Some x" "j \<in> set (sq_ids x)"
    then show "queued_ok L (st\<lparr>tw := w\<rparr>) p x j" using D(6) [of p x j] by (auto simp: queued_ok_def w(2))
  next
    fix j assume "tw_leases (tw (st\<lparr>tw := w\<rparr>)) j \<noteq> None"
    then show "lease_ok L (st\<lparr>tw := w\<rparr>) j" using D(7) [of j] by (simp add: lease_ok_def w(2) split: if_splits)
  qed (use D w(1) in \<open>simp_all\<close>)
qed

lemma ack_msg_spec:
  assumes ok: "shard_ok s L st" and rm: "remove_if_valid i r (tw st) = (True, w)"
    and a: "ack_msg q i (st\<lparr>tw := w\<rparr>) = (b, st')"
  shows "shard_ok s L st'" "b \<longleftrightarrow> hm_get (messages st) i \<noteq> None"
    "messages st' = (if b then hm_remove i (messages st) else messages st)"
    "tw st' = w" "seen_ids st' = seen_ids st" "acked_ids st' = insert i (acked_ids st)"
proof -
  let ?st = "st\<lparr>acked_ids := insert i (acked_ids st)\<rparr>"
  from remove_if_valid_ok [OF shard_okD(3) [OF ok] rm]
  have w: "wheel_ok w" "tw_leases w = (tw_leases (tw st))(i := None)" by simp_all
  have 1: "shard_ok s L ?st" by (rule shard_ok_acked [OF ok])
  show "shard_ok s L st'"
  proof (cases "hm_get (messages st) i")
    case None
    with unlease_ok [OF 1 _ w(1), of i] w(2) have "shard_ok s L (?st\<lparr>tw := w\<rparr>)" by simp
    moreover have "?st\<lparr>tw := w\<rparr> = st\<lparr>tw := w, acked_ids := insert i (acked_ids st)\<rparr>" by simp
    ultimately have "shard_ok s L (st\<lparr>tw := w, acked_ids := insert i (acked_ids st)\<rparr>)" by (simp only:)
    with a None show ?thesis by (auto simp: ack_msg_def)
  next
    case (Some m)
    have "shard_ok s L (?st\<lparr>messages := hm_remove i (messages ?st)\<rparr>)" by (rule unlist_ok [OF 1]) simp
    from unlease_ok [OF this _ w(1), of i] w(2)
    have "shard_ok s L (?st\<lparr>messages := hm_remove i (messages st), tw := w\<rparr>)" by simp
    moreover have "?st\<lparr>messages := hm_remove i (messages st), tw := w\<rparr> =
        st\<lparr>tw := w, messages := hm_remove i (messages st), acked_ids := insert i (acked_ids st)\<rparr>" by simp
    ultimately have "shard_ok s L (st\<lparr>tw := w, messages := hm_remove i (messages st), acked_ids := insert i (acked_ids st)\<rparr>)"
      by (simp only:)
    from tombstone_ok [OF this, of i q] a Some show ?thesis by (auto simp: ack_msg_def)
  qed
  show "b \<longleftrightarrow> hm_get (messages st) i \<noteq> None"
    "messages st' = (if b then hm_remove i (messages st) else messages st)"
    "tw st' = w" "seen_ids st' = seen_ids st" "acked_ids st' = insert i (acked_ids st)"
    using a by (auto simp: ack_msg_def split: option.splits)
qed

subsection \<open>Claiming and leasing\<close>

lemma length_claim_ready: "length (fst (claim_ready n q)) \<le> n"
proof (induction n arbitrary: q)
  case 0
  show ?case by simp
next
  case (Suc n)
  obtain r q1 where "pop_ready q = (r, q1)" by (metis prod.exhaust)
  with Suc [of q1] show ?case by (cases r) (auto split: prod.splits)
qed

lemma claim_messages_spec:
  assumes ok: "shard_ok s {} st" and ord: "iter_order (iter_secs P)" and t: "unat now + 300 < 2 ^ 64"
    and c: "claim_messages P now q n st = (is, st')"
  shows "shard_ok s (set is \<inter> dom (hm_get (messages st))) st'" "distinct is"
    "messages st' = messages st" "tw st' = tw st" "seen_ids st' = seen_ids st" "acked_ids st' = acked_ids st"
    "length is \<le> n" "\<And>i m. i \<in> set is \<Longrightarrow> hm_get (messages st) i = Some m \<Longrightarrow> sm_queue m = q"
proof -
  note D = shard_okD [OF ok]
  let ?L = "set is \<inter> dom (hm_get (messages st))"
  have "shard_ok s ?L st' \<and> distinct is \<and> length is \<le> n \<and>
    (\<forall>i m. i \<in> set is \<longrightarrow> hm_get (messages st) i = Some m \<longrightarrow> sm_queue m = q)"
  proof (cases "hm_get (queues st) q")
    case None
    with c ok show ?thesis by (simp add: claim_messages_def)
  next
    case (Some sq)
    obtain sq' where cl: "claim_ready n (advance_and_drain (iter_secs P) now sq) = (is, sq')"
      and st': "st' = st\<lparr>queues := hm_insert q sq' (queues st)\<rparr>"
      using c Some by (auto simp: claim_messages_def split: prod.splits)
    note adv = advance_keeps [OF D(4) [OF Some] ord t]
    note cr = claim_ready_keeps [OF conjunct2 [OF adv] cl]
    have k: "sq_keeps sq sq' (set is)" using sq_keeps_trans [OF conjunct1 [OF adv] conjunct1 [OF cr]] by simp
    have cq: "queued_ok {} st q sq j" if "j \<in> set is" for j
      using D(6) [OF Some, of j] cr adv that by (auto simp: sq_keeps_def)
    have "shard_ok s ?L st'"
    proof (rule shard_okI)
      show "hm_wf (queues st')" "hm_wf (messages st')" "wheel_ok (tw st')" using D(1-3) by (simp_all add: st')
    next
      fix p x assume "hm_get (queues st') p = Some x"
      then show "sq_ok x" using D(4) [of p x] cr by (auto simp: st' split: if_splits)
    next
      fix j m assume m: "hm_get (messages st') j = Some m"
      then have j: "msg_ok s {} st j m" using D(5) [of j m] by (simp add: st')
      show "msg_ok s ?L st' j m"
      proof (cases "j \<in> set is \<or> tw_leases (tw st) j \<noteq> None")
        case True
        with j m show ?thesis by (auto simp: msg_ok_def st')
      next
        case False
        with j obtain x where x: "hm_get (queues st) (sm_queue m) = Some x" "j \<in> set (sq_ids x)"
          by (auto simp: msg_ok_def)
        from D(6) [OF x] m have "j \<notin> deleted x" by (simp add: queued_ok_def st')
        with x False k Some have "\<exists>y. hm_get (queues st') (sm_queue m) = Some y \<and> j \<in> set (sq_ids y)"
          by (auto simp: st' sq_keeps_def)
        with j show ?thesis by (simp add: msg_ok_def st')
      qed
    next
      fix p x j assume x: "hm_get (queues st') p = Some x" "j \<in> set (sq_ids x)"
      show "queued_ok ?L st' p x j"
      proof (cases "p = q")
        case True
        with x have x': "x = sq'" by (simp add: st')
        with x(2) k have "j \<in> set (sq_ids sq)" "j \<notin> set is" "deleted x \<subseteq> deleted sq"
          by (auto simp: sq_keeps_def)
        with D(6) [OF Some, of j] True show ?thesis by (auto simp: queued_ok_def st')
      next
        case False
        with x have px: "queued_ok {} st p x j" using D(6) [of p x j] by (simp add: st')
        with cq [of j] False have "j \<notin> ?L" by (auto simp: queued_ok_def)
        with px show ?thesis by (simp add: queued_ok_def st')
      qed
    next
      fix j assume "tw_leases (tw st') j \<noteq> None"
      then have l: "tw_leases (tw st) j \<noteq> None" by (simp add: st')
      with cq [of j] have "j \<notin> ?L" by (auto simp: queued_ok_def)
      with D(7) [OF l] show "lease_ok ?L st' j" by (simp add: lease_ok_def st')
    qed
    moreover have "length is \<le> n"
      using length_claim_ready [of n "advance_and_drain (iter_secs P) now sq"] cl by simp
    ultimately show ?thesis using cr cq by (auto simp: queued_ok_def)
  qed
  then show "shard_ok s ?L st'" "distinct is" "length is \<le> n"
    "\<And>i m. i \<in> set is \<Longrightarrow> hm_get (messages st) i = Some m \<Longrightarrow> sm_queue m = q" by blast+
  show "messages st' = messages st" "tw st' = tw st" "seen_ids st' = seen_ids st" "acked_ids st' = acked_ids st"
    using c by (auto simp: claim_messages_def split: option.splits prod.splits)
qed

lemma lease_ok_step:
  assumes ok: "shard_ok s L st" and i: "i \<in> L" "hm_get (messages st) i = Some m"
    and m': "sm_id m' = sm_id m" "sm_queue m' = sm_queue m" and it: "if_id it = i"
  shows "shard_ok s (L - {i}) (st\<lparr>messages := hm_insert i m' (messages st), tw := tw_insert it (tw st)\<rparr>)"
    (is "shard_ok s _ ?st")
proof -
  note D = shard_okD [OF ok]
  have none: "tw_leases (tw st) (if_id it) = None"
    using D(7) [of i] i(1) it by (cases "tw_leases (tw st) i") (auto simp: lease_ok_def)
  note w = tw_insert_ok [OF D(3) none] tw_insert_leases [OF D(3) none, unfolded it]
  show ?thesis
  proof (rule shard_okI)
    show "hm_wf (queues ?st)" "hm_wf (messages ?st)" "wheel_ok (tw ?st)" using D(1,2) w(1) by simp_all
  next
    fix p x assume "hm_get (queues ?st) p = Some x"
    then show "sq_ok x" using D(4) by simp
  next
    fix j n assume "hm_get (messages ?st) j = Some n"
    then show "msg_ok s (L - {i}) ?st j n"
      using D(5) [of j n] D(5) [OF i(2)] m' by (auto simp: msg_ok_def w(2) split: if_splits)
  next
    fix p x j assume "hm_get (queues ?st) p = Some x" "j \<in> set (sq_ids x)"
    then show "queued_ok (L - {i}) ?st p x j"
      using D(6) [of p x j] i(1) by (cases "j = i") (auto simp: queued_ok_def w(2))
  next
    fix j assume "tw_leases (tw ?st) j \<noteq> None"
    then show "lease_ok (L - {i}) ?st j"
      using D(7) [of j] D(5) [OF i(2)] by (cases "j = i") (auto simp: lease_ok_def w(2) msg_ok_def)
  qed
qed

text \<open>What a poll hands out for a claimed message, and the lease it records.\<close>

definition handed_out :: "packages \<Rightarrow> ulid \<Rightarrow> stored_msg \<Rightarrow> nat \<Rightarrow> polled_message" where
  "handed_out P i m n =
     \<lparr>pm_message_id = ulid_to_string P i, pm_payload = sm_payload m,
      pm_receipt_handle = ulid_to_string P (ulid_new P n), pm_delivery_count = sm_delivery_count m + 1\<rparr>"

definition new_lease :: "packages \<Rightarrow> string \<Rightarrow> u64 \<Rightarrow> ulid \<Rightarrow> nat \<Rightarrow> in_flight_item" where
  "new_lease P q ex i n =
     \<lparr>if_id = i, if_queue = q, if_receipt = ulid_to_string P (ulid_new P n), if_expire_at = ex\<rparr>"

abbreviation in_ram :: "(ulid, stored_msg) hmap \<Rightarrow> ulid list \<Rightarrow> ulid list" where
  "in_ram ms is \<equiv> filter (hm_contains ms) is"

abbreviation redelivered :: "stored_msg \<Rightarrow> stored_msg" where
  "redelivered m \<equiv> m\<lparr>sm_delivery_count := sm_delivery_count m + 1\<rparr>"

lemma lease_one_Some:
  assumes "hm_get (ls_messages l) i = Some m"
  shows "lease_one P q ex i l =
    \<lparr>ls_messages = hm_insert i (redelivered m) (ls_messages l),
     ls_wheel = tw_insert (new_lease P q ex i (ls_drawn l)) (ls_wheel l),
     ls_drawn = Suc (ls_drawn l), ls_polled = ls_polled l @ [handed_out P i m (ls_drawn l)]\<rparr>"
  using assms by (simp add: lease_one_def handed_out_def new_lease_def Let_def)

lemma in_ram_insert: "i \<notin> set is \<Longrightarrow> in_ram (hm_insert i m ms) is = in_ram ms is"
  by (auto intro!: filter_cong simp: hm_contains_def split: if_splits)

lemma enumerate_cong_snd:
  "(\<And>i n. i \<in> set xs \<Longrightarrow> f i n = g i n) \<Longrightarrow>
   map (\<lambda>(n, i). f i n) (enumerate k xs) = map (\<lambda>(n, i). g i n) (enumerate k xs)"
  by (auto intro!: map_cong dest: set_zip_rightD simp: enumerate_eq_zip)

lemma fold_lease_polled:
  "distinct is \<Longrightarrow>
   ls_polled (fold (lease_one P q ex) is l) = ls_polled l @
     map (\<lambda>(n, i). handed_out P i (the (hm_get (ls_messages l) i)) n) (enumerate (ls_drawn l) (in_ram (ls_messages l) is)) \<and>
   ls_drawn (fold (lease_one P q ex) is l) = ls_drawn l + length (in_ram (ls_messages l) is) \<and>
   length (ls_messages (fold (lease_one P q ex) is l)) = length (ls_messages l) \<and>
   (\<forall>j. hm_get (ls_messages (fold (lease_one P q ex) is l)) j =
      (if j \<in> set is then map_option redelivered (hm_get (ls_messages l) j) else hm_get (ls_messages l) j))"
proof (induction "is" arbitrary: l)
  case Nil
  show ?case by simp
next
  case (Cons i "is")
  then have d: "distinct is" "i \<notin> set is" by simp_all
  show ?case
  proof (cases "hm_get (ls_messages l) i")
    case None
    then have "lease_one P q ex i l = l" "\<not> hm_contains (ls_messages l) i"
      by (simp_all add: lease_one_def hm_contains_def)
    with Cons.IH [OF d(1), of l] None show ?thesis by auto
  next
    case (Some m)
    let ?l = "lease_one P q ex i l"
    have ms: "ls_messages ?l = hm_insert i (redelivered m) (ls_messages l)"
      and dr: "ls_drawn ?l = Suc (ls_drawn l)" and po: "ls_polled ?l = ls_polled l @ [handed_out P i m (ls_drawn l)]"
      by (simp_all add: lease_one_Some [OF Some])
    have ir: "in_ram (ls_messages ?l) is = in_ram (ls_messages l) is"
      unfolding ms by (rule in_ram_insert [OF d(2)])
    have "map (\<lambda>(n, i). handed_out P i (the (hm_get (ls_messages ?l) i)) n) (enumerate k (in_ram (ls_messages l) is)) =
        map (\<lambda>(n, i). handed_out P i (the (hm_get (ls_messages l) i)) n) (enumerate k (in_ram (ls_messages l) is))" for k
      using d(2) by (intro enumerate_cong_snd) (auto simp: ms)
    moreover have "hm_contains (ls_messages l) i" using Some by (simp add: hm_contains_def)
    moreover note IH = Cons.IH [OF d(1), of ?l, unfolded ir dr po]
    ultimately show ?thesis using Some d(2) by (simp add: ms length_hm_insert)
  qed
qed

lemma fold_lease_ok:
  "distinct is \<Longrightarrow>
   shard_ok s (set is \<inter> dom (hm_get (ls_messages l))) (st\<lparr>messages := ls_messages l, tw := ls_wheel l\<rparr>) \<Longrightarrow>
   l' = fold (lease_one P q ex) is l \<Longrightarrow>
   shard_ok s {} (st\<lparr>messages := ls_messages l', tw := ls_wheel l'\<rparr>) \<and>
   last_checked_sec (ls_wheel l') = last_checked_sec (ls_wheel l) \<and>
   (\<forall>j. j \<notin> set (in_ram (ls_messages l) is) \<longrightarrow> tw_leases (ls_wheel l') j = tw_leases (ls_wheel l) j) \<and>
   (\<forall>(n, i) \<in> set (enumerate (ls_drawn l) (in_ram (ls_messages l) is)).
      tw_leases (ls_wheel l') i = Some (new_lease P q ex i n))"
proof (induction "is" arbitrary: l)
  case Nil
  then show ?case by simp
next
  case (Cons i "is")
  then have d: "distinct is" "i \<notin> set is" by simp_all
  show ?case
  proof (cases "hm_get (ls_messages l) i")
    case None
    then have "lease_one P q ex i l = l" "\<not> hm_contains (ls_messages l) i"
      by (simp_all add: lease_one_def hm_contains_def)
    moreover from None have "set (i # is) \<inter> dom (hm_get (ls_messages l)) = set is \<inter> dom (hm_get (ls_messages l))"
      by auto
    ultimately show ?thesis using Cons.IH [OF d(1), of l] Cons.prems None by simp
  next
    case (Some m)
    let ?l = "lease_one P q ex i l" and ?st = "st\<lparr>messages := ls_messages l, tw := ls_wheel l\<rparr>"
    let ?L = "set (i # is) \<inter> dom (hm_get (ls_messages l))"
    have ms: "ls_messages ?l = hm_insert i (redelivered m) (ls_messages l)"
      and w: "ls_wheel ?l = tw_insert (new_lease P q ex i (ls_drawn l)) (ls_wheel l)"
      and dr: "ls_drawn ?l = Suc (ls_drawn l)"
      by (simp_all add: lease_one_Some [OF Some])
    have ir: "in_ram (ls_messages ?l) is = in_ram (ls_messages l) is"
      unfolding ms by (rule in_ram_insert [OF d(2)])
    note ok = Cons.prems(2)
    have it: "if_id (new_lease P q ex i (ls_drawn l)) = i" by (simp add: new_lease_def)
    have "i \<in> ?L" using Some by (simp add: domI)
    from lease_ok_step [OF ok this, of m "redelivered m", OF _ _ _ it] Some
    have "shard_ok s (?L - {i}) (st\<lparr>messages := ls_messages ?l, tw := ls_wheel ?l\<rparr>)" by (simp add: ms w)
    moreover have "?L - {i} = set is \<inter> dom (hm_get (ls_messages ?l))"
      using d(2) by (auto simp: ms split: if_splits)
    ultimately have ok': "shard_ok s (set is \<inter> dom (hm_get (ls_messages ?l))) (st\<lparr>messages := ls_messages ?l, tw := ls_wheel ?l\<rparr>)"
      by simp
    have "tw_leases (ls_wheel l) i = None"
      using shard_okD(7) [OF ok, of i] Some by (cases "tw_leases (ls_wheel l) i") (auto simp: lease_ok_def)
    then have tl: "tw_leases (ls_wheel ?l) = (tw_leases (ls_wheel l))(i \<mapsto> new_lease P q ex i (ls_drawn l))"
      using tw_insert_leases [of "ls_wheel l" "new_lease P q ex i (ls_drawn l)"] shard_okD(3) [OF ok] it w by simp
    have "last_checked_sec (ls_wheel ?l) = last_checked_sec (ls_wheel l)" by (simp add: w)
    moreover from Cons.IH [OF d(1) ok'] Cons.prems(3)
    have "shard_ok s {} (st\<lparr>messages := ls_messages l', tw := ls_wheel l'\<rparr>)"
      "last_checked_sec (ls_wheel l') = last_checked_sec (ls_wheel ?l)"
      "\<forall>j. j \<notin> set (in_ram (ls_messages l) is) \<longrightarrow> tw_leases (ls_wheel l') j = tw_leases (ls_wheel ?l) j"
      "\<forall>(n, i) \<in> set (enumerate (Suc (ls_drawn l)) (in_ram (ls_messages l) is)).
        tw_leases (ls_wheel l') i = Some (new_lease P q ex i n)"
      by (simp_all add: ir dr)
    moreover have "hm_contains (ls_messages l) i" using Some by (simp add: hm_contains_def)
    ultimately show ?thesis using d(2) by (simp add: tl)
  qed
qed

subsection \<open>Collecting expired leases\<close>

lemma take_expired_spec:
  "distinct (map if_id ex) \<Longrightarrow> hm_wf ms \<Longrightarrow> take_expired ex ms = (exs, ms') \<Longrightarrow>
   exs = concat (map (\<lambda>it. case hm_get ms (if_id it) of Some m \<Rightarrow> [m] | None \<Rightarrow> []) ex) \<and>
   hm_wf ms' \<and> length exs + length ms' = length ms \<and>
   (\<forall>j. hm_get ms' j = (if j \<in> if_id ` set ex then None else hm_get ms j))"
proof (induction ex ms arbitrary: exs ms' rule: take_expired.induct)
  case (1 ms)
  then show ?case by simp
next
  case (2 item items ms)
  from 2(3) have d: "distinct (map if_id items)" "if_id item \<notin> if_id ` set items" by auto
  show ?case
  proof (cases "hm_get ms (if_id item)")
    case None
    with 2(1) [OF None d(1) 2(4)] 2(5) show ?thesis by auto
  next
    case (Some m)
    let ?ms = "hm_remove (if_id item) ms"
    obtain exs1 where t: "take_expired items ?ms = (exs1, ms')" "exs = m # exs1"
      using 2(5) Some by (auto split: prod.splits)
    from 2(2) [OF Some d(1) hm_wf_remove [OF 2(4)] t(1)]
    have IH: "exs1 = concat (map (\<lambda>it. case hm_get ?ms (if_id it) of Some m \<Rightarrow> [m] | None \<Rightarrow> []) items)"
      "hm_wf ms'" "length exs1 + length ms' = length ?ms"
      "\<forall>j. hm_get ms' j = (if j \<in> if_id ` set items then None else hm_get ?ms j)" by blast+
    have e: "map (\<lambda>it. case hm_get ?ms (if_id it) of Some m \<Rightarrow> [m] | None \<Rightarrow> []) items =
        map (\<lambda>it. case hm_get ms (if_id it) of Some m \<Rightarrow> [m] | None \<Rightarrow> []) items"
      using d(2) by (intro map_cong) (auto simp: image_iff)
    have "length ?ms = length ms - 1" "0 < length ms"
      using length_hm_remove [OF 2(4), of "if_id item"] Some by (cases ms, auto)
    with IH(2-4) Some t(2) IH(1) [unfolded e] show ?thesis by simp
  qed
qed

text \<open>The state of a shard after its expired leases and their messages have been taken out.\<close>

lemma collect_ok:
  assumes ok: "shard_ok s {} st" and fr: "wheel_fresh (tw st)" and le: "last_checked_sec (tw st) \<le> now"
    and ce: "collect_expired now (tw st) = (ex, w)" and te: "take_expired ex (messages st) = (exs, ms)"
  shows "shard_ok s {} (st\<lparr>tw := w, messages := ms\<rparr>)"
    "distinct (map sm_id exs)" "length exs + length ms = length (messages st)"
    "\<forall>m \<in> set exs. free_id (st\<lparr>tw := w, messages := ms\<rparr>) (sm_id m) \<and> sm_id m \<in> seen_ids st \<and>
       shard_idx (sm_queue m) = s \<and> hm_get (messages st) (sm_id m) = Some m \<and>
       (\<exists>it. tw_leases (tw st) (sm_id m) = Some it \<and> if_expire_at it \<le> now)"
proof -
  note D = shard_okD [OF ok]
  let ?st = "st\<lparr>tw := w, messages := ms\<rparr>"
  from collect_expired_set [OF D(3) fr le ce] have dex: "distinct (map if_id ex)"
    and sex: "set ex = {it. \<exists>k. tw_leases (tw st) k = Some it \<and> if_expire_at it \<le> now}" by auto
  note c = collect_expired_exact [OF D(3) fr le ce]
  note t = take_expired_spec [OF dex D(2) te]
  have lid: "if_id it = k" if "tw_leases (tw st) k = Some it" for k it
    using that tw_leases_Some [of "tw st" k it] D(3) by (simp add: wheel_ok_def)
  have leased: "\<exists>it. tw_leases (tw st) j = Some it \<and> if_expire_at it \<le> now" if "j \<in> if_id ` set ex" for j
    using that lid by (auto simp: sex)
  have notq: "j \<notin> if_id ` set ex" if "hm_get (queues st) q = Some sq" "j \<in> set (sq_ids sq)" "hm_get (messages st) j = Some m" for q sq j m
    using D(6) [OF that(1,2)] that(3) leased [of j] by (auto simp: queued_ok_def)
  show "shard_ok s {} ?st"
  proof (rule shard_okI)
    show "hm_wf (queues ?st)" "hm_wf (messages ?st)" "wheel_ok (tw ?st)" using D(1) t c(3) by simp_all
  next
    fix p x assume "hm_get (queues ?st) p = Some x"
    then show "sq_ok x" using D(4) by simp
  next
    fix j n assume "hm_get (messages ?st) j = Some n"
    then have "hm_get (messages st) j = Some n" "j \<notin> if_id ` set ex" using t by (auto split: if_splits)
    then show "msg_ok s {} ?st j n" using D(5) [of j n] c(6) [of j] by (simp add: msg_ok_def)
  next
    fix p x j assume q: "hm_get (queues ?st) p = Some x" "j \<in> set (sq_ids x)"
    then have "queued_ok {} st p x j" using D(6) [of p x j] by simp
    with notq [of p x j] q t c(6) [of j] show "queued_ok {} ?st p x j"
      by (cases "hm_get (messages st) j") (auto simp: queued_ok_def)
  next
    fix j assume "tw_leases (tw ?st) j \<noteq> None"
    then have "j \<notin> if_id ` set ex" "tw_leases (tw st) j \<noteq> None" using c(6) [of j] by (auto split: if_splits)
    then show "lease_ok {} ?st j" using D(7) [of j] t by (simp add: lease_ok_def)
  qed
  have mem: "\<exists>it \<in> set ex. hm_get (messages st) (if_id it) = Some m \<and> sm_id m = if_id it" if "m \<in> set exs" for m
    using that t D(5) by (fastforce simp: msg_ok_def split: option.splits)
  have "map sm_id exs = filter (\<lambda>j. hm_get (messages st) j \<noteq> None) (map if_id ex)"
    unfolding conjunct1 [OF t]
    by (induction ex) (use D(5) in \<open>auto simp: msg_ok_def split: option.split\<close>)
  then show "distinct (map sm_id exs)" using dex by simp
  show "length exs + length ms = length (messages st)" using t by blast
  show "\<forall>m \<in> set exs. free_id ?st (sm_id m) \<and> sm_id m \<in> seen_ids st \<and> shard_idx (sm_queue m) = s \<and>
      hm_get (messages st) (sm_id m) = Some m \<and> (\<exists>it. tw_leases (tw st) (sm_id m) = Some it \<and> if_expire_at it \<le> now)"
  proof
    fix m assume "m \<in> set exs"
    then obtain it where it: "it \<in> set ex" "hm_get (messages st) (if_id it) = Some m" "sm_id m = if_id it"
      using mem by blast
    then have i: "sm_id m \<in> if_id ` set ex" by auto
    have "free_id ?st (sm_id m)"
      unfolding free_id_def using i t c(6) [of "sm_id m"] notq [of _ _ "sm_id m" m] it by auto
    with it D(5) [OF it(2)] leased [OF i]
    show "free_id ?st (sm_id m) \<and> sm_id m \<in> seen_ids st \<and> shard_idx (sm_queue m) = s \<and>
      hm_get (messages st) (sm_id m) = Some m \<and> (\<exists>it. tw_leases (tw st) (sm_id m) = Some it \<and> if_expire_at it \<le> now)"
      by (simp add: msg_ok_def)
  qed
qed

section \<open>All shards\<close>

definition shards_ok :: "shard_state list \<Rightarrow> bool" where
  "shards_ok ss \<longleftrightarrow> length ss = NUM_SHARDS \<and> (\<forall>t < NUM_SHARDS. shard_ok t {} (ss ! t))"

definition ram_count :: "shard_state list \<Rightarrow> nat" where
  "ram_count ss = sum_list (map (\<lambda>st. length (messages st)) ss)"

text \<open>The wheels have been swept at some time not after \<open>now\<close>, and hold no lease that was due then.\<close>

definition wheels_ok :: "u64 \<Rightarrow> shard_state list \<Rightarrow> bool" where
  "wheels_ok now ss \<longleftrightarrow> (\<forall>t < NUM_SHARDS. wheel_fresh (tw (ss ! t)) \<and> last_checked_sec (tw (ss ! t)) \<le> now)"

lemma shard_idx_less [simp]: "shard_idx q < NUM_SHARDS"
  by (simp add: shard_idx_def NUM_SHARDS_def)

lemma shards_okD: "shards_ok ss \<Longrightarrow> shard_ok (shard_idx q) {} (ss ! shard_idx q)"
  by (simp add: shards_ok_def)

lemma shards_ok_update:
  "shards_ok ss \<Longrightarrow> shard_ok s {} st \<Longrightarrow> shards_ok (ss[s := st])"
  by (cases "s < NUM_SHARDS") (simp_all add: shards_ok_def nth_list_update)

lemma wheels_ok_update:
  "wheels_ok now ss \<Longrightarrow> wheel_fresh (tw st) \<Longrightarrow> last_checked_sec (tw st) \<le> now \<Longrightarrow> length ss = NUM_SHARDS \<Longrightarrow>
   wheels_ok now (ss[s := st])"
  by (cases "s < NUM_SHARDS") (simp_all add: wheels_ok_def nth_list_update)

lemma wheels_ok_same:
  "wheels_ok now ss \<Longrightarrow> tw st = tw (ss ! s) \<Longrightarrow> length ss = NUM_SHARDS \<Longrightarrow> wheels_ok now (ss[s := st])"
  by (cases "s < NUM_SHARDS") (simp_all add: wheels_ok_def nth_list_update)

lemma ram_count_update:
  "s < length ss \<Longrightarrow> ram_count (ss[s := st]) + length (messages (ss ! s)) = ram_count ss + length (messages st)"
proof (induction ss arbitrary: s)
  case Nil
  then show ?case by simp
next
  case (Cons x ss)
  then show ?case by (cases s) (auto simp: ram_count_def)
qed

lemma ram_count_same:
  "length (messages st) = length (messages (ss ! s)) \<Longrightarrow> s < length ss \<Longrightarrow> ram_count (ss[s := st]) = ram_count ss"
  using ram_count_update [of s ss st] by simp

lemma free_id_admit:
  "free_id st j \<Longrightarrow> j \<noteq> i \<Longrightarrow> sm_id m = i \<Longrightarrow> free_id (store_msg m (enqueue q i v now st)) j"
  by (auto simp: free_id_def store_msg_def enqueue_def set_sq_insert_ids split: option.splits if_splits)

lemma free_id_tombstone:
  assumes ok: "shard_ok s L st" and free: "free_id st j"
  shows "free_id (tombstone q i st) j"
proof -
  have "j \<notin> set (sq_ids (mark_deleted i sq))" if "hm_get (queues st) q = Some sq" for sq
    using that free mark_deleted_ok(4) [OF shard_okD(4) [OF ok that], of i] by (auto simp: free_id_def)
  with free show ?thesis by (auto simp: free_id_def tombstone_queues split: if_splits)
qed

lemma free_id_frame [simp]:
  "free_id (st\<lparr>acked_ids := A\<rparr>) j = free_id st j" "free_id (st\<lparr>seen_ids := B\<rparr>) j = free_id st j"
  by (simp_all add: free_id_def)

lemma admit_shard:
  assumes ok: "shards_ok ss" and free: "free_id (ss ! s) (sm_id m)" and s: "s = shard_idx (sm_queue m)"
    and st_def: "st = (ss ! s)\<lparr>seen_ids := insert (sm_id m) (seen_ids (ss ! s))\<rparr>"
    and ss'_def: "ss' = ss[s := store_msg m (enqueue (sm_queue m) (sm_id m) v now st)]"
  shows "shards_ok ss'" "ram_count ss' = Suc (ram_count ss)"
    "\<And>u. tw (ss' ! u) = tw (ss ! u)"
    "\<And>u j. j \<noteq> sm_id m \<Longrightarrow> j \<in> seen_ids (ss' ! u) \<longleftrightarrow> j \<in> seen_ids (ss ! u)"
    "\<And>u j. j \<noteq> sm_id m \<Longrightarrow> free_id (ss ! u) j \<Longrightarrow> free_id (ss' ! u) j"
    "\<And>u. acked_ids (ss' ! u) = acked_ids (ss ! u)"
proof -
  have len: "s < length ss" using ok s by (simp add: shards_ok_def)
  from ok s have "shard_ok s {} (ss ! s)" by (simp add: shards_ok_def)
  from admit_ok [OF this free] s show "shards_ok ss'"
    unfolding ss'_def st_def by (intro shards_ok_update ok) simp
  show "ram_count ss' = Suc (ram_count ss)"
    using ram_count_update [OF len, of "store_msg m (enqueue (sm_queue m) (sm_id m) v now st)"] free
    by (simp add: ss'_def st_def admit_messages length_hm_insert free_id_def)
  show "tw (ss' ! u) = tw (ss ! u)" for u
    using len by (cases "u = s") (simp_all add: ss'_def st_def admit_messages)
  show "acked_ids (ss' ! u) = acked_ids (ss ! u)" for u
    using len by (cases "u = s") (simp_all add: ss'_def st_def admit_messages)
  show "j \<noteq> sm_id m \<Longrightarrow> j \<in> seen_ids (ss' ! u) \<longleftrightarrow> j \<in> seen_ids (ss ! u)" for u j
    using len by (cases "u = s") (simp_all add: ss'_def st_def admit_messages)
  show "j \<noteq> sm_id m \<Longrightarrow> free_id (ss ! u) j \<Longrightarrow> free_id (ss' ! u) j" for u j
    using len free_id_admit [of st j "sm_id m" m] by (cases "u = s") (simp_all add: ss'_def st_def)
qed

subsection \<open>Routing expired messages\<close>

text \<open>A message that has used up its deliveries moves to the dead-letter queue, which may live in
  another shard. The engine does not check that the id is unused there; this is what it relies on.\<close>

definition dlq_clear :: "nat \<Rightarrow> shard_state list \<Rightarrow> stored_msg \<Rightarrow> bool" where
  "dlq_clear s ss m \<longleftrightarrow>
     (sm_delivery_count m \<ge> sm_max_delivery m \<and> shard_idx (dlq_name (sm_queue m)) \<noteq> s \<longrightarrow>
      sm_id m \<notin> seen_ids (ss ! shard_idx (dlq_name (sm_queue m))))"

definition routable :: "nat \<Rightarrow> shard_state list \<Rightarrow> stored_msg \<Rightarrow> bool" where
  "routable s ss m \<longleftrightarrow>
     free_id (ss ! s) (sm_id m) \<and> sm_id m \<in> seen_ids (ss ! s) \<and> shard_idx (sm_queue m) = s \<and> dlq_clear s ss m"

definition expired_to :: "u64 \<Rightarrow> stored_msg \<Rightarrow> stored_msg" where
  "expired_to now m =
     (if sm_delivery_count m \<ge> sm_max_delivery m
      then m\<lparr>sm_queue := dlq_name (sm_queue m), sm_visible_at := now\<rparr> else m\<lparr>sm_visible_at := now\<rparr>)"

lemma expired_to_sel [simp]:
  "sm_id (expired_to now m) = sm_id m" "sm_payload (expired_to now m) = sm_payload m"
  "sm_delivery_count (expired_to now m) = sm_delivery_count m"
  by (simp_all add: expired_to_def)

lemma tombstone_shard:
  assumes ok: "shards_ok ss" and s: "s < NUM_SHARDS" and gone: "hm_get (messages (ss ! s)) i = None"
    and ss'_def: "ss' = ss[s := tombstone q i ((ss ! s)\<lparr>acked_ids := insert i (acked_ids (ss ! s))\<rparr>)]"
  shows "shards_ok ss'" "ram_count ss' = ram_count ss" "\<And>u. tw (ss' ! u) = tw (ss ! u)"
    "\<And>u. seen_ids (ss' ! u) = seen_ids (ss ! u)" "\<And>u j. free_id (ss ! u) j \<Longrightarrow> free_id (ss' ! u) j"
proof -
  let ?st = "(ss ! s)\<lparr>acked_ids := insert i (acked_ids (ss ! s))\<rparr>"
  have len: "s < length ss" using ok s by (simp add: shards_ok_def)
  have st: "shard_ok s {} ?st" using ok s by (intro shard_ok_acked) (simp add: shards_ok_def)
  from tombstone_ok [OF st, of i q] gone show "shards_ok ss'"
    unfolding ss'_def by (intro shards_ok_update ok) simp
  show "ram_count ss' = ram_count ss" unfolding ss'_def using len by (intro ram_count_same) simp_all
  show "tw (ss' ! u) = tw (ss ! u)" "seen_ids (ss' ! u) = seen_ids (ss ! u)" for u
    using len by (cases "u = s"; simp add: ss'_def)+
  show "free_id (ss ! u) j \<Longrightarrow> free_id (ss' ! u) j" for u j
    using len free_id_tombstone [OF st, of j q i] by (cases "u = s") (simp_all add: ss'_def)
qed

lemma route_expired_spec:
  assumes ok: "shards_ok ss" and s: "s < NUM_SHARDS" and r: "routable s ss m"
    and ss'_def: "ss' = route_expired now m ss"
  shows "shards_ok ss'" "ram_count ss' = Suc (ram_count ss)" "\<And>u. tw (ss' ! u) = tw (ss ! u)"
    "\<And>m'. sm_id m' \<noteq> sm_id m \<Longrightarrow> routable s ss m' \<Longrightarrow> routable s ss' m'"
proof -
  from r have free: "free_id (ss ! s) (sm_id m)" and seen: "sm_id m \<in> seen_ids (ss ! s)"
    and sq: "shard_idx (sm_queue m) = s" and clear: "dlq_clear s ss m" by (simp_all add: routable_def)
  have "shards_ok ss' \<and> ram_count ss' = Suc (ram_count ss) \<and> (\<forall>u. tw (ss' ! u) = tw (ss ! u)) \<and>
    (\<forall>m'. sm_id m' \<noteq> sm_id m \<longrightarrow> routable s ss m' \<longrightarrow> routable s ss' m')"
  proof (cases "sm_delivery_count m \<ge> sm_max_delivery m")
    case False
    let ?m = "m\<lparr>sm_visible_at := now\<rparr>"
    have "(ss ! s)\<lparr>seen_ids := insert (sm_id ?m) (seen_ids (ss ! s))\<rparr> = ss ! s"
      using seen by (simp add: insert_absorb)
    then have e: "ss' = ss[s := store_msg ?m (enqueue (sm_queue ?m) (sm_id ?m) now now
        ((ss ! s)\<lparr>seen_ids := insert (sm_id ?m) (seen_ids (ss ! s))\<rparr>))]"
      using False sq by (simp add: ss'_def route_expired_def Let_def)
    have "free_id (ss ! s) (sm_id ?m)" "s = shard_idx (sm_queue ?m)" using free sq by simp_all
    note a = admit_shard [OF ok this refl e]
    from a show ?thesis by (auto simp: routable_def dlq_clear_def)
  next
    case True
    let ?m = "m\<lparr>sm_queue := dlq_name (sm_queue m), sm_visible_at := now\<rparr>"
    let ?t = "shard_idx (dlq_name (sm_queue m))"
    let ?ss = "ss[s := tombstone (sm_queue m) (sm_id m) ((ss ! s)\<lparr>acked_ids := insert (sm_id m) (acked_ids (ss ! s))\<rparr>)]"
    have gone: "hm_get (messages (ss ! s)) (sm_id m) = None" using free by (simp add: free_id_def)
    note b = tombstone_shard [OF ok s gone refl [of ?ss]]
    have e: "ss' = ?ss[?t := store_msg ?m (enqueue (sm_queue ?m) (sm_id ?m) now now
        ((?ss ! ?t)\<lparr>seen_ids := insert (sm_id ?m) (seen_ids (?ss ! ?t))\<rparr>))]"
      using True sq by (simp add: ss'_def route_expired_def Let_def)
    have "free_id (?ss ! ?t) (sm_id m)"
    proof (cases "?t = s")
      case True
      with b(5) [OF free] show ?thesis by simp
    next
      case False
      with clear True have "sm_id m \<notin> seen_ids (ss ! ?t)" by (simp add: dlq_clear_def)
      from b(5) [OF unseen_free [OF shards_okD [OF ok] this]] show ?thesis .
    qed
    then have "free_id (?ss ! ?t) (sm_id ?m)" "?t = shard_idx (sm_queue ?m)" by simp_all
    note a = admit_shard [OF b(1) this refl e]
    from a b show ?thesis by (auto simp: routable_def dlq_clear_def)
  qed
  then show "shards_ok ss'" "ram_count ss' = Suc (ram_count ss)" "\<And>u. tw (ss' ! u) = tw (ss ! u)"
    "\<And>m'. sm_id m' \<noteq> sm_id m \<Longrightarrow> routable s ss m' \<Longrightarrow> routable s ss' m'" by blast+
qed

lemma fold_route_spec:
  "shards_ok ss \<Longrightarrow> s < NUM_SHARDS \<Longrightarrow> distinct (map sm_id ms) \<Longrightarrow> \<forall>m \<in> set ms. routable s ss m \<Longrightarrow>
   shards_ok (fold (route_expired now) ms ss) \<and>
   ram_count (fold (route_expired now) ms ss) = ram_count ss + length ms \<and>
   (\<forall>u. tw (fold (route_expired now) ms ss ! u) = tw (ss ! u))"
proof (induction ms arbitrary: ss)
  case Nil
  then show ?case by simp
next
  case (Cons m ms)
  then have "routable s ss m" by simp
  note r = route_expired_spec [OF Cons.prems(1,2) this refl [of "route_expired now m ss"]]
  have "\<forall>m' \<in> set ms. routable s (route_expired now m ss) m'"
    using Cons.prems(3,4) r(4) by (metis (no_types, lifting) distinct.simps(2) image_eqI image_set
        list.set_intros(2) list.simps(9))
  with Cons.IH [OF r(1) Cons.prems(2)] Cons.prems(3) r(2,3) show ?case by simp
qed

definition poll_clear :: "u64 \<Rightarrow> nat \<Rightarrow> shard_state list \<Rightarrow> bool" where
  "poll_clear now s ss \<longleftrightarrow>
     (\<forall>i m it. hm_get (messages (ss ! s)) i = Some m \<longrightarrow> tw_leases (tw (ss ! s)) i = Some it \<longrightarrow>
        if_expire_at it \<le> now \<longrightarrow> dlq_clear s ss m)"

lemma collect_and_route_spec:
  assumes ok: "shards_ok ss" and w: "wheels_ok now ss" and now: "now \<noteq> 0" and s: "s < NUM_SHARDS"
    and clear: "poll_clear now s ss" and ss': "ss' = collect_and_route now s ss"
  shows "shards_ok ss'" "ram_count ss' = ram_count ss" "wheels_ok now ss'"
    "\<And>u. tw (ss' ! u) = (if u = s then snd (collect_expired now (tw (ss ! s))) else tw (ss ! u))"
proof -
  obtain ex w' where ce: "collect_expired now (tw (ss ! s)) = (ex, w')" by (metis prod.exhaust)
  obtain exs ms where te: "take_expired ex (messages (ss ! s)) = (exs, ms)" by (metis prod.exhaust)
  let ?st = "(ss ! s)\<lparr>tw := w', messages := ms\<rparr>"
  have e: "ss' = fold (route_expired now) exs (ss[s := ?st])"
    by (simp add: ss' collect_and_route_def Let_def ce te)
  from ok s have sok: "shard_ok s {} (ss ! s)" and len: "length ss = NUM_SHARDS" by (simp_all add: shards_ok_def)
  from w s have fr: "wheel_fresh (tw (ss ! s))" and le: "last_checked_sec (tw (ss ! s)) \<le> now"
    by (simp_all add: wheels_ok_def)
  note c = collect_ok [OF sok fr le ce te]
  have "\<forall>m \<in> set exs. routable s (ss[s := ?st]) m"
  proof
    fix m assume "m \<in> set exs"
    with c(4) have m: "free_id ?st (sm_id m)" "sm_id m \<in> seen_ids (ss ! s)" "shard_idx (sm_queue m) = s"
      "\<exists>it. hm_get (messages (ss ! s)) (sm_id m) = Some m \<and> tw_leases (tw (ss ! s)) (sm_id m) = Some it \<and> if_expire_at it \<le> now"
      by blast+
    with clear have "dlq_clear s ss m" by (auto simp: poll_clear_def)
    with m s len show "routable s (ss[s := ?st]) m"
      by (simp add: routable_def dlq_clear_def nth_list_update)
  qed
  note f = fold_route_spec [OF shards_ok_update [OF ok c(1)] s c(2) this, of now, folded e]
  show "shards_ok ss'" using f by blast
  have "ram_count (ss[s := ?st]) + length exs = ram_count ss"
    using ram_count_update [of s ss ?st] c(3) s len by simp
  with f show "ram_count ss' = ram_count ss" by simp
  show t: "tw (ss' ! u) = (if u = s then snd (collect_expired now (tw (ss ! s))) else tw (ss ! u))" for u
    using f s len by (simp add: ce nth_list_update)
  note x = collect_expired_exact [OF shard_okD(3) [OF sok] fr le ce]
  show "wheels_ok now ss'"
    using w now x(4,5) by (simp add: wheels_ok_def t ce)
qed

section \<open>Paging in\<close>

definition page_ok :: "page_state \<Rightarrow> bool" where
  "page_ok g \<longleftrightarrow> shards_ok (pg_shards g) \<and> pg_total g + pg_added g = word_of_nat (ram_count (pg_shards g))"

lemma forget_shard:
  assumes ok: "shards_ok ss" and s: "s < NUM_SHARDS" and f: "forget_msg q i (ss ! s) = (b, st)"
  shows "shards_ok (ss[s := st])" "ram_count ss = ram_count (ss[s := st]) + (if b then 1 else 0)"
    "\<And>u. tw (ss[s := st] ! u) = tw (ss ! u)"
proof -
  from ok s have sok: "shard_ok s {} (ss ! s)" and len: "s < length ss" by (simp_all add: shards_ok_def)
  note F = forget_msg_spec [OF sok f]
  show "shards_ok (ss[s := st])" by (rule shards_ok_update [OF ok F(1)])
  have "length (messages (ss ! s)) = length (messages st) + (if b then 1 else 0)"
  proof (cases b)
    case True
    with F(2) obtain m where "hm_get (messages (ss ! s)) i = Some m" by auto
    moreover then have "0 < length (messages (ss ! s))" by (cases "messages (ss ! s)") auto
    ultimately show ?thesis using F(3) True length_hm_remove [OF shard_okD(2) [OF sok], of i] by simp
  qed (simp add: F(3))
  with ram_count_update [OF len, of st] show "ram_count ss = ram_count (ss[s := st]) + (if b then 1 else 0)" by simp
  show "tw (ss[s := st] ! u) = tw (ss ! u)" for u using len F(4) by (cases "u = s") simp_all
qed

lemma page_record_ok:
  assumes ok: "page_ok g" and s: "shard_idx (wr_queue_name r) = s"
    and g': "g' = page_record opts now tq s r g"
  shows "page_ok g'" "\<And>u. tw (pg_shards g' ! u) = tw (pg_shards g ! u)"
proof -
  have s': "s < NUM_SHARDS" using s by auto
  have ss: "shards_ok (pg_shards g)" using ok by (simp add: page_ok_def)
  have "page_ok g' \<and> (\<forall>u. tw (pg_shards g' ! u) = tw (pg_shards g ! u))"
  proof (cases r)
    case (WalPush i q v p)
    let ?st = "pg_shards g ! s"
    show ?thesis
    proof (cases "v \<le> now + HOT_DELAY_HORIZON_SEC \<and> \<not> hm_contains (messages ?st) i \<and> i \<notin> acked_ids ?st")
      case True
      let ?m = "\<lparr>sm_id = i, sm_queue = q, sm_payload = p, sm_visible_at = v,
                 sm_delivery_count = 0, sm_max_delivery = max_delivery_count opts\<rparr>"
      from ss s' have "shard_ok s {} ?st" by (simp add: shards_ok_def)
      from unknown_free [OF this, of i] True have fr: "free_id ?st (sm_id ?m)" by (simp add: hm_contains_def)
      have sm: "s = shard_idx (sm_queue ?m)" using s WalPush by simp
      have "pg_shards g' = (pg_shards g)[s := store_msg ?m (enqueue (sm_queue ?m) (sm_id ?m) v now
          (?st\<lparr>seen_ids := insert (sm_id ?m) (seen_ids ?st)\<rparr>))]"
        "pg_total g' = pg_total g" "pg_added g' = pg_added g + 1"
        using True WalPush by (simp_all add: g' Let_def)
      with admit_shard [OF ss fr sm refl, of "pg_shards g'" v now] ok show ?thesis
        by (simp add: page_ok_def algebra_simps)
    next
      case False
      with WalPush ok show ?thesis by (auto simp: g' Let_def)
    qed
  next
    case (WalAck i q)
    obtain b st where f: "forget_msg q i (pg_shards g ! s) = (b, st)" by (metis prod.exhaust)
    note F = forget_shard [OF ss s' f]
    have "pg_shards g' = (pg_shards g)[s := st]" "pg_added g' = pg_added g"
      "pg_total g' = (if b then pg_total g - 1 else pg_total g)"
      using WalAck f by (simp_all add: g')
    with F ok show ?thesis by (cases b) (simp_all add: page_ok_def diff_add_eq)
  qed
  then show "page_ok g'" "\<And>u. tw (pg_shards g' ! u) = tw (pg_shards g ! u)" by blast+
qed

lemma page_shard_ok:
  "page_ok g \<Longrightarrow> page_ok (page_shard opts now tq rs s g) \<and>
     (\<forall>u. tw (pg_shards (page_shard opts now tq rs s g) ! u) = tw (pg_shards g ! u))"
  unfolding page_shard_def
proof (induction rs arbitrary: g)
  case Nil
  then show ?case by simp
next
  case (Cons r rs)
  show ?case
  proof (cases "shard_idx (wr_queue_name r) = s")
    case True
    note p = page_record_ok [OF Cons.prems True refl [of "page_record opts now tq s r g"]]
    from Cons.IH [OF p(1)] p(2) True show ?thesis by simp
  next
    case False
    with Cons show ?thesis by simp
  qed
qed

lemma fold_page_shard_ok:
  "page_ok g \<Longrightarrow> page_ok (fold (page_shard opts now tq rs) ss g) \<and>
     (\<forall>u. tw (pg_shards (fold (page_shard opts now tq rs) ss g) ! u) = tw (pg_shards g ! u))"
proof (induction ss arbitrary: g)
  case Nil
  then show ?case by simp
next
  case (Cons s ss)
  from page_shard_ok [OF Cons.prems, of opts now tq rs s] Cons.IH [of "page_shard opts now tq rs s g"]
  show ?case by simp
qed

section \<open>The engine\<close>

definition engine_ok :: "u64 \<Rightarrow> queue_engine \<Rightarrow> bool" where
  "engine_ok now e \<longleftrightarrow>
     shards_ok (shards e) \<and> wheels_ok now (shards e) \<and>
     total_messages_in_ram e = word_of_nat (ram_count (shards e))"

lemma engine_ok_mono: "engine_ok now e \<Longrightarrow> now \<le> now' \<Longrightarrow> engine_ok now' e"
  by (auto simp: engine_ok_def wheels_ok_def intro: order.trans)

lemma engine_ok_frame:
  "shards e' = shards e \<Longrightarrow> total_messages_in_ram e' = total_messages_in_ram e \<Longrightarrow>
   engine_ok now e \<Longrightarrow> engine_ok now e'"
  by (simp add: engine_ok_def)

lemma wheels_ok_tw:
  "wheels_ok now ss \<Longrightarrow> (\<And>u. tw (ss' ! u) = tw (ss ! u)) \<Longrightarrow> wheels_ok now ss'"
  by (simp add: wheels_ok_def)

lemma check_and_trigger_compaction_frame:
  "shards (snd (check_and_trigger_compaction P e)) = shards e"
  "total_messages_in_ram (snd (check_and_trigger_compaction P e)) = total_messages_in_ram e"
  "options (snd (check_and_trigger_compaction P e)) = options e"
  "base_epoch_sec (snd (check_and_trigger_compaction P e)) = base_epoch_sec e"
  by (auto simp: check_and_trigger_compaction_def split: prod.split sum.split)

lemma compact_then_frame:
  "snd (compact_then P x e) = snd (check_and_trigger_compaction P e)"
  by (auto simp: compact_then_def split: prod.split sum.split)

lemma compact_then_ok: "engine_ok now e \<Longrightarrow> engine_ok now (snd (compact_then P x e))"
  by (rule engine_ok_frame [of _ e])
    (simp_all add: compact_then_frame check_and_trigger_compaction_frame)

lemma compact_then_options [simp]:
  "options (snd (compact_then P x e)) = options e"
  "base_epoch_sec (snd (compact_then P x e)) = base_epoch_sec e"
  "shards (snd (compact_then P x e)) = shards e"
  "total_messages_in_ram (snd (compact_then P x e)) = total_messages_in_ram e"
  by (simp_all add: compact_then_frame check_and_trigger_compaction_frame)

subsection \<open>Paging and polling\<close>

lemma apply_page_ok:
  assumes ok: "engine_ok t e" and ap: "apply_page now q rs e = (n, e')"
  shows "engine_ok t e'" "\<And>u. tw (shards e' ! u) = tw (shards e ! u)"
proof -
  let ?init = "\<lparr>pg_shards = shards e, pg_total = total_messages_in_ram e, pg_added = 0, pg_target_added = 0\<rparr>"
  let ?g = "fold (page_shard (options e) now q rs) [0..<NUM_SHARDS] ?init"
  have "page_ok ?init" using ok by (simp add: page_ok_def engine_ok_def)
  note f = fold_page_shard_ok [OF this, of "options e" now q rs "[0..<NUM_SHARDS]"]
  from ap have e': "shards e' = pg_shards ?g"
    "total_messages_in_ram e' = pg_total ?g + pg_added ?g"
    by (auto simp: apply_page_def Let_def word_gt_0)
  show t: "tw (shards e' ! u) = tw (shards e ! u)" for u
    using conjunct2 [OF f] by (simp add: e')
  have "shards_ok (shards e')" "total_messages_in_ram e' = word_of_nat (ram_count (shards e'))"
    using conjunct1 [OF f] by (simp_all only: e' page_ok_def)
  moreover have "wheels_ok t (shards e')"
    by (rule wheels_ok_tw [OF _ t]) (use ok in \<open>simp add: engine_ok_def\<close>)
  ultimately show "engine_ok t e'" by (simp add: engine_ok_def)
qed

lemma page_in_loop_ok:
  "engine_ok t e \<Longrightarrow>
   engine_ok t (page_in_loop P q now n fl e) \<and> options (page_in_loop P q now n fl e) = options e \<and>
   base_epoch_sec (page_in_loop P q now n fl e) = base_epoch_sec e \<and>
   ulids_drawn (page_in_loop P q now n fl e) = ulids_drawn e \<and>
   (\<forall>u. tw (shards (page_in_loop P q now n fl e) ! u) = tw (shards e ! u))"
proof (induction P q now n fl e rule: page_in_loop.induct)
  case (1 P q now n fl e)
  obtain rs off where r: "read_entries_from_offset P (disk e) (spill_read_offset e) n = (rs, off)"
    by (metis prod.exhaust)
  let ?e1 = "e\<lparr>spill_read_offset := off\<rparr>" and ?ef = "e\<lparr>disk := flush P (disk e)\<rparr>"
  have ok1: "engine_ok t ?e1" "engine_ok t ?ef" "engine_ok t (e\<lparr>spill_read_offset := 0\<rparr>)"
    by (rule engine_ok_frame [OF _ _ 1(4)]; simp)+
  show ?case
  proof (cases "rs \<noteq> []")
    case False
    show ?thesis
    proof (cases fl)
      case True
      then have "page_in_loop P q now n fl e = (if off > 0 then e\<lparr>spill_read_offset := 0\<rparr> else e)"
        using False r by (subst page_in_loop.simps) simp
      with ok1(3) 1(4) show ?thesis by simp
    next
      case fl: False
      then have "page_in_loop P q now n fl e = page_in_loop P q now n True ?ef"
        using False r by (subst page_in_loop.simps) simp
      with 1(3) [OF refl r [symmetric] _ fl ok1(2)] False show ?thesis by simp
    qed
  next
    case True
    show ?thesis
    proof (cases "\<exists>r \<in> set rs. is_push r")
      case False
      then have "page_in_loop P q now n fl e = page_in_loop P q now n fl ?e1"
        using True r by (subst page_in_loop.simps) simp
      with 1(1) [OF refl r [symmetric] True refl False ok1(1)] show ?thesis by simp
    next
      case push: True
      obtain ta e2 where ap: "apply_page now q rs ?e1 = (ta, e2)" by (metis prod.exhaust)
      note a = apply_page_ok [OF ok1(1) ap]
      have fr: "options e2 = options e" "base_epoch_sec e2 = base_epoch_sec e" "ulids_drawn e2 = ulids_drawn e"
        using ap apply_page_frame [of now q rs ?e1] by simp_all
      show ?thesis
      proof (cases "ta > 0 \<or> total_messages_in_ram e2 \<ge> max_hot_messages_in_ram (options e2)")
        case stop: True
        then have "page_in_loop P q now n fl e = e2"
          using True push r ap by (subst page_in_loop.simps) simp
        with a fr show ?thesis by simp
      next
        case False
        then have "page_in_loop P q now n fl e = page_in_loop P q now n fl e2"
          using True push r ap by (subst page_in_loop.simps) simp
        with 1(2) [OF refl r [symmetric] True refl _ refl ap [symmetric] False a(1)] push a fr show ?thesis by simp
      qed
    qed
  qed
qed

lemma expire_at_later:
  fixes now :: u64
  assumes "unat now + unat t < 2 ^ 64" "t \<noteq> 0"
  shows "now < now + ucast (t :: u32)"
proof -
  have "unat t < 2 ^ 32" using unsigned_less [of t] by simp
  then have u: "unat (ucast t :: u64) = unat t" by (simp add: unsigned_ucast_eq take_bit_nat_eq_self)
  have "unat (now + ucast t) = unat now + unat t"
    using assms(1) unat_add_lem [of now "ucast t :: u64"] by (simp add: u)
  moreover have "0 < unat t" using assms(2) by (simp add: unat_gt_0)
  ultimately show ?thesis by (simp add: word_less_nat_alt)
qed

text \<open>When a poll may run: the clock has not gone back, and the sums of times do not overflow.\<close>

definition poll_time :: "packages \<Rightarrow> u64 \<Rightarrow> u64 \<Rightarrow> u32 \<Rightarrow> queue_engine \<Rightarrow> bool" where
  "poll_time P t now vis e \<longleftrightarrow>
     iter_order (iter_secs P) \<and> t \<le> now \<and> now \<noteq> 0 \<and> unat now + 300 < 2 ^ 64 \<and>
     unat now + unat (poll_timeout (options e) vis) < 2 ^ 64 \<and> poll_timeout (options e) vis \<noteq> 0"

text \<open>The three phases of a poll: expire, page in, claim and lease. \<open>prepared\<close> is the engine after the
  first two.\<close>

definition prepared :: "packages \<Rightarrow> u64 \<Rightarrow> string \<Rightarrow> u32 \<Rightarrow> queue_engine \<Rightarrow> queue_engine" where
  "prepared P now q maxm e =
     (let e1 = e\<lparr>shards := collect_and_route now (shard_idx q) (shards e)\<rparr>;
          threshold = max (unat maxm * 2) 200
      in if needs_page_in q threshold (shards e1 ! shard_idx q) then page_in_cold_spill P q now threshold e1 else e1)"

lemma prepared_ok:
  assumes ok: "engine_ok t e" and time: "poll_time P t now vis e" and clear: "poll_clear now (shard_idx q) (shards e)"
    and e2: "e2 = prepared P now q maxm e"
  shows "engine_ok now e2 \<and> options e2 = options e \<and> base_epoch_sec e2 = base_epoch_sec e \<and> ulids_drawn e2 = ulids_drawn e \<and>
    (\<forall>u. tw (shards e2 ! u) =
       (if u = shard_idx q then snd (collect_expired now (tw (shards e ! shard_idx q))) else tw (shards e ! u)))"
proof -
  let ?s = "shard_idx q" and ?e1 = "e\<lparr>shards := collect_and_route now (shard_idx q) (shards e)\<rparr>"
  let ?thr = "max (unat maxm * 2) 200"
  from engine_ok_mono [OF ok] time have okn: "engine_ok now e" and now0: "now \<noteq> 0" by (simp_all add: poll_time_def)
  then have "shards_ok (shards e)" "wheels_ok now (shards e)" by (simp_all add: engine_ok_def)
  note c = collect_and_route_spec [OF this now0 shard_idx_less clear refl]
  have ok1: "engine_ok now ?e1" using c okn by (simp add: engine_ok_def)
  note p = page_in_loop_ok [OF ok1, of P q now "max ?thr 1000" False]
  show ?thesis
  proof (cases "needs_page_in q ?thr (shards ?e1 ! ?s)")
    case True
    with p c(4) show ?thesis by (simp add: e2 prepared_def page_in_cold_spill_def)
  next
    case False
    with ok1 c(4) show ?thesis by (simp add: e2 prepared_def)
  qed
qed

lemma poll_prepared:
  assumes "now = current_time_sec el e" "e2 = prepared P now q maxm e"
    and "claim_messages P now q (unat maxm) (shards e2 ! shard_idx q) = (is, st)"
  shows "poll P el q vis maxm e =
      (let l = fold (lease_one P q (now + ucast (poll_timeout (options e) vis))) is
                 \<lparr>ls_messages = messages st, ls_wheel = tw st, ls_drawn = ulids_drawn e2, ls_polled = []\<rparr>
       in (Inr (ls_polled l),
           (set_shard (shard_idx q) (st\<lparr>messages := ls_messages l, tw := ls_wheel l\<rparr>) e2)\<lparr>ulids_drawn := ls_drawn l\<rparr>))"
  using assms(3) unfolding poll_def Let_def assms(1) [symmetric] prepared_def [unfolded Let_def, symmetric] assms(2) [symmetric]
  by simp

lemma poll_phases:
  assumes ok: "engine_ok t e" and now: "now = current_time_sec el e" and time: "poll_time P t now vis e"
    and clear: "poll_clear now (shard_idx q) (shards e)"
  obtains e2 "is" st where
    "engine_ok now e2" "options e2 = options e" "base_epoch_sec e2 = base_epoch_sec e" "ulids_drawn e2 = ulids_drawn e"
    "\<forall>u. tw (shards e2 ! u) =
       (if u = shard_idx q then snd (collect_expired now (tw (shards e ! shard_idx q))) else tw (shards e ! u))"
    "claim_messages P now q (unat maxm) (shards e2 ! shard_idx q) = (is, st)"
    "poll P el q vis maxm e =
       (let l = fold (lease_one P q (now + ucast (poll_timeout (options e) vis))) is
                  \<lparr>ls_messages = messages st, ls_wheel = tw st, ls_drawn = ulids_drawn e2, ls_polled = []\<rparr>
        in (Inr (ls_polled l),
            (set_shard (shard_idx q) (st\<lparr>messages := ls_messages l, tw := ls_wheel l\<rparr>) e2)\<lparr>ulids_drawn := ls_drawn l\<rparr>))"
proof -
  obtain "is" st where cl: "claim_messages P now q (unat maxm) (shards (prepared P now q maxm e) ! shard_idx q) = (is, st)"
    by (metis prod.exhaust)
  with that prepared_ok [OF ok time clear refl] poll_prepared [OF now refl cl] show thesis by blast
qed

lemma poll_spec:
  assumes ok: "engine_ok t e" and now: "now = current_time_sec el e" and time: "poll_time P t now vis e"
    and clear: "poll_clear now (shard_idx q) (shards e)"
    and w: "w = snd (collect_expired now (tw (shards e ! shard_idx q)))"
    and ex: "expire_at = now + ucast (poll_timeout (options e) vis)"
    and p: "poll P el q vis maxm e = (res, e')"
  obtains ms ids where
    "engine_ok now e'" "options e' = options e" "base_epoch_sec e' = base_epoch_sec e"
    "res = Inr (map (\<lambda>(n, i). handed_out P i (the (hm_get ms i)) n) (enumerate (ulids_drawn e) ids))"
    "distinct ids" "length ids \<le> unat maxm"
    "\<And>i. i \<in> set ids \<Longrightarrow> tw_leases w i = None \<and>
       (\<exists>m. hm_get ms i = Some m \<and> sm_id m = i \<and> sm_queue m = q \<and>
            hm_get (messages (shards e' ! shard_idx q)) i = Some (redelivered m))"
    "\<And>j. j \<notin> set ids \<Longrightarrow> tw_leases (tw (shards e' ! shard_idx q)) j = tw_leases w j"
    "\<And>n i. (n, i) \<in> set (enumerate (ulids_drawn e) ids) \<Longrightarrow>
       tw_leases (tw (shards e' ! shard_idx q)) i = Some (new_lease P q expire_at i n)"
proof -
  let ?s = "shard_idx q"
  obtain e2 "is" st where ok2: "engine_ok now e2" and fr: "options e2 = options e"
    "base_epoch_sec e2 = base_epoch_sec e" "ulids_drawn e2 = ulids_drawn e"
    and tw2: "\<forall>u. tw (shards e2 ! u) = (if u = ?s then w else tw (shards e ! u))"
    and cl: "claim_messages P now q (unat maxm) (shards e2 ! ?s) = (is, st)"
    and po: "poll P el q vis maxm e =
       (let l = fold (lease_one P q expire_at) is
                  \<lparr>ls_messages = messages st, ls_wheel = tw st, ls_drawn = ulids_drawn e2, ls_polled = []\<rparr>
        in (Inr (ls_polled l),
            (set_shard ?s (st\<lparr>messages := ls_messages l, tw := ls_wheel l\<rparr>) e2)\<lparr>ulids_drawn := ls_drawn l\<rparr>))"
    unfolding w ex by (rule poll_phases [OF ok now time clear, where maxm = maxm])
  define l0 where "l0 = \<lparr>ls_messages = messages st, ls_wheel = tw st, ls_drawn = ulids_drawn e2, ls_polled = []\<rparr>"
  define l where "l = fold (lease_one P q expire_at) is l0"
  let ?st = "st\<lparr>messages := ls_messages l, tw := ls_wheel l\<rparr>"
  have l0: "ls_messages l0 = messages st" "ls_wheel l0 = tw st" "ls_drawn l0 = ulids_drawn e" "ls_polled l0 = []"
    using fr by (simp_all add: l0_def)
  from po p have res: "res = Inr (ls_polled l)" and e': "e' = (set_shard ?s ?st e2)\<lparr>ulids_drawn := ls_drawn l\<rparr>"
    by (simp_all add: l_def l0_def Let_def)
  from ok2 have ss2: "shards_ok (shards e2)" and w2: "wheels_ok now (shards e2)" and len: "length (shards e2) = NUM_SHARDS"
    by (simp_all add: engine_ok_def shards_ok_def)
  from time have ord: "iter_order (iter_secs P)" and b: "unat now + 300 < 2 ^ 64" by (simp_all add: poll_time_def)
  note c = claim_messages_spec [OF shards_okD [OF ss2] ord b cl]
  have twst: "tw st = w" using c(4) tw2 by simp
  let ?ids = "in_ram (messages st) is"
  have "shard_ok ?s (set is \<inter> dom (hm_get (ls_messages l0))) (st\<lparr>messages := ls_messages l0, tw := ls_wheel l0\<rparr>)"
  proof -
    have "shard_ok ?s (set is \<inter> dom (hm_get (messages st))) st" using c(1) by (simp only: c(3))
    then show ?thesis by (simp add: l0)
  qed
  note L = fold_lease_ok [OF c(2) this l_def, unfolded l0 twst]
  note P = fold_lease_polled [OF c(2), of P q expire_at l0, folded l_def, unfolded l0]
  have lease_new: "tw_leases (ls_wheel l) i = Some (new_lease P q expire_at i n)"
    if "(n, i) \<in> set (enumerate (ulids_drawn e) ?ids)" for n i
    using L that by blast
  have lease_old: "tw_leases (ls_wheel l) j = tw_leases w j" if "j \<notin> set ?ids" for j
    using L that by blast
  have stl: "shard_ok ?s {} ?st" using L by blast
  have lcw: "last_checked_sec w = now"
  proof -
    from engine_ok_mono [OF ok] time have "engine_ok now e" by (simp add: poll_time_def)
    then have "wheel_ok (tw (shards e ! ?s))" "wheel_fresh (tw (shards e ! ?s))" "last_checked_sec (tw (shards e ! ?s)) \<le> now"
      using shard_okD(3) [OF shards_okD] by (auto simp: engine_ok_def wheels_ok_def)
    from collect_expired_exact(4) [OF this] show ?thesis by (metis w prod.collapse)
  qed
  have tws: "tw (shards e2 ! ?s) = w" using tw2 by simp
  have "wheel_ok (tw (shards e2 ! ?s))" "wheel_fresh (tw (shards e2 ! ?s))"
    using shard_okD(3) [OF shards_okD [OF ss2, of q]] w2 shard_idx_less [of q] unfolding wheels_ok_def by blast+
  then have wf: "wheel_ok w" "wheel_fresh w" by (simp_all only: tws)
  have lcl: "last_checked_sec (ls_wheel l) = now" using L lcw by blast
  have "now < expire_at" unfolding ex using time by (intro expire_at_later) (simp_all add: poll_time_def)
  have fresh: "wheel_fresh (ls_wheel l)"
  proof -
    have "now < if_expire_at it \<and> now \<noteq> 0" if "tw_leases (ls_wheel l) k = Some it" for k it
    proof (cases "k \<in> set ?ids")
      case True
      then obtain n where "(n, k) \<in> set (enumerate (ulids_drawn e) ?ids)"
        by (metis in_set_impl_in_set_zip2 length_upt enumerate_eq_zip add_diff_cancel_left')
      from lease_new [OF this] that \<open>now < expire_at\<close> time show ?thesis
        by (auto simp: new_lease_def poll_time_def)
    next
      case False
      with lease_old that have "tw_leases w k = Some it" by simp
      with wf wheel_fresh_leases [OF wf(1)] lcw show ?thesis by blast
    qed
    then show ?thesis using wheel_fresh_leases [of "ls_wheel l"] shard_okD(3) [OF stl] lcl by simp
  qed
  have sh: "shards e' ! ?s = ?st" by (simp add: e' len)
  have eok: "engine_ok now e'"
  proof -
    have "shards_ok (shards e')" using shards_ok_update [OF ss2 stl] by (simp add: e')
    moreover have "wheels_ok now (shards e')"
      using wheels_ok_update [OF w2, of ?st ?s] fresh lcl len by (simp add: e')
    moreover have "ram_count (shards e') = ram_count (shards e2)"
      using ram_count_same [of ?st "shards e2" ?s] P c(3) len by (simp add: e')
    ultimately show ?thesis using ok2 by (simp add: engine_ok_def e')
  qed
  have ids: "tw_leases w i = None \<and> (\<exists>m. hm_get (messages st) i = Some m \<and> sm_id m = i \<and> sm_queue m = q \<and>
      hm_get (messages (shards e' ! ?s)) i = Some (redelivered m))" if "i \<in> set ?ids" for i
  proof -
    from that obtain m where i: "i \<in> set is" and m: "hm_get (messages st) i = Some m"
      by (auto simp: hm_contains_def)
    have "\<not> lease_ok (set is \<inter> dom (hm_get (messages (shards e2 ! ?s)))) st i"
      using i m c(3) by (auto simp: lease_ok_def)
    with shard_okD(7) [OF c(1), of i] have "tw_leases w i = None" using twst by (cases "tw_leases w i") auto
    moreover have "sm_queue m = q" using c(8) [OF i] m c(3) by simp
    moreover have "sm_id m = i" using shard_okD(5) [OF shards_okD [OF ss2, of q], of i m] m c(3) by (simp add: msg_ok_def)
    moreover have "hm_get (ls_messages l) i = Some (redelivered m)" using P i m by simp
    ultimately show ?thesis using m sh by simp
  qed
  show thesis
  proof (rule that [of "messages st" ?ids])
    show "res = Inr (map (\<lambda>(n, i). handed_out P i (the (hm_get (messages st) i)) n) (enumerate (ulids_drawn e) ?ids))"
      using P res by simp
    show "distinct ?ids" using c(2) by simp
    show "length ?ids \<le> unat maxm" using c(7) length_filter_le [of "hm_contains (messages st)" "is"] by linarith
  qed (use eok fr ids lease_old lease_new sh in \<open>simp_all add: e'\<close>)
qed

subsection \<open>Pushing\<close>

lemma seen_shard:
  assumes ok: "shards_ok ss"
  shows "shards_ok (ss[s := (ss ! s)\<lparr>seen_ids := insert i (seen_ids (ss ! s))\<rparr>])"
    "ram_count (ss[s := (ss ! s)\<lparr>seen_ids := insert i (seen_ids (ss ! s))\<rparr>]) = ram_count ss"
    "wheels_ok t ss \<Longrightarrow> wheels_ok t (ss[s := (ss ! s)\<lparr>seen_ids := insert i (seen_ids (ss ! s))\<rparr>])"
proof -
  let ?st = "(ss ! s)\<lparr>seen_ids := insert i (seen_ids (ss ! s))\<rparr>"
  have len: "length ss = NUM_SHARDS" using ok by (simp add: shards_ok_def)
  show "shards_ok (ss[s := ?st])"
  proof (cases "s < NUM_SHARDS")
    case True
    with ok show ?thesis by (intro shards_ok_update shard_ok_seen) (simp_all add: shards_ok_def)
  next
    case False
    with ok len show ?thesis by (simp add: list_update_beyond)
  qed
  show "ram_count (ss[s := ?st]) = ram_count ss"
    by (cases "s < length ss") (simp_all add: ram_count_same list_update_beyond)
  show "wheels_ok t ss \<Longrightarrow> wheels_ok t (ss[s := ?st])" using len by (intro wheels_ok_same) simp_all
qed

lemma push_with_ulid_ok:
  assumes ok: "engine_ok t e"
  shows "engine_ok t (snd (push_with_ulid P el q i payload delay e))"
proof -
  let ?now = "current_time_sec el e" and ?s = "shard_idx q"
  let ?v = "current_time_sec el e + delay"
  let ?e1 = "e\<lparr>disk := append_push_durable P i q ?v payload (disk e)\<rparr>"
  have ok1: "engine_ok t ?e1" by (rule engine_ok_frame [OF _ _ ok]) simp_all
  have ss: "shards_ok (shards e)" and w: "wheels_ok t (shards e)"
    and tot: "total_messages_in_ram e = word_of_nat (ram_count (shards e))" using ok by (simp_all add: engine_ok_def)
  show ?thesis
  proof (cases "i \<in> seen_ids (shards e ! ?s)")
    case True
    with ok1 show ?thesis by (simp add: push_with_ulid_def Let_def)
  next
    case new: False
    let ?st = "(shards e ! ?s)\<lparr>seen_ids := insert i (seen_ids (shards e ! ?s))\<rparr>"
    let ?m = "\<lparr>sm_id = i, sm_queue = q, sm_payload = payload, sm_visible_at = ?v,
               sm_delivery_count = 0, sm_max_delivery = max_delivery_count (options e)\<rparr>"
    let ?in = "(set_shard ?s (store_msg ?m (enqueue q i ?v ?now ?st)) ?e1)
                 \<lparr>total_messages_in_ram := total_messages_in_ram e + 1\<rparr>"
    have fr: "free_id (shards e ! ?s) (sm_id ?m)" using unseen_free [OF shards_okD [OF ss] new] by simp
    have sm: "?s = shard_idx (sm_queue ?m)" by simp
    note a = admit_shard [OF ss fr sm refl refl, where v = ?v and now = ?now, simplified]
    have "wheels_ok t (shards ?in)" by (rule wheels_ok_tw [OF w]) (simp add: a(3))
    with a(1,2) tot have inok: "engine_ok t ?in" by (simp add: engine_ok_def)
    have spok: "engine_ok t (set_shard ?s ?st ?e1)"
      using seen_shard [OF ss, where s = ?s and i = i] w tot by (simp add: engine_ok_def)
    show ?thesis
      using new compact_then_ok [OF inok, of P "ulid_to_string P i"] compact_then_ok [OF spok, of P "ulid_to_string P i"]
      by (simp add: push_with_ulid_def Let_def)
  qed
qed

lemma push_ok: "engine_ok t e \<Longrightarrow> engine_ok t (snd (push P el q payload delay e))"
  using push_with_ulid_ok [OF engine_ok_frame [of "e\<lparr>ulids_drawn := Suc (ulids_drawn e)\<rparr>" e]]
  by (simp add: push_def Let_def)

lemma append_push_async_frame [simp]: "registry (append_push_async i q v p d) = registry d"
  by (simp add: append_push_async_def)

lemma push_batch_item_ok:
  assumes ok: "shard_ok s {} (bs_shard b)" and s: "shard_idx q = s" and b': "b' = push_batch_item P opts now q item b"
  shows "shard_ok s {} (bs_shard b')" "tw (bs_shard b') = tw (bs_shard b)"
    "word_of_nat (length (messages (bs_shard b'))) - bs_added b' =
     (word_of_nat (length (messages (bs_shard b))) - bs_added b :: usize)"
proof -
  obtain i drawn where i: "(case pi_id item of Some i \<Rightarrow> (i, bs_drawn b)
      | None \<Rightarrow> (ulid_new P (bs_drawn b), Suc (bs_drawn b))) = (i, drawn)"
    by (metis prod.exhaust)
  let ?st = "(bs_shard b)\<lparr>seen_ids := insert i (seen_ids (bs_shard b))\<rparr>"
  let ?m = "\<lparr>sm_id = i, sm_queue = q, sm_payload = pi_payload item, sm_visible_at = now + pi_delay_seconds item,
             sm_delivery_count = 0, sm_max_delivery = max_delivery_count opts\<rparr>"
  consider (seen) "i \<in> seen_ids (bs_shard b)" "bs_shard b' = bs_shard b" "bs_added b' = bs_added b"
    | (spilled) "i \<notin> seen_ids (bs_shard b)" "bs_shard b' = ?st" "bs_added b' = bs_added b"
    | (added) "i \<notin> seen_ids (bs_shard b)" "bs_added b' = bs_added b + 1"
        "bs_shard b' = store_msg ?m (enqueue q i (now + pi_delay_seconds item) now ?st)"
  proof -
    note def = push_batch_item_def [of P opts now q item b, unfolded i, simplified, folded b']
    show thesis
    proof (cases "i \<in> seen_ids (bs_shard b)")
      case True
      with def show thesis by (intro seen) simp_all
    next
      case new: False
      show thesis
      proof (cases "now + pi_delay_seconds item \<le> now + HOT_DELAY_HORIZON_SEC \<and>
          bs_ram b < max_hot_messages_in_ram opts \<and> \<not> hm_contains (messages (bs_shard b)) i")
        case True
        with def new show thesis by (intro added) (simp_all add: Let_def)
      next
        case False
        with def new show thesis by (intro spilled) (simp_all add: Let_def)
      qed
    qed
  qed
  then have "shard_ok s {} (bs_shard b') \<and> tw (bs_shard b') = tw (bs_shard b) \<and>
    word_of_nat (length (messages (bs_shard b'))) - bs_added b' =
     (word_of_nat (length (messages (bs_shard b))) - bs_added b :: usize)"
  proof cases
    case seen
    with ok show ?thesis by simp
  next
    case spilled
    with shard_ok_seen [OF ok, of i] show ?thesis by simp
  next
    case added
    note fr = unseen_free [OF ok added(1)]
    from admit_ok [OF ok fr, of ?m q "now + pi_delay_seconds item" now] s fr
    show ?thesis by (simp add: added(2,3) admit_messages length_hm_insert free_id_def)
  qed
  then show "shard_ok s {} (bs_shard b')" "tw (bs_shard b') = tw (bs_shard b)"
    "word_of_nat (length (messages (bs_shard b'))) - bs_added b' =
     (word_of_nat (length (messages (bs_shard b))) - bs_added b :: usize)" by blast+
qed

lemma fold_push_batch_ok:
  "shard_ok s {} (bs_shard b) \<Longrightarrow> shard_idx q = s \<Longrightarrow>
   b' = fold (push_batch_item P opts now q) items b \<Longrightarrow>
   shard_ok s {} (bs_shard b') \<and> tw (bs_shard b') = tw (bs_shard b) \<and>
   word_of_nat (length (messages (bs_shard b'))) - bs_added b' =
     (word_of_nat (length (messages (bs_shard b))) - bs_added b :: usize)"
proof (induction items arbitrary: b)
  case Nil
  then show ?case by simp
next
  case (Cons x items)
  note i = push_batch_item_ok [OF Cons.prems(1,2) refl [of "push_batch_item P opts now q x b"]]
  from Cons.IH [OF i(1) Cons.prems(2)] Cons.prems(3) i(2,3) show ?case by simp
qed

lemma ram_count_word_update:
  "s < length ss \<Longrightarrow>
   word_of_nat (ram_count (ss[s := st])) =
     (word_of_nat (ram_count ss) + (word_of_nat (length (messages st)) - word_of_nat (length (messages (ss ! s)))) :: usize)"
  using arg_cong [OF ram_count_update [of s ss st], of "word_of_nat :: nat \<Rightarrow> usize"]
  by (simp add: algebra_simps)

lemma push_batch_ok:
  assumes ok: "engine_ok t e"
  shows "engine_ok t (snd (push_batch P el q items e))"
proof -
  let ?s = "shard_idx q" and ?now = "current_time_sec el e"
  let ?b0 = "\<lparr>bs_shard = shards e ! ?s, bs_disk = disk e, bs_drawn = ulids_drawn e,
              bs_added = 0, bs_ram = total_messages_in_ram e, bs_ids = []\<rparr>"
  define b where "b = fold (push_batch_item P (options e) ?now q) items ?b0"
  have ss: "shards_ok (shards e)" and w: "wheels_ok t (shards e)" and len: "length (shards e) = NUM_SHARDS"
    and tot: "total_messages_in_ram e = word_of_nat (ram_count (shards e))"
    using ok by (simp_all add: engine_ok_def shards_ok_def)
  have "shard_ok ?s {} (bs_shard ?b0)" using shards_okD [OF ss] by simp
  note f = fold_push_batch_ok [OF this refl b_def]
  let ?e = "((set_shard ?s (bs_shard b) e)\<lparr>disk := flush P (bs_disk b), ulids_drawn := bs_drawn b\<rparr>)
    \<lparr>total_messages_in_ram := total_messages_in_ram e + bs_added b\<rparr>"
  have "word_of_nat (length (messages (bs_shard b))) - word_of_nat (length (messages (shards e ! ?s))) = bs_added b"
    using f by (simp add: algebra_simps)
  then have "word_of_nat (ram_count ((shards e)[?s := bs_shard b])) = (total_messages_in_ram e + bs_added b :: usize)"
    using ram_count_word_update [of ?s "shards e" "bs_shard b"] len tot by simp
  then have "engine_ok t ?e"
    using shards_ok_update [OF ss conjunct1 [OF f]] wheels_ok_same [OF w, of "bs_shard b" ?s] f len
    by (simp add: engine_ok_def)
  from compact_then_ok [OF this, of P "bs_ids b"]
  show ?thesis
    by (rule engine_ok_frame [rotated 2])
      (simp_all add: push_batch_def Let_def b_def [symmetric] word_gt_0)
qed

subsection \<open>Acknowledging\<close>

lemma length_removed:
  assumes "hm_wf ms" "b \<longleftrightarrow> hm_get ms i \<noteq> None" "ms' = (if b then hm_remove i ms else ms)"
  shows "length ms = length ms' + (if b then 1 else 0)"
proof (cases b)
  case True
  with assms(2) have "0 < length ms" by (cases ms) auto
  with True assms length_hm_remove [OF assms(1), of i] show ?thesis by simp
qed (simp add: assms(3))

text \<open>An accepted receipt, for one shard.\<close>

lemma accepted_spec:
  assumes ok: "shard_ok s {} st" and rm: "remove_if_valid i r (tw st) = (True, w)"
    and a: "ack_msg q i (st\<lparr>tw := w\<rparr>) = (b, st')"
  shows "shard_ok s {} st'" "length (messages st) = length (messages st') + (if b then 1 else 0)"
    "wheel_fresh (tw st) \<Longrightarrow> wheel_fresh (tw st')" "last_checked_sec (tw st') = last_checked_sec (tw st)"
proof -
  note A = ack_msg_spec [OF ok rm a]
  show "shard_ok s {} st'" by (rule A(1))
  show "length (messages st) = length (messages st') + (if b then 1 else 0)"
    by (rule length_removed [OF shard_okD(2) [OF ok] A(2,3)])
  have ok': "wheel_ok (tw st)" by (rule shard_okD(3) [OF ok])
  show "wheel_fresh (tw st) \<Longrightarrow> wheel_fresh (tw st')"
    using remove_if_valid_fresh [OF ok' _ rm] by (simp add: A(4))
  have "\<exists>it. tw_leases (tw st) i = Some it \<and> if_receipt it = r" using remove_if_valid_ok [OF ok' rm] by simp
  with remove_if_valid_items [OF ok' _ _ rm]
  show "last_checked_sec (tw st') = last_checked_sec (tw st)" by (auto simp: A(4))
qed

lemma refused_same:
  assumes "shard_ok s {} st" "remove_if_valid i r (tw st) = (False, w)"
  shows "w = tw st"
proof (rule ccontr)
  assume "w \<noteq> tw st"
  have ok: "wheel_ok (tw st)" by (rule shard_okD(3) [OF assms(1)])
  from remove_if_valid_ok [OF ok assms(2)] have "\<nexists>it. tw_leases (tw st) i = Some it \<and> if_receipt it = r" by simp
  with remove_if_valid_refused [OF ok, of i r] assms(2) \<open>w \<noteq> tw st\<close> show False by auto
qed

lemma shard_replaced_ok:
  assumes ok: "engine_ok t e" and st: "shard_ok s {} st" and s: "s < NUM_SHARDS"
    and n: "length (messages (shards e ! s)) = length (messages st) + n"
    and w: "wheel_fresh (tw st)" "last_checked_sec (tw st) \<le> t"
    and e': "shards e' = (shards e)[s := st]" "total_messages_in_ram e' = total_messages_in_ram e - word_of_nat n"
  shows "engine_ok t e'"
proof -
  have ss: "shards_ok (shards e)" and ww: "wheels_ok t (shards e)" and len: "length (shards e) = NUM_SHARDS"
    and tot: "total_messages_in_ram e = word_of_nat (ram_count (shards e))"
    using ok by (simp_all add: engine_ok_def shards_ok_def)
  have "word_of_nat (ram_count (shards e')) = (total_messages_in_ram e' :: usize)"
    using ram_count_word_update [of s "shards e" st] len s n tot by (simp add: e')
  with shards_ok_update [OF ss st] wheels_ok_update [OF ww w len] show ?thesis by (simp add: engine_ok_def e')
qed

lemma ack_ok:
  assumes ok: "engine_ok t e"
  shows "engine_ok t (snd (ack P q mid r e))"
proof (cases "parse_id_fast P mid")
  case None
  with ok show ?thesis by (simp add: ack_def)
next
  case (Some i)
  let ?s = "shard_idx q" and ?st = "shards e ! shard_idx q"
  have ss: "shards_ok (shards e)" and ww: "wheels_ok t (shards e)" using ok by (simp_all add: engine_ok_def)
  note st = shards_okD [OF ss, of q]
  obtain v w where rm: "remove_if_valid i r (tw ?st) = (v, w)" by (metis prod.exhaust)
  show ?thesis
  proof (cases v)
    case False
    with refused_same [OF st] rm have "w = tw ?st" by simp
    with False rm Some ok show ?thesis by (simp add: ack_def Let_def)
  next
    case True
    obtain b st' where a: "ack_msg q i (?st\<lparr>tw := w\<rparr>) = (b, st')" by (metis prod.exhaust)
    note A = accepted_spec [OF st rm [unfolded eqTrueI [OF True]] a]
    let ?e = "(set_shard ?s st' e)\<lparr>total_messages_in_ram :=
        (if b then total_messages_in_ram e - 1 else total_messages_in_ram e),
        disk := append_ack_durable P i q (disk e)\<rparr>"
    have "engine_ok t ?e"
      by (rule shard_replaced_ok [OF ok A(1) shard_idx_less A(2)])
        (use A(3,4) ww in \<open>simp_all add: wheels_ok_def\<close>)
    from compact_then_ok [OF this, of P True] True rm a Some show ?thesis
      by (cases b) (simp_all add: ack_def Let_def)
  qed
qed

definition ack_batch_inv :: "nat \<Rightarrow> shard_state \<Rightarrow> shard_state \<times> disk_log \<times> usize \<Rightarrow> bool" where
  "ack_batch_inv s st0 = (\<lambda>(st, d, count).
     shard_ok s {} st \<and> (wheel_fresh (tw st0) \<longrightarrow> wheel_fresh (tw st)) \<and>
     last_checked_sec (tw st) = last_checked_sec (tw st0) \<and>
     (\<exists>n. length (messages st0) = length (messages st) + n \<and> count = word_of_nat n))"

lemma ack_batch_item_inv:
  assumes "ack_batch_inv s st0 x"
  shows "ack_batch_inv s st0 (ack_batch_item q (i, r) x)"
proof -
  obtain st d count where x: "x = (st, d, count)" by (cases x)
  from assms x obtain n where st: "shard_ok s {} st" and fr: "wheel_fresh (tw st0) \<longrightarrow> wheel_fresh (tw st)"
    and lc: "last_checked_sec (tw st) = last_checked_sec (tw st0)"
    and n: "length (messages st0) = length (messages st) + n" "count = word_of_nat n"
    by (auto simp: ack_batch_inv_def)
  obtain v w where rm: "remove_if_valid i r (tw st) = (v, w)" by (metis prod.exhaust)
  show ?thesis
  proof (cases v)
    case False
    with refused_same [OF st] rm have "w = tw st" by simp
    with False rm assms x show ?thesis by (simp add: ack_batch_item_def)
  next
    case True
    obtain b st' where a: "ack_msg q i (st\<lparr>tw := w\<rparr>) = (b, st')" by (metis prod.exhaust)
    note A = accepted_spec [OF st rm [unfolded eqTrueI [OF True]] a]
    have "\<exists>k. length (messages st0) = length (messages st') + k \<and>
        (if b then count + 1 else count) = word_of_nat k"
      using A(2) n by (intro exI [of _ "n + (if b then 1 else 0)"]) auto
    with True rm a x A(1,3,4) fr lc show ?thesis by (simp add: ack_batch_item_def ack_batch_inv_def)
  qed
qed

lemma fold_ack_batch_inv:
  "ack_batch_inv s st0 x \<Longrightarrow> ack_batch_inv s st0 (fold (ack_batch_item q) items x)"
proof (induction items arbitrary: x)
  case Nil
  then show ?case by simp
next
  case (Cons y items)
  obtain i r where "y = (i, r)" by (cases y)
  with Cons.IH [OF ack_batch_item_inv [OF Cons.prems, of q i r]] show ?case by simp
qed

lemma ack_batch_ok:
  assumes ok: "engine_ok t e"
  shows "engine_ok t (snd (ack_batch P q items e))"
proof -
  let ?s = "shard_idx q"
  define us where "us = concat (map (\<lambda>(m_id, receipt).
      case parse_id_fast P m_id of Some i \<Rightarrow> [(i, receipt)] | None \<Rightarrow> []) items)"
  obtain st d count where f: "fold (ack_batch_item q) us (shards e ! ?s, disk e, 0) = (st, d, count)"
    by (metis prod.exhaust)
  have ss: "shards_ok (shards e)" and ww: "wheels_ok t (shards e)" using ok by (simp_all add: engine_ok_def)
  have "ack_batch_inv ?s (shards e ! ?s) (shards e ! ?s, disk e, 0)"
    using shards_okD [OF ss, of q] by (simp add: ack_batch_inv_def)
  from fold_ack_batch_inv [OF this, of q us] f obtain n where
    st: "shard_ok ?s {} st" "wheel_fresh (tw st)" "last_checked_sec (tw st) \<le> t"
      "length (messages (shards e ! ?s)) = length (messages st) + n" "count = word_of_nat n"
    using ww by (auto simp: ack_batch_inv_def wheels_ok_def)
  let ?e = "(set_shard ?s st e)\<lparr>total_messages_in_ram := total_messages_in_ram e - count,
      disk := (if count > 0 then flush P d else d)\<rparr>"
  have "engine_ok t ?e"
    by (rule shard_replaced_ok [OF ok st(1) shard_idx_less st(4,2,3)]) (simp_all add: st(5))
  from compact_then_ok [OF this, of P count] show ?thesis
    by (rule engine_ok_frame [rotated 2])
      (simp_all add: ack_batch_def Let_def us_def [symmetric] f word_gt_0)
qed

lemma ack_follower_ok:
  assumes ok: "engine_ok t e"
  shows "engine_ok t (snd (ack_follower P q mid e))"
proof (cases "parse_id_fast P mid")
  case None
  with ok show ?thesis by (simp add: ack_follower_def)
next
  case (Some i)
  let ?s = "shard_idx q"
  have ss: "shards_ok (shards e)" and ww: "wheels_ok t (shards e)" using ok by (simp_all add: engine_ok_def)
  note st = shards_okD [OF ss, of q]
  obtain b st' where f: "forget_msg q i (shards e ! ?s) = (b, st')" by (metis prod.exhaust)
  note F = forget_msg_spec [OF st f]
  let ?e = "(set_shard ?s st' e)\<lparr>total_messages_in_ram :=
      (if b then total_messages_in_ram e - 1 else total_messages_in_ram e),
      disk := append_ack_durable P i q (disk e)\<rparr>"
  have "engine_ok t ?e"
    by (rule shard_replaced_ok [OF ok F(1) shard_idx_less length_removed [OF shard_okD(2) [OF st] F(2,3)]])
      (use F(4) ww in \<open>simp_all add: wheels_ok_def\<close>)
  with compact_then_ok [OF this, of P True] f Some show ?thesis
    by (cases b) (simp_all add: ack_follower_def Let_def)
qed

subsection \<open>Maintenance\<close>

lemma clear_for_raft_recovery_ok:
  assumes "engine_ok t e"
  shows "engine_ok t (clear_for_raft_recovery e)"
proof -
  let ?f = "\<lambda>st. st\<lparr>queues := [], messages := [], seen_ids := {}, acked_ids := {}, tw := tw_new 3600\<rparr>"
  have new: "?f st = shard_new" for st :: shard_state by (simp add: shard_new_def)
  have len: "length (shards e) = NUM_SHARDS" using assms by (simp add: engine_ok_def shards_ok_def)
  have "shards (clear_for_raft_recovery e) = replicate NUM_SHARDS shard_new"
    by (simp add: clear_for_raft_recovery_def new len [symmetric] map_replicate_const)
  moreover have "tw shard_new = tw_new 3600" "last_checked_sec (tw_new 3600) = 0"
    by (simp_all add: shard_new_def tw_new_def Let_def)
  ultimately show ?thesis
    using shard_new_ok tw_new_ok [of 3600]
    by (simp add: engine_ok_def shards_ok_def wheels_ok_def clear_for_raft_recovery_def ram_count_def
        shard_new_def sum_list_replicate)
qed

subsection \<open>Opening\<close>

text \<open>Which ids the push records of a log introduce, per shard.\<close>

definition push_keys :: "wal_record list \<Rightarrow> (nat \<times> ulid) list" where
  "push_keys rs = concat (map (\<lambda>r. case r of WalPush i q v p \<Rightarrow> [(shard_idx q, i)] | WalAck i q \<Rightarrow> []) rs)"

lemma push_keys_simps [simp]:
  "push_keys [] = []" "push_keys (WalPush i q v p # rs) = (shard_idx q, i) # push_keys rs"
  "push_keys (WalAck i q # rs) = push_keys rs"
  by (simp_all add: push_keys_def)

definition replay_ok :: "(nat \<times> ulid) set \<Rightarrow> shard_state list \<times> usize \<Rightarrow> bool" where
  "replay_ok K = (\<lambda>(ss, tot).
     shards_ok ss \<and> unat tot = ram_count ss \<and> (\<forall>u. tw (ss ! u) = tw (replicate NUM_SHARDS shard_new ! u)) \<and>
     (\<forall>s i. i \<in> seen_ids (ss ! s) \<longrightarrow> s < NUM_SHARDS \<longrightarrow> (s, i) \<in> K))"

lemma replay_push_ok:
  assumes ok: "replay_ok K x" and new: "(shard_idx q, i) \<notin> K"
  shows "replay_ok (insert (shard_idx q, i) K) (replay_record opts base (WalPush i q v p) x)"
proof -
  obtain ss tot where x: "x = (ss, tot)" by (cases x)
  let ?s = "shard_idx q"
  from ok x have ss: "shards_ok ss" and tot: "unat tot = ram_count ss"
    and tws: "\<forall>u. tw (ss ! u) = tw (replicate NUM_SHARDS shard_new ! u)"
    and K: "\<forall>s i. i \<in> seen_ids (ss ! s) \<longrightarrow> s < NUM_SHARDS \<longrightarrow> (s, i) \<in> K" and len: "length ss = NUM_SHARDS"
    by (auto simp: replay_ok_def shards_ok_def)
  have "i \<notin> seen_ids (ss ! ?s)" using K new by auto
  let ?m = "\<lparr>sm_id = i, sm_queue = q, sm_payload = p, sm_visible_at = v,
             sm_delivery_count = 0, sm_max_delivery = max_delivery_count opts\<rparr>"
  have fr: "free_id (ss ! ?s) (sm_id ?m)" using unseen_free [OF shards_okD [OF ss] \<open>i \<notin> _\<close>] by simp
  show ?thesis
  proof (cases "tot < max_hot_messages_in_ram opts")
    case True
    then have "unat tot < unat (max_hot_messages_in_ram opts)" by (simp add: word_less_nat_alt)
    moreover have "unat (max_hot_messages_in_ram opts) < 2 ^ 64"
      using unsigned_less [of "max_hot_messages_in_ram opts"] by simp
    ultimately have "unat tot + 1 < 2 ^ 64" by linarith
    then have t1: "unat (tot + 1) = Suc (unat tot)" using unat_plus_of_nat [of tot 1] by simp
    have sm: "?s = shard_idx (sm_queue ?m)" by simp
    note a = admit_shard [OF ss fr sm refl refl, where v = v and now = base, simplified]
    have seen: "seen_ids (ss[?s := store_msg ?m (enqueue q i v base ((ss ! ?s)\<lparr>seen_ids := insert i (seen_ids (ss ! ?s))\<rparr>))] ! u) =
        (if u = ?s then insert i (seen_ids (ss ! u)) else seen_ids (ss ! u))" for u
      using len by (simp add: nth_list_update admit_messages)
    from True a(1-3) t1 tot tws K show ?thesis by (auto simp: x replay_ok_def Let_def seen)
  next
    case False
    note a = seen_shard [OF ss, where s = ?s and i = i]
    from False a(1,2) tot tws K len show ?thesis
      by (auto simp: x replay_ok_def Let_def nth_list_update)
  qed
qed

lemma replay_ack_ok:
  assumes ok: "replay_ok K x"
  shows "replay_ok K (replay_record opts base (WalAck i q) x)"
proof -
  obtain ss tot where x: "x = (ss, tot)" by (cases x)
  let ?s = "shard_idx q"
  obtain b st where f: "forget_msg q i (ss ! ?s) = (b, st)" by (metis prod.exhaust)
  from ok x have ss: "shards_ok ss" and tot: "unat tot = ram_count ss" and len: "length ss = NUM_SHARDS"
    by (auto simp: replay_ok_def shards_ok_def)
  note F = forget_shard [OF ss shard_idx_less f] and G = forget_msg_spec(5) [OF shards_okD [OF ss] f]
  have "unat (sat_sub tot 1) = unat tot - 1"
    by (simp add: sat_sub_def unat_sub word_le_nat_alt)
  with ok F tot G len show ?thesis
    by (cases b) (auto simp: x replay_ok_def f nth_list_update)
qed

lemma replay_all_ok:
  "replay_ok K x \<Longrightarrow> distinct (push_keys rs) \<Longrightarrow> set (push_keys rs) \<inter> K = {} \<Longrightarrow>
   \<exists>K'. replay_ok K' (fold (replay_record opts base) rs x)"
proof (induction rs arbitrary: K x)
  case Nil
  then show ?case by auto
next
  case (Cons r rs)
  show ?case
  proof (cases r)
    case (WalPush i q v p)
    with Cons.prems have "replay_ok (insert (shard_idx q, i) K) (replay_record opts base r x)"
      by (simp add: replay_push_ok)
    from Cons.IH [OF this] Cons.prems(2,3) WalPush show ?thesis by auto
  next
    case (WalAck i q)
    with Cons.prems have "replay_ok K (replay_record opts base r x)" by (simp only: replay_ack_ok)
    from Cons.IH [OF this] Cons.prems(2,3) WalAck show ?thesis by auto
  qed
qed

lemma engine_open_ok:
  assumes "distinct (push_keys (snd (disk_log_open P fa fb mf (max_wal_segment_size opts))))"
  shows "engine_ok t (engine_open P fa fb mf opts base)"
proof -
  obtain d rs where o: "disk_log_open P fa fb mf (max_wal_segment_size opts) = (d, rs)" by (metis prod.exhaust)
  let ?init = "(replicate NUM_SHARDS shard_new, 0 :: usize)"
  have "replay_ok {} ?init"
    using shard_new_ok by (auto simp: replay_ok_def shards_ok_def ram_count_def shard_new_def sum_list_replicate)
  from replay_all_ok [OF this, of rs opts base] assms o
  obtain K ss tot where f: "fold (replay_record opts base) rs ?init = (ss, tot)" and r: "replay_ok K (ss, tot)"
    by (metis inf_bot_right prod.exhaust snd_conv)
  from r have "shards_ok ss" and u: "unat tot = ram_count ss"
    and tws: "\<forall>u. tw (ss ! u) = tw (replicate NUM_SHARDS shard_new ! u)"
    by (auto simp: replay_ok_def)
  moreover have "word_of_nat (unat tot) = tot" by simp
  then have "tot = word_of_nat (ram_count ss)" by (simp only: u)
  moreover have "wheels_ok t ss"
    using tws tw_new_ok [of 3600] by (simp add: wheels_ok_def shard_new_def tw_new_def Let_def)
  ultimately show ?thesis by (simp add: engine_ok_def engine_open_def o f)
qed

end
