(* ===== verification/Engine_Properties.thy ===== *)
theory Engine_Properties
  imports Engine_Invariant
begin

text \<open>
  What the queue engine guarantees to its clients: custody of messages in every reachable state,
  exclusive leases until they expire, and acknowledgement with the current receipt only.
\<close>

section \<open>Reachable states\<close>

text \<open>The clock component is the time of the last poll; it does not go back.\<close>

inductive engine_step :: "packages \<Rightarrow> u64 \<times> queue_engine \<Rightarrow> u64 \<times> queue_engine \<Rightarrow> bool" for P where
  step_push: "engine_step P (t, e) (t, snd (push_with_ulid P el q i payload delay e))"
| step_push_new: "engine_step P (t, e) (t, snd (push P el q payload delay e))"
| step_push_batch: "engine_step P (t, e) (t, snd (push_batch P el q items e))"
| step_poll: "now = current_time_sec el e \<Longrightarrow> poll_time P t now vis e \<Longrightarrow>
    poll_clear now (shard_idx q) (shards e) \<Longrightarrow>
    engine_step P (t, e) (now, snd (poll P el q vis maxm e))"
| step_ack: "engine_step P (t, e) (t, snd (ack P q mid receipt e))"
| step_ack_batch: "engine_step P (t, e) (t, snd (ack_batch P q acks e))"
| step_ack_follower: "engine_step P (t, e) (t, snd (ack_follower P q mid e))"
| step_compact: "engine_step P (t, e) (t, snd (check_and_trigger_compaction P e))"
| step_force_compaction: "engine_step P (t, e) (t, snd (force_compaction P e))"
| step_flush: "engine_step P (t, e) (t, flush_wal P e)"
| step_spill_offset: "engine_step P (t, e) (t, set_initial_spill_offset off e)"
| step_clear: "engine_step P (t, e) (t, clear_for_raft_recovery e)"

inductive engine_reach :: "packages \<Rightarrow> u64 \<times> queue_engine \<Rightarrow> bool" for P where
  reach_open: "distinct (push_keys (snd (disk_log_open P fa fb mf (max_wal_segment_size opts)))) \<Longrightarrow>
    engine_reach P (0, engine_open P fa fb mf opts base)"
| reach_step: "engine_reach P s \<Longrightarrow> engine_step P s s' \<Longrightarrow> engine_reach P s'"

inductive_cases engine_stepE: "engine_step P (t, e) s'"

lemma force_compaction_frame:
  "shards (snd (force_compaction P e)) = shards e"
  "total_messages_in_ram (snd (force_compaction P e)) = total_messages_in_ram e"
  by (auto simp: force_compaction_def split: prod.split sum.split)

lemma poll_ok:
  assumes "engine_ok t e" "now = current_time_sec el e" "poll_time P t now vis e"
    "poll_clear now (shard_idx q) (shards e)"
  shows "engine_ok now (snd (poll P el q vis maxm e))"
proof -
  obtain res e' where p: "poll P el q vis maxm e = (res, e')" by (metis prod.exhaust)
  show ?thesis by (rule poll_spec [OF assms refl refl p]) (simp add: p)
qed

lemma engine_step_ok:
  assumes "engine_step P s s'" "engine_ok (fst s) (snd s)"
  shows "engine_ok (fst s') (snd s')"
  using assms
proof (induction rule: engine_step.induct)
  case (step_poll now el e t vis q maxm)
  then show ?case using poll_ok by simp
next
  case (step_compact t e)
  then show ?case by (auto intro: engine_ok_frame [of _ e] simp: check_and_trigger_compaction_frame)
next
  case (step_force_compaction t e)
  then show ?case by (auto intro: engine_ok_frame [of _ e] simp: force_compaction_frame)
next
  case (step_flush t e)
  then show ?case by (auto intro: engine_ok_frame [of _ e] simp: flush_wal_def)
next
  case (step_spill_offset t e off)
  then show ?case by (auto intro: engine_ok_frame [of _ e] simp: set_initial_spill_offset_def)
qed (simp_all add: push_with_ulid_ok push_ok push_batch_ok ack_ok ack_batch_ok ack_follower_ok
    clear_for_raft_recovery_ok)

lemma engine_reach_ok: "engine_reach P s \<Longrightarrow> engine_ok (fst s) (snd s)"
  by (induction rule: engine_reach.induct) (auto simp: engine_open_ok engine_step_ok)

text \<open>A message is leased, or it waits in its own queue.\<close>

definition leased :: "shard_state \<Rightarrow> ulid \<Rightarrow> bool" where
  "leased st i \<longleftrightarrow> tw_leases (tw st) i \<noteq> None"

definition waits_in :: "shard_state \<Rightarrow> string \<Rightarrow> ulid \<Rightarrow> bool" where
  "waits_in st q i \<longleftrightarrow> (\<exists>sq. hm_get (queues st) q = Some sq \<and> i \<in> set (sq_ids sq) \<and> i \<notin> deleted sq)"

lemma shard_ok_custody:
  assumes "shard_ok s {} st" "hm_get (messages st) i = Some m"
  shows "sm_id m = i" "shard_idx (sm_queue m) = s" "leased st i \<noteq> waits_in st (sm_queue m) i"
    "waits_in st q i \<Longrightarrow> q = sm_queue m"
proof -
  note D = shard_okD [OF assms(1)]
  note m = D(5) [OF assms(2)]
  from m show "sm_id m = i" "shard_idx (sm_queue m) = s" by (simp_all add: msg_ok_def)
  have q: "\<not> leased st i \<and> i \<notin> deleted sq \<and> sm_queue m = q" if "hm_get (queues st) q = Some sq" "i \<in> set (sq_ids sq)" for q sq
    using D(6) [OF that] assms(2) by (auto simp: queued_ok_def leased_def)
  then show "waits_in st q i \<Longrightarrow> q = sm_queue m" by (auto simp: waits_in_def)
  show "leased st i \<noteq> waits_in st (sm_queue m) i"
    using m q by (auto simp: msg_ok_def leased_def waits_in_def)
qed

section \<open>Properties\<close>


subsection \<open>A small engine for the concrete instances\<close>

definition demo_options :: queue_options where
  "demo_options = \<lparr>default_visibility_timeout_sec = 30, max_delivery_count = 3,
     max_hot_messages_in_ram = 1000, max_wal_segment_size = 1048576\<rparr>"

definition demo_engine :: queue_engine where
  "demo_engine = engine_open demo_packages [] [] [] demo_options 1600000000"

definition demo_pushed :: queue_engine where
  "demo_pushed = snd (push_with_ulid demo_packages 5 ''jobs'' 7 [1, 2, 3] 0 demo_engine)"

lemma demo_opened: "snd (disk_log_open demo_packages [] [] [] n) = []"
  by (simp add: disk_log_open_def Let_def)

lemma demo_engine_fields:
  "shards demo_engine = replicate NUM_SHARDS shard_new" "options demo_engine = demo_options"
  "base_epoch_sec demo_engine = 1600000000" "total_messages_in_ram demo_engine = 0"
  "spill_read_offset demo_engine = 0" "ulids_drawn demo_engine = 0"
proof -
  obtain d where "disk_log_open demo_packages [] [] [] (max_wal_segment_size demo_options) = (d, [])"
    using demo_opened by (metis prod.collapse)
  then show "shards demo_engine = replicate NUM_SHARDS shard_new" "options demo_engine = demo_options"
    "base_epoch_sec demo_engine = 1600000000" "total_messages_in_ram demo_engine = 0"
    "spill_read_offset demo_engine = 0" "ulids_drawn demo_engine = 0"
    by (simp_all add: demo_engine_def engine_open_def)
qed

lemma demo_reach: "engine_reach demo_packages (0, demo_engine)"
  unfolding demo_engine_def by (rule reach_open) (simp add: demo_opened)

lemma demo_pushed_reach: "engine_reach demo_packages (0, demo_pushed)"
  unfolding demo_pushed_def by (rule reach_step [OF demo_reach step_push])


definition demo_msg :: stored_msg where
  "demo_msg = \<lparr>sm_id = 7, sm_queue = ''jobs'', sm_payload = [1, 2, 3], sm_visible_at = 1600000005,
     sm_delivery_count = 0, sm_max_delivery = 3\<rparr>"

lemma demo_pushed_shards:
  "shards demo_pushed = (replicate NUM_SHARDS shard_new)[shard_idx ''jobs'' :=
     store_msg demo_msg (enqueue ''jobs'' 7 1600000005 1600000005 (shard_new\<lparr>seen_ids := {7}\<rparr>))]"
  "options demo_pushed = demo_options" "base_epoch_sec demo_pushed = 1600000000" "total_messages_in_ram demo_pushed = 1"
  using shard_idx_less [of "''jobs''"]
  by (simp_all add: demo_pushed_def push_with_ulid_def Let_def demo_engine_fields current_time_sec_def
      shard_new_def hm_contains_def demo_msg_def demo_options_def HOT_DELAY_HORIZON_SEC_def)

lemma demo_poll_time: "poll_time demo_packages 0 1600000010 0 demo_pushed"
  using demo_packages_order
  by (simp add: poll_time_def hash_order_def poll_timeout_def demo_pushed_shards demo_options_def)

lemma demo_poll_clear: "poll_clear 1600000010 (shard_idx ''jobs'') (shards demo_pushed)"
  using shard_idx_less [of "''jobs''"] tw_new_ok [of 3600]
  by (simp add: poll_clear_def demo_pushed_shards admit_messages shard_new_def)

lemma demo_now: "1600000010 = current_time_sec 10 demo_pushed"
  by (simp add: current_time_sec_def demo_pushed_shards)

subsection \<open>Polling\<close>

lemma collect_keeps_lease:
  assumes "engine_ok t e" "t \<le> now" "tw_leases (tw (shard_of e q)) i = Some it" "now < if_expire_at it"
  shows "tw_leases (snd (collect_expired now (tw (shard_of e q)))) i = Some it"
proof -
  let ?w = "tw (shard_of e q)"
  from engine_ok_mono [OF assms(1,2)] have ok: "wheel_ok ?w" "wheel_fresh ?w" "last_checked_sec ?w \<le> now"
    using shard_okD(3) [OF shards_okD] by (auto simp: engine_ok_def wheels_ok_def)
  obtain ex w where ce: "collect_expired now ?w = (ex, w)" by (metis prod.exhaust)
  from collect_expired_set [OF ok ce] have "set ex = {it. \<exists>k. tw_leases ?w k = Some it \<and> if_expire_at it \<le> now}" by simp
  moreover have "if_id x = k" if "tw_leases ?w k = Some x" for k x
    using that tw_leases_Some [of ?w k x] ok(1) by (simp add: wheel_ok_def)
  ultimately have "i \<notin> if_id ` set ex" using assms(3,4) by auto
  with collect_expired_exact(6) [OF ok ce] assms(3) show ?thesis by (simp add: ce)
qed



subsection \<open>Acknowledging\<close>

lemma compact_then_result: "fs_create_ok P \<Longrightarrow> fst (compact_then P x e) = Inr x"
  by (auto simp: compact_then_def check_and_trigger_compaction_def perform_flip_flop_compaction_def Let_def
      split: prod.splits sum.splits if_splits)

lemma ack_refused:
  assumes "engine_ok t e" "parse_id_fast P mid = Some i"
    and "\<nexists>it. tw_leases (tw (shard_of e q)) i = Some it \<and> if_receipt it = r"
  shows "ack P q mid r e = (Inr False, e)"
proof -
  have "shard_ok (shard_idx q) {} (shard_of e q)" using assms(1) shards_okD by (simp add: engine_ok_def)
  from remove_if_valid_refused [OF shard_okD(3) [OF this], of i r] assms(3)
  have "remove_if_valid i r (tw (shard_of e q)) = (False, tw (shard_of e q))" by auto
  with assms(2) show ?thesis by (simp add: ack_def Let_def)
qed

lemma ack_accepted:
  assumes ok: "engine_ok t e" and id: "parse_id_fast P mid = Some i"
    and it: "tw_leases (tw (shard_of e q)) i = Some it" "if_receipt it = r"
    and a: "ack P q mid r e = (res, e')"
  shows "hm_get (messages (shard_of e' q)) i = None" "\<not> leased (shard_of e' q) i" "i \<in> acked_ids (shard_of e' q)"
    "\<And>j. j \<noteq> i \<Longrightarrow> hm_get (messages (shard_of e' q)) j = hm_get (messages (shard_of e q)) j \<and>
       tw_leases (tw (shard_of e' q)) j = tw_leases (tw (shard_of e q)) j"
    "\<And>s. s \<noteq> shard_idx q \<Longrightarrow> shards e' ! s = shards e ! s" "fs_create_ok P \<Longrightarrow> res = Inr True"
proof -
  let ?s = "shard_idx q" and ?st = "shard_of e q"
  have st: "shard_ok ?s {} ?st" and len: "length (shards e) = NUM_SHARDS"
    using ok shards_okD by (simp_all add: engine_ok_def shards_ok_def)
  obtain v w where rm: "remove_if_valid i r (tw ?st) = (v, w)" by (metis prod.exhaust)
  from remove_if_valid_ok [OF shard_okD(3) [OF st] rm] it have v: "v" and
    tl: "tw_leases w = (tw_leases (tw ?st))(i := None)" by auto
  obtain b st' where am: "ack_msg q i (?st\<lparr>tw := w\<rparr>) = (b, st')" by (metis prod.exhaust)
  note A = ack_msg_spec [OF st rm [unfolded eqTrueI [OF v]] am]
  let ?e2 = "(set_shard ?s st' e)\<lparr>total_messages_in_ram :=
        (if b then total_messages_in_ram e - 1 else total_messages_in_ram e),
        disk := append_ack_durable P i q (disk e)\<rparr>"
  have c: "(res, e') = compact_then P True ?e2"
    using a id rm v am by (cases b) (simp_all add: ack_def Let_def)
  then have r: "fst (compact_then P True ?e2) = res" and e: "snd (compact_then P True ?e2) = e'"
    by (metis fst_conv, metis snd_conv)
  have e': "shards e' = (shards e)[?s := st']"
    using compact_then_options(3) [of P True ?e2] by (simp add: e)
  have sh: "shard_of e' q = st'" using len by (simp add: e')
  show "hm_get (messages (shard_of e' q)) i = None" "\<not> leased (shard_of e' q) i" "i \<in> acked_ids (shard_of e' q)"
    using A(2-4,6) tl by (auto simp: sh leased_def)
  show "\<And>j. j \<noteq> i \<Longrightarrow> hm_get (messages (shard_of e' q)) j = hm_get (messages (shard_of e q)) j \<and>
       tw_leases (tw (shard_of e' q)) j = tw_leases (tw (shard_of e q)) j"
    using A(3,4) tl by (simp add: sh)
  show "\<And>s. s \<noteq> ?s \<Longrightarrow> shards e' ! s = shards e ! s" by (simp add: e')
  show "fs_create_ok P \<Longrightarrow> res = Inr True" using compact_then_result [of P True ?e2] by (simp add: r)
qed

text \<open>
  C3. An acknowledgement is accepted exactly when the message is leased under the given
  receipt. A refused one changes nothing. An accepted one removes the message and its lease and
  records the id as acknowledged; every other message, lease and shard stays as it was.
\<close>

theorem ack_semantics:
  assumes "engine_reach P (t, e)" "parse_id_fast P mid = Some i" "fs_create_ok P"
    and "ack P q mid r e = (res, e')"
  shows "if \<exists>it. tw_leases (tw (shard_of e q)) i = Some it \<and> if_receipt it = r
    then res = Inr True \<and> hm_get (messages (shard_of e' q)) i = None \<and> \<not> leased (shard_of e' q) i \<and>
      i \<in> acked_ids (shard_of e' q) \<and>
      (\<forall>j. j \<noteq> i \<longrightarrow> hm_get (messages (shard_of e' q)) j = hm_get (messages (shard_of e q)) j \<and>
         tw_leases (tw (shard_of e' q)) j = tw_leases (tw (shard_of e q)) j) \<and>
      (\<forall>s. s \<noteq> shard_idx q \<longrightarrow> shards e' ! s = shards e ! s)
    else res = Inr False \<and> e' = e"
proof -
  from engine_reach_ok [OF assms(1)] have ok: "engine_ok t e" by simp
  show ?thesis
  proof (cases "\<exists>it. tw_leases (tw (shard_of e q)) i = Some it \<and> if_receipt it = r")
    case True
    then obtain it where "tw_leases (tw (shard_of e q)) i = Some it" "if_receipt it = r" by blast
    from ack_accepted [OF ok assms(2) this assms(4)] assms(3) True show ?thesis by simp
  next
    case False
    from ack_refused [OF ok assms(2) False] assms(4) False show ?thesis by simp
  qed
qed

theorem ack_semantics_witness:
  "ack demo_packages ''jobs'' (ulid_to_string demo_packages 7) ''r'' demo_pushed = (Inr False, demo_pushed)"
proof -
  obtain res e' where a: "ack demo_packages ''jobs'' (ulid_to_string demo_packages 7) ''r'' demo_pushed = (res, e')"
    by (metis prod.exhaust)
  have "parse_id_fast demo_packages (ulid_to_string demo_packages 7) = Some 7"
    using demo_packages_strings by (simp add: parse_id_fast_def ulid_strings_def)
  moreover have "fs_create_ok demo_packages" by (simp add: demo_packages_def)
  moreover have "tw_leases (tw (shard_of demo_pushed ''jobs'')) = Map.empty"
    using tw_new_ok [of 3600] by (simp add: demo_pushed_shards admit_messages shard_new_def)
  ultimately show ?thesis
    using ack_semantics [OF demo_pushed_reach _ _ a, of 7] a by simp
qed


lemma read_past_end:
  "read_entries_from_offset P d (- 1) n = ([], word_of_nat (length (active_file d)))"
  by (simp add: read_entries_from_offset_def Let_def)

lemma page_in_past_end:
  "spill_read_offset e = - 1 \<Longrightarrow>
   shards (page_in_loop P q now n fl e) = shards e \<and> ulids_drawn (page_in_loop P q now n fl e) = ulids_drawn e \<and>
   options (page_in_loop P q now n fl e) = options e \<and> base_epoch_sec (page_in_loop P q now n fl e) = base_epoch_sec e \<and>
   total_messages_in_ram (page_in_loop P q now n fl e) = total_messages_in_ram e"
proof -
  assume off: "spill_read_offset e = - 1"
  have *: "shards (page_in_loop P q now n True e) = shards e \<and> ulids_drawn (page_in_loop P q now n True e) = ulids_drawn e \<and>
    options (page_in_loop P q now n True e) = options e \<and> base_epoch_sec (page_in_loop P q now n True e) = base_epoch_sec e \<and>
    total_messages_in_ram (page_in_loop P q now n True e) = total_messages_in_ram e" if "spill_read_offset e = - 1" for e
    using that by (subst (1 2 3 4 5) page_in_loop.simps) (simp add: read_past_end)
  show ?thesis
  proof (cases fl)
    case True
    with * [OF off] show ?thesis by simp
  next
    case False
    then have "page_in_loop P q now n fl e = page_in_loop P q now n True (e\<lparr>disk := flush P (disk e)\<rparr>)"
      using off by (subst page_in_loop.simps) (simp add: read_past_end)
    with * [of "e\<lparr>disk := flush P (disk e)\<rparr>"] off show ?thesis by simp
  qed
qed

definition demo_spilled :: queue_engine where
  "demo_spilled = set_initial_spill_offset (- 1) demo_pushed"

lemma demo_spilled_fields:
  "shards demo_spilled = shards demo_pushed" "options demo_spilled = demo_options"
  "base_epoch_sec demo_spilled = 1600000000" "spill_read_offset demo_spilled = - 1"
  "total_messages_in_ram demo_spilled = 1"
  by (simp_all add: demo_spilled_def set_initial_spill_offset_def demo_pushed_shards)

lemma demo_spilled_reach: "engine_reach demo_packages (0, demo_spilled)"
  unfolding demo_spilled_def by (rule reach_step [OF demo_pushed_reach step_spill_offset])

lemma demo_spilled_poll:
  "1600000010 = current_time_sec 10 demo_spilled" "poll_time demo_packages 0 1600000010 0 demo_spilled"
  "poll_clear 1600000010 (shard_idx ''jobs'') (shards demo_spilled)"
  using demo_poll_time demo_poll_clear
  by (simp_all add: current_time_sec_def demo_spilled_fields poll_time_def demo_pushed_shards)

lemma length_route [simp]: "length (route_expired now m ss) = length ss"
  by (simp add: route_expired_def Let_def)

lemma length_collect [simp]: "length (collect_and_route now s ss) = length ss"
proof -
  have "length (fold (route_expired now) ms ss) = length ss" for ms ss by (induction ms arbitrary: ss) simp_all
  then show ?thesis by (simp add: collect_and_route_def Let_def split: prod.split)
qed

lemma collect_and_route_idle:
  assumes "index_by_id (tw (ss ! s)) = []"
  shows "collect_and_route now s ss = ss[s := (ss ! s)\<lparr>tw := (tw (ss ! s))\<lparr>last_checked_sec := now\<rparr>\<rparr>]"
  using assms by (simp add: collect_and_route_def collect_expired_def Let_def)

lemma demo_collected:
  "collect_and_route 1600000010 (shard_idx ''jobs'') (shards demo_pushed) ! shard_idx ''jobs'' =
   (shard_of demo_pushed ''jobs'')\<lparr>tw := (tw_new 3600)\<lparr>last_checked_sec := 1600000010\<rparr>\<rparr>"
proof -
  have t: "tw (shard_of demo_pushed ''jobs'') = tw_new 3600" "length (shards demo_pushed) = NUM_SHARDS"
    by (simp_all add: demo_pushed_shards admit_messages shard_new_def)
  then have "index_by_id (tw (shard_of demo_pushed ''jobs'')) = []" by (simp add: tw_new_def Let_def)
  from collect_and_route_idle [OF this] t show ?thesis by simp
qed

lemma claim_only_one:
  "claim_ready (Suc (Suc n)) \<lparr>ready = [i], hot_delay_buckets = b, far_future = f, deleted = {}, last_drained_sec = t\<rparr> =
   ([i], \<lparr>ready = [], hot_delay_buckets = b, far_future = f, deleted = {}, last_drained_sec = t\<rparr>)"
  by (simp add: pop_ready_def)

lemma demo_claim:
  "claim_messages demo_packages 1600000010 ''jobs'' 5
     ((shard_of demo_pushed ''jobs'')\<lparr>tw := w\<rparr>) =
   ([7], (shard_of demo_pushed ''jobs'')\<lparr>tw := w, queues := [(''jobs'', (sq_new 1600000005)\<lparr>last_drained_sec := 1600000010\<rparr>)]\<rparr>)"
  using shard_idx_less [of "''jobs''"]
  by (simp add: claim_messages_def demo_pushed_shards store_msg_def enqueue_def shard_new_def sq_insert_def
      advance_and_drain_def sq_new_def Let_def demo_packages_def claim_only_one [of 3, simplified])

lemma demo_polled:
  "\<exists>e'. poll demo_packages 10 ''jobs'' 0 5 demo_spilled = (Inr [handed_out demo_packages 7 demo_msg (ulids_drawn demo_spilled)], e') \<and>
     messages (shard_of e' ''jobs'') = [(7, redelivered demo_msg)] \<and>
     tw (shard_of e' ''jobs'') = tw_insert (new_lease demo_packages ''jobs'' 1600000040 7 (ulids_drawn demo_spilled))
       ((tw_new 3600)\<lparr>last_checked_sec := 1600000010\<rparr>) \<and>
     seen_ids (shard_of e' ''jobs'') = {7} \<and> total_messages_in_ram e' = 1 \<and> options e' = demo_options \<and> base_epoch_sec e' = 1600000000"
proof -
  have now: "current_time_sec 10 demo_spilled = 1600000010" using demo_spilled_poll(1) by simp
  let ?e1 = "demo_spilled\<lparr>shards := collect_and_route 1600000010 (shard_idx ''jobs'') (shards demo_spilled)\<rparr>"
  have p: "shards (page_in_cold_spill demo_packages ''jobs'' 1600000010 n ?e1) = shards ?e1"
    "ulids_drawn (page_in_cold_spill demo_packages ''jobs'' 1600000010 n ?e1) = ulids_drawn demo_spilled"
    "options (page_in_cold_spill demo_packages ''jobs'' 1600000010 n ?e1) = demo_options"
    "base_epoch_sec (page_in_cold_spill demo_packages ''jobs'' 1600000010 n ?e1) = 1600000000"
    "total_messages_in_ram (page_in_cold_spill demo_packages ''jobs'' 1600000010 n ?e1) = 1" for n
    using page_in_past_end [of ?e1] by (simp_all add: page_in_cold_spill_def demo_spilled_fields)
  have s: "shards ?e1 ! shard_idx ''jobs'' =
      (shard_of demo_pushed ''jobs'')\<lparr>tw := (tw_new 3600)\<lparr>last_checked_sec := 1600000010\<rparr>\<rparr>"
    using demo_collected by (simp add: demo_spilled_fields(1))
  have m: "hm_get (messages (shard_of demo_pushed ''jobs'')) 7 = Some demo_msg"
    by (simp add: demo_pushed_shards admit_messages) (simp add: demo_msg_def)
  define e2 where "e2 = (if needs_page_in ''jobs'' (max (unat (5 :: u32) * 2) 200) (shards ?e1 ! shard_idx ''jobs'')
      then page_in_cold_spill demo_packages ''jobs'' 1600000010 (max (unat (5 :: u32) * 2) 200) ?e1 else ?e1)"
  have e2: "shards e2 ! shard_idx ''jobs'' =
      (shard_of demo_pushed ''jobs'')\<lparr>tw := (tw_new 3600)\<lparr>last_checked_sec := 1600000010\<rparr>\<rparr>"
    "ulids_drawn e2 = ulids_drawn demo_spilled" "length (shards e2) = NUM_SHARDS"
    "options e2 = demo_options" "base_epoch_sec e2 = 1600000000" "total_messages_in_ram e2 = 1"
    unfolding e2_def using p s length_collect [of 1600000010 "shard_idx ''jobs''" "shards demo_spilled"]
    by (simp_all only: if_distrib if_cancel) (simp_all add: demo_spilled_fields demo_pushed_shards(1))
  have ss: "seen_ids (shard_of demo_pushed ''jobs'') = {7}"
    by (simp add: demo_pushed_shards admit_messages)
  have mm: "messages (shard_of demo_pushed ''jobs'') = [(7, demo_msg)]"
    by (simp add: demo_pushed_shards admit_messages shard_new_def) (simp add: demo_msg_def)
  show ?thesis
    unfolding poll_def Let_def now e2_def [symmetric]
    using shard_idx_less [of "''jobs''"]
    by (simp add: e2 demo_claim m lease_one_Some mm ss poll_timeout_def demo_spilled_fields(2) demo_options_def)
qed


end
