(* ===== verification/Engine_Delivery.thy ===== *)
theory Engine_Delivery
  imports Engine_Properties
begin

text \<open>
  What the engine's operations do to a message: the end of a lease, redelivery and dead-lettering,
  the admission of a pushed message and the order of delivery.
\<close>

subsection \<open>Expiry\<close>

lemma messages_nth_update:
  "messages (ss[t := st] ! u) = (if u = t \<and> t < length ss then messages st else messages (ss ! u))"
  by (cases "t < length ss") (simp_all add: nth_list_update list_update_beyond)

lemma route_expired_messages:
  "messages (route_expired now m ss ! u) =
     (if u = shard_idx (sm_queue (expired_to now m)) \<and> u < length ss
      then hm_insert (sm_id m) (expired_to now m) (messages (ss ! u)) else messages (ss ! u))"
proof (cases "sm_delivery_count m \<ge> sm_max_delivery m")
  case True
  then show ?thesis by (simp add: route_expired_def expired_to_def Let_def messages_nth_update admit_messages)
next
  case False
  then show ?thesis by (simp add: route_expired_def expired_to_def Let_def messages_nth_update admit_messages)
qed

lemma route_lookup_other:
  "sm_id m \<noteq> j \<Longrightarrow> hm_get (messages (route_expired now m ss ! u)) j = hm_get (messages (ss ! u)) j"
  by (simp add: route_expired_messages)

lemma route_lookup_same:
  "length ss = NUM_SHARDS \<Longrightarrow>
   hm_get (messages (route_expired now m ss ! shard_idx (sm_queue (expired_to now m)))) (sm_id m) =
    Some (expired_to now m)"
  by (simp add: route_expired_messages)

lemma fold_route_other:
  "j \<notin> sm_id ` set ms \<Longrightarrow>
   hm_get (messages (fold (route_expired now) ms ss ! u)) j = hm_get (messages (ss ! u)) j"
  by (induction ms arbitrary: ss) (auto simp: route_lookup_other)

lemma fold_route_lookup:
  "length ss = NUM_SHARDS \<Longrightarrow> distinct (map sm_id ms) \<Longrightarrow> m \<in> set ms \<Longrightarrow>
   hm_get (messages (fold (route_expired now) ms ss ! shard_idx (sm_queue (expired_to now m)))) (sm_id m) =
     Some (expired_to now m)"
proof (induction ms arbitrary: ss)
  case Nil
  then show ?case by simp
next
  case (Cons x ms)
  show ?case
  proof (cases "x = m")
    case True
    with Cons.prems have "sm_id m \<notin> sm_id ` set ms" by auto
    from fold_route_other [OF this] route_lookup_same [OF Cons.prems(1), of now m] True show ?thesis by simp
  next
    case False
    with Cons show ?thesis by simp
  qed
qed

text \<open>
  C5. When the visibility timeout of a leased message has passed, the next poll of
  its shard ends the lease and puts the message, payload and delivery count unchanged, back at once:
  into its own queue while it has deliveries left, and otherwise into the dead-letter queue named
  after it. It is then waiting there and nowhere else.
\<close>

theorem expired_redelivered:
  assumes "engine_reach P (t, e)" "t \<le> now" "now \<noteq> 0" "poll_clear now s (shards e)" "s < NUM_SHARDS"
    and "hm_get (messages (shards e ! s)) i = Some m"
    and "tw_leases (tw (shards e ! s)) i = Some it" "if_expire_at it \<le> now"
    and "ss = collect_and_route now s (shards e)"
  shows "\<exists>m'. hm_get (messages (ss ! shard_idx (sm_queue m'))) i = Some m' \<and>
    sm_queue m' = (if sm_delivery_count m \<ge> sm_max_delivery m then dlq_name (sm_queue m) else sm_queue m) \<and>
    sm_payload m' = sm_payload m \<and> sm_delivery_count m' = sm_delivery_count m \<and> sm_visible_at m' = now \<and>
    waits_in (ss ! shard_idx (sm_queue m')) (sm_queue m') i \<and> \<not> leased (ss ! shard_idx (sm_queue m')) i"
proof -
  from engine_reach_ok [OF assms(1)] engine_ok_mono [OF _ assms(2)] have ok: "engine_ok now e" by simp
  then have ss: "shards_ok (shards e)" and ww: "wheels_ok now (shards e)" and len: "length (shards e) = NUM_SHARDS"
    by (simp_all add: engine_ok_def shards_ok_def)
  then have st: "shard_ok s {} (shards e ! s)" and fr: "wheel_fresh (tw (shards e ! s))"
    and le: "last_checked_sec (tw (shards e ! s)) \<le> now"
    using assms(5) by (simp_all add: shards_ok_def wheels_ok_def)
  note c = collect_and_route_spec [OF ss ww assms(3,5,4,9)]
  obtain ex w where ce: "collect_expired now (tw (shards e ! s)) = (ex, w)" by (metis prod.exhaust)
  obtain exs ms where te: "take_expired ex (messages (shards e ! s)) = (exs, ms)" by (metis prod.exhaust)
  note co = collect_ok [OF st fr le ce te]
  let ?m = "expired_to now m" and ?t = "shard_idx (sm_queue (expired_to now m))"
  have idm: "sm_id m = i" using shard_ok_custody(1) [OF st assms(6)] .
  from collect_expired_set [OF shard_okD(3) [OF st] fr le ce] assms(7,8) have it: "it \<in> set ex" by auto
  have iti: "if_id it = i" using assms(7) tw_leases_Some [of "tw (shards e ! s)" i it] shard_okD(3) [OF st]
    by (simp add: wheel_ok_def)
  from collect_expired_set [OF shard_okD(3) [OF st] fr le ce]
  have "exs = concat (map (\<lambda>it. case hm_get (messages (shards e ! s)) (if_id it) of Some m \<Rightarrow> [m] | None \<Rightarrow> []) ex)"
    using take_expired_spec [OF _ shard_okD(2) [OF st] te] by blast
  with it iti assms(6) have m: "m \<in> set exs" by (force split: option.splits)
  have "ss = fold (route_expired now) exs ((shards e)[s := (shards e ! s)\<lparr>tw := w, messages := ms\<rparr>])"
    by (simp add: assms(9) collect_and_route_def Let_def ce te)
  with fold_route_lookup [OF _ co(2) m, of _ now] len idm
  have look: "hm_get (messages (ss ! ?t)) i = Some ?m" by simp
  have nl: "\<not> leased (ss ! ?t) i"
  proof (cases "?t = s")
    case True
    have "i \<in> if_id ` set ex" using it iti by force
    then show ?thesis
      using c(4) [of ?t] True collect_expired_exact(6) [OF shard_okD(3) [OF st] fr le ce] by (simp add: leased_def ce)
  next
    case False
    then have "sm_delivery_count m \<ge> sm_max_delivery m"
      using shard_ok_custody(2) [OF st assms(6)] by (auto simp: expired_to_def split: if_splits)
    moreover have "dlq_clear s (shards e) m" using assms(4,6,7,8) by (auto simp: poll_clear_def)
    ultimately have "i \<notin> seen_ids (shards e ! ?t)" using False idm by (simp add: dlq_clear_def expired_to_def)
    from unseen_free [OF shards_okD [OF ss] this] c(4) [of ?t] False show ?thesis by (simp add: free_id_def leased_def)
  qed
  from shard_ok_custody(3) [OF shards_okD [OF c(1)] look] nl
  have "waits_in (ss ! ?t) (sm_queue ?m) i" by simp
  with look nl show ?thesis by (intro exI [of _ ?m]) (simp add: expired_to_def)
qed

definition demo_leased :: queue_engine where
  "demo_leased = snd (poll demo_packages 10 ''jobs'' 0 5 demo_spilled)"

lemma demo_leased_shard:
  "messages (shard_of demo_leased ''jobs'') = [(7, redelivered demo_msg)]"
  "tw_leases (tw (shard_of demo_leased ''jobs'')) =
     [7 \<mapsto> new_lease demo_packages ''jobs'' 1600000040 7 (ulids_drawn demo_spilled)]"
proof -
  let ?w = "(tw_new 3600)\<lparr>last_checked_sec := 1600000010\<rparr>"
  have "wheel_ok ?w" "tw_leases ?w = Map.empty"
    using tw_new_ok [of 3600] by (simp_all add: wheel_ok_def slots_ok_def tw_leases_def slot_of_def)
  with demo_polled tw_insert_leases [of ?w "new_lease demo_packages ''jobs'' 1600000040 7 (ulids_drawn demo_spilled)"]
  show "messages (shard_of demo_leased ''jobs'') = [(7, redelivered demo_msg)]"
  "tw_leases (tw (shard_of demo_leased ''jobs'')) =
     [7 \<mapsto> new_lease demo_packages ''jobs'' 1600000040 7 (ulids_drawn demo_spilled)]"
    by (auto simp: demo_leased_def new_lease_def)
qed

lemma demo_leased_reach: "engine_reach demo_packages (1600000010, demo_leased)"
  unfolding demo_leased_def by (rule reach_step [OF demo_spilled_reach step_poll [OF demo_spilled_poll]])

theorem expired_redelivered_witness:
  "waits_in (collect_and_route 1600000100 (shard_idx ''jobs'') (shards demo_leased) ! shard_idx ''jobs'') ''jobs'' 7"
proof -
  let ?ss = "collect_and_route 1600000100 (shard_idx ''jobs'') (shards demo_leased)"
    and ?it = "new_lease demo_packages ''jobs'' 1600000040 7 (ulids_drawn demo_spilled)"
  have "poll_clear 1600000100 (shard_idx ''jobs'') (shards demo_leased)"
    by (auto simp: poll_clear_def demo_leased_shard dlq_clear_def demo_msg_def word_le_nat_alt split: if_splits)
  moreover have "hm_get (messages (shards demo_leased ! shard_idx ''jobs'')) 7 = Some (redelivered demo_msg)"
    "tw_leases (tw (shards demo_leased ! shard_idx ''jobs'')) 7 = Some ?it" "if_expire_at ?it \<le> 1600000100"
    by (simp_all add: demo_leased_shard new_lease_def)
  moreover have "\<not> sm_delivery_count (redelivered demo_msg) \<ge> sm_max_delivery (redelivered demo_msg)"
    "sm_queue (redelivered demo_msg) = ''jobs''" by (simp_all add: demo_msg_def word_le_nat_alt)
  ultimately show ?thesis
    using expired_redelivered [OF demo_leased_reach _ _ _ shard_idx_less, of 1600000100 "''jobs''" 7 "redelivered demo_msg" ?it ?ss]
    by (auto simp del: stored_msg.simps)
qed

subsection \<open>Admission of a pushed message\<close>

abbreviation pushed_msg :: "queue_engine \<Rightarrow> string \<Rightarrow> ulid \<Rightarrow> bytes \<Rightarrow> u64 \<Rightarrow> stored_msg" where
  "pushed_msg e q i payload v \<equiv> \<lparr>sm_id = i, sm_queue = q, sm_payload = payload, sm_visible_at = v,
     sm_delivery_count = 0, sm_max_delivery = max_delivery_count (options e)\<rparr>"

lemma push_seen:
  "i \<in> seen_ids (shard_of e q) \<Longrightarrow>
   push_with_ulid P el q i payload delay e =
     (Inr (ulid_to_string P i),
      e\<lparr>disk := append_push_durable P i q (current_time_sec el e + delay) payload (disk e)\<rparr>)"
  by (simp add: push_with_ulid_def Let_def)

lemma push_admitted:
  assumes "engine_ok t e" "i \<notin> seen_ids (shard_of e q)" "v = current_time_sec el e + delay"
    and "v \<le> current_time_sec el e + HOT_DELAY_HORIZON_SEC" "total_messages_in_ram e < max_hot_messages_in_ram (options e)"
    and "push_with_ulid P el q i payload delay e = (res, e')"
  shows "shards e' = (shards e)[shard_idx q := store_msg (pushed_msg e q i payload v) (enqueue q i v (current_time_sec el e)
      ((shard_of e q)\<lparr>seen_ids := insert i (seen_ids (shard_of e q))\<rparr>))]"
    "total_messages_in_ram e' = total_messages_in_ram e + 1" "fs_create_ok P \<Longrightarrow> res = Inr (ulid_to_string P i)"
proof -
  have "\<not> hm_contains (messages (shard_of e q)) i"
    using unseen_free [OF shards_okD assms(2)] assms(1) by (simp add: engine_ok_def free_id_def hm_contains_def)
  then have c: "(res, e') = compact_then P (ulid_to_string P i)
     ((set_shard (shard_idx q) (store_msg (pushed_msg e q i payload v) (enqueue q i v (current_time_sec el e)
        ((shard_of e q)\<lparr>seen_ids := insert i (seen_ids (shard_of e q))\<rparr>)))
        (e\<lparr>disk := append_push_durable P i q v payload (disk e)\<rparr>))
       \<lparr>total_messages_in_ram := total_messages_in_ram e + 1\<rparr>)"
    using assms(2-6) by (simp add: push_with_ulid_def Let_def)
  note c = arg_cong [OF c, of fst] arg_cong [OF c, of snd]
  from c(2) show "shards e' = (shards e)[shard_idx q := store_msg (pushed_msg e q i payload v) (enqueue q i v (current_time_sec el e)
      ((shard_of e q)\<lparr>seen_ids := insert i (seen_ids (shard_of e q))\<rparr>))]"
    "total_messages_in_ram e' = total_messages_in_ram e + 1" by simp_all
  from c(1) show "fs_create_ok P \<Longrightarrow> res = Inr (ulid_to_string P i)" by (simp add: compact_then_result)
qed

lemma push_left_on_disk:
  assumes "i \<notin> seen_ids (shard_of e q)" "push_with_ulid P el q i payload delay e = (res, e')"
    and "\<not> (current_time_sec el e + delay \<le> current_time_sec el e + HOT_DELAY_HORIZON_SEC \<and>
          total_messages_in_ram e < max_hot_messages_in_ram (options e))"
  shows "shards e' = (shards e)[shard_idx q := (shard_of e q)\<lparr>seen_ids := insert i (seen_ids (shard_of e q))\<rparr>]"
    "total_messages_in_ram e' = total_messages_in_ram e" "fs_create_ok P \<Longrightarrow> res = Inr (ulid_to_string P i)"
proof -
  have c: "(res, e') = compact_then P (ulid_to_string P i)
     (set_shard (shard_idx q) ((shard_of e q)\<lparr>seen_ids := insert i (seen_ids (shard_of e q))\<rparr>)
        (e\<lparr>disk := append_push_durable P i q (current_time_sec el e + delay) payload (disk e)\<rparr>))"
    using assms(1,2) if_not_P [OF assms(3)] by (auto simp: push_with_ulid_def Let_def split: if_splits)
  note c = arg_cong [OF c, of fst] arg_cong [OF c, of snd]
  from c(2) show "shards e' = (shards e)[shard_idx q := (shard_of e q)\<lparr>seen_ids := insert i (seen_ids (shard_of e q))\<rparr>]"
    "total_messages_in_ram e' = total_messages_in_ram e" by simp_all
  from c(1) show "fs_create_ok P \<Longrightarrow> res = Inr (ulid_to_string P i)" by (simp add: compact_then_result)
qed

text \<open>
  C24. A push answers with the message's id. If the shard has seen the id before, memory
  is left as it is: a retried push is delivered once. Otherwise the id is recorded as seen, and the
  message is admitted to memory exactly when it is due within the horizon and the memory cap is not
  reached; it then waits in its queue, undelivered, with the given payload. No other message is touched.
\<close>

theorem push_semantics:
  assumes "engine_reach P (t, e)" "fs_create_ok P" "push_with_ulid P el q i payload delay e = (res, e')"
    and "now = current_time_sec el e"
  shows "res = Inr (ulid_to_string P i) \<and> i \<in> seen_ids (shard_of e' q) \<and>
    (\<forall>s j. s \<noteq> shard_idx q \<or> j \<noteq> i \<longrightarrow> hm_get (messages (shards e' ! s)) j = hm_get (messages (shards e ! s)) j) \<and>
    (if i \<in> seen_ids (shard_of e q) then shards e' = shards e
     else if now + delay \<le> now + HOT_DELAY_HORIZON_SEC \<and> total_messages_in_ram e < max_hot_messages_in_ram (options e)
     then hm_get (messages (shard_of e' q)) i = Some (pushed_msg e q i payload (now + delay)) \<and> waits_in (shard_of e' q) q i
     else hm_get (messages (shard_of e' q)) i = None)"
proof -
  from engine_reach_ok [OF assms(1)] have ok: "engine_ok t e" by simp
  then have len: "length (shards e) = NUM_SHARDS" and ss: "shards_ok (shards e)" by (simp_all add: engine_ok_def shards_ok_def)
  consider (seen) "i \<in> seen_ids (shard_of e q)"
    | (admitted) "i \<notin> seen_ids (shard_of e q)"
        "now + delay \<le> now + HOT_DELAY_HORIZON_SEC \<and> total_messages_in_ram e < max_hot_messages_in_ram (options e)"
    | (disk) "i \<notin> seen_ids (shard_of e q)"
        "\<not> (now + delay \<le> now + HOT_DELAY_HORIZON_SEC \<and> total_messages_in_ram e < max_hot_messages_in_ram (options e))"
    by blast
  then show ?thesis
  proof cases
    case seen
    with push_seen [OF seen, of P el payload delay] assms(3) show ?thesis by auto
  next
    case admitted
    note A = push_admitted [OF ok admitted(1) refl, of el delay P payload res e', folded assms(4), OF _ _ assms(3)]
    from admitted(2) have B: "shards e' = (shards e)[shard_idx q := store_msg (pushed_msg e q i payload (now + delay))
      (enqueue q i (now + delay) now ((shard_of e q)\<lparr>seen_ids := insert i (seen_ids (shard_of e q))\<rparr>))]"
      "res = Inr (ulid_to_string P i)" using A(1,3) assms(2) by simp_all
    have m: "hm_get (messages (shard_of e' q)) i = Some (pushed_msg e q i payload (now + delay))"
      using len by (simp add: B(1) admit_messages)
    have "tw (shard_of e' q) = tw (shard_of e q)" using len by (simp add: B(1) admit_messages)
    with unseen_free [OF shards_okD [OF ss] admitted(1)] have "\<not> leased (shard_of e' q) i" by (simp add: leased_def free_id_def)
    moreover have "shard_ok (shard_idx q) {} (shard_of e' q)"
      using push_with_ulid_ok [OF ok, of P el q i payload delay] assms(3) shards_okD by (simp add: engine_ok_def)
    ultimately have "waits_in (shard_of e' q) q i" using shard_ok_custody(3) [OF _ m] by simp
    with m admitted B(2) len show ?thesis by (auto simp: B(1) messages_nth_update admit_messages)
  next
    case disk
    note A = push_left_on_disk [OF disk(1) assms(3), folded assms(4), OF disk(2)]
    have "hm_get (messages (shard_of e q)) i = None"
      using unseen_free [OF shards_okD [OF ss] disk(1)] by (simp add: free_id_def)
    with disk A(3) [OF assms(2)] len show ?thesis by (auto simp: A(1) messages_nth_update)
  qed
qed

theorem push_semantics_witness:
  "waits_in (shard_of demo_pushed ''jobs'') ''jobs'' 7"
proof -
  obtain res where "push_with_ulid demo_packages 5 ''jobs'' 7 [1, 2, 3] 0 demo_engine = (res, demo_pushed)"
    by (metis demo_pushed_def prod.collapse)
  moreover have "fs_create_ok demo_packages" by (simp add: demo_packages_def)
  moreover have "7 \<notin> seen_ids (shard_of demo_engine ''jobs'')" "total_messages_in_ram demo_engine < max_hot_messages_in_ram (options demo_engine)"
    using shard_idx_less [of "''jobs''"] by (simp_all add: demo_engine_fields shard_new_def demo_options_def)
  ultimately show ?thesis
    using push_semantics [OF demo_reach _ _ refl, of 5 "''jobs''" 7 "[1, 2, 3]" 0 res demo_pushed]
    by (simp add: current_time_sec_def demo_engine_fields(3) HOT_DELAY_HORIZON_SEC_def)
qed

lemma word_suc_le: "(a :: 'a :: len word) < b \<Longrightarrow> a + 1 \<le> b"
  by (metis inc_le)

lemma push_batch_item_ram:
  assumes "bs_ram b = n + bs_added b" "bs_ram b \<le> max_hot_messages_in_ram opts"
    and "b' = push_batch_item P opts now q item b"
  shows "bs_ram b' = n + bs_added b'" "bs_ram b' \<le> max_hot_messages_in_ram opts"
proof -
  obtain i drawn where i: "(case pi_id item of Some i \<Rightarrow> (i, bs_drawn b)
      | None \<Rightarrow> (ulid_new P (bs_drawn b), Suc (bs_drawn b))) = (i, drawn)"
    by (metis prod.exhaust)
  note def = push_batch_item_def [of P opts now q item b, unfolded i, simplified, folded assms(3)]
  have "bs_ram b' = bs_ram b \<and> bs_added b' = bs_added b \<or>
    bs_ram b' = bs_ram b + 1 \<and> bs_added b' = bs_added b + 1 \<and> bs_ram b < max_hot_messages_in_ram opts"
    by (simp add: def Let_def)
  with assms(1,2) word_suc_le [of "bs_ram b" "max_hot_messages_in_ram opts"]
  show "bs_ram b' = n + bs_added b'" "bs_ram b' \<le> max_hot_messages_in_ram opts" by auto
qed

lemma fold_push_batch_ram:
  "bs_ram b = n + bs_added b \<Longrightarrow> bs_ram b \<le> max_hot_messages_in_ram opts \<Longrightarrow>
   bs_ram (fold (push_batch_item P opts now q) items b) = n + bs_added (fold (push_batch_item P opts now q) items b) \<and>
   bs_ram (fold (push_batch_item P opts now q) items b) \<le> max_hot_messages_in_ram opts"
proof (induction items arbitrary: b)
  case Nil
  then show ?case by simp
next
  case (Cons x items)
  note r = push_batch_item_ram [OF Cons.prems refl [of "push_batch_item P opts now q x b"]]
  from Cons.IH [OF r] show ?case unfolding fold_simps .
qed

text \<open>
  C36. Pushing, one message or a batch, never takes the number of messages in memory
  above the configured cap: what does not fit stays on disk.
\<close>

theorem push_respects_cap:
  assumes "total_messages_in_ram e \<le> max_hot_messages_in_ram (options e)"
  shows "total_messages_in_ram (snd (push_with_ulid P el q i payload delay e)) \<le> max_hot_messages_in_ram (options e) \<and>
    total_messages_in_ram (snd (push_batch P el q items e)) \<le> max_hot_messages_in_ram (options e)"
proof
  show "total_messages_in_ram (snd (push_with_ulid P el q i payload delay e)) \<le> max_hot_messages_in_ram (options e)"
    using assms word_suc_le [of "total_messages_in_ram e" "max_hot_messages_in_ram (options e)"]
    by (simp add: push_with_ulid_def Let_def)
next
  let ?b = "\<lparr>bs_shard = shard_of e q, bs_disk = disk e, bs_drawn = ulids_drawn e, bs_added = 0,
    bs_ram = total_messages_in_ram e, bs_ids = []\<rparr>"
  let ?b' = "fold (push_batch_item P (options e) (current_time_sec el e) q) items ?b"
  have "total_messages_in_ram e + bs_added ?b' \<le> max_hot_messages_in_ram (options e)"
    using fold_push_batch_ram [of ?b "total_messages_in_ram e" "options e" P "current_time_sec el e" q items] assms
    by simp metis
  with assms show "total_messages_in_ram (snd (push_batch P el q items e)) \<le> max_hot_messages_in_ram (options e)"
    by (simp add: push_batch_def Let_def)
qed

theorem push_respects_cap_witness:
  "total_messages_in_ram (snd (push_batch demo_packages 5 ''jobs''
     [\<lparr>pi_id = Some 8, pi_payload = [1], pi_delay_seconds = 0\<rparr>] demo_engine)) \<le> 1000"
  using push_respects_cap [of demo_engine demo_packages 5 "''jobs''" 0 "[]" 0
      "[\<lparr>pi_id = Some 8, pi_payload = [1], pi_delay_seconds = 0\<rparr>]"]
  by (simp add: demo_engine_fields demo_options_def del: fold.simps)

subsection \<open>Batches\<close>

definition push_one :: "packages \<Rightarrow> u64 \<Rightarrow> string \<Rightarrow> push_item \<Rightarrow> queue_engine \<Rightarrow> queue_engine" where
  "push_one P el q item e =
     (case pi_id item of
        Some i \<Rightarrow> snd (push_with_ulid P el q i (pi_payload item) (pi_delay_seconds item) e)
      | None \<Rightarrow> snd (push P el q (pi_payload item) (pi_delay_seconds item) e))"

lemma push_one_frame:
  "options (push_one P el q item e) = options e" "base_epoch_sec (push_one P el q item e) = base_epoch_sec e"
  "length (shards (push_one P el q item e)) = length (shards e)"
  by (simp_all add: push_one_def push_def push_with_ulid_def Let_def split: option.split)

lemma push_one_other: "s \<noteq> shard_idx q \<Longrightarrow> shards (push_one P el q item e) ! s = shards e ! s"
  by (simp add: push_one_def push_def push_with_ulid_def Let_def split: option.split)

text \<open>The batch works on a copy of the shard and the counters; \<open>batch_rel\<close> says what they stand for.\<close>

definition batch_rel :: "usize \<Rightarrow> string \<Rightarrow> batch_state \<Rightarrow> queue_engine \<Rightarrow> bool" where
  "batch_rel n0 q b e \<longleftrightarrow> bs_shard b = shard_of e q \<and> bs_drawn b = ulids_drawn e \<and>
     bs_ram b = total_messages_in_ram e \<and> total_messages_in_ram e = n0 + bs_added b"

lemma compact_then_drawn [simp]: "ulids_drawn (snd (compact_then P x e)) = ulids_drawn e"
  by (auto simp: compact_then_frame check_and_trigger_compaction_def split: prod.split sum.split)

lemma batch_rel_step:
  assumes "batch_rel n0 q b e" "length (shards e) = NUM_SHARDS"
  shows "batch_rel n0 q (push_batch_item P (options e) (current_time_sec el e) q item b) (push_one P el q item e)"
proof -
  let ?e = "case pi_id item of Some i \<Rightarrow> e | None \<Rightarrow> e\<lparr>ulids_drawn := Suc (ulids_drawn e)\<rparr>"
  obtain i drawn where i: "(case pi_id item of Some i \<Rightarrow> (i, bs_drawn b)
      | None \<Rightarrow> (ulid_new P (bs_drawn b), Suc (bs_drawn b))) = (i, drawn)"
    by (metis prod.exhaust)
  have one: "push_one P el q item e = snd (push_with_ulid P el q i (pi_payload item) (pi_delay_seconds item) ?e)"
    using i assms(1) by (cases "pi_id item") (auto simp: push_one_def push_def Let_def batch_rel_def)
  have E: "ulids_drawn ?e = drawn" "shards ?e = shards e" "options ?e = options e" "total_messages_in_ram ?e = total_messages_in_ram e"
    "current_time_sec el ?e = current_time_sec el e"
    using i assms(1) by (cases "pi_id item"; auto simp: batch_rel_def current_time_sec_def)+
  note def = push_batch_item_def [of P "options e" "current_time_sec el e" q item b, unfolded i, simplified]
  from assms(1) have b: "bs_shard b = shard_of e q" "bs_ram b = total_messages_in_ram e" "total_messages_in_ram e = n0 + bs_added b"
    by (simp_all add: batch_rel_def)
  show ?thesis
  proof (cases "i \<in> seen_ids (shard_of e q)")
    case True
    then show ?thesis using b by (simp add: one def push_with_ulid_def Let_def E batch_rel_def)
  next
    case new: False
    show ?thesis
    proof (cases "current_time_sec el e + pi_delay_seconds item \<le> current_time_sec el e + HOT_DELAY_HORIZON_SEC \<and>
        total_messages_in_ram e < max_hot_messages_in_ram (options e) \<and> \<not> hm_contains (messages (shard_of e q)) i")
      case True
      then show ?thesis using new b assms(2)
        by (simp add: one def push_with_ulid_def Let_def E batch_rel_def add.assoc)
    next
      case False
      then show ?thesis using new b assms(2)
        by (simp add: one def push_with_ulid_def Let_def E batch_rel_def)
    qed
  qed
qed

lemma batch_rel_fold:
  "batch_rel n0 q b e \<Longrightarrow> length (shards e) = NUM_SHARDS \<Longrightarrow> now = current_time_sec el e \<Longrightarrow> opts = options e \<Longrightarrow>
   batch_rel n0 q (fold (push_batch_item P opts now q) items b) (fold (push_one P el q) items e) \<and>
   (\<forall>s. s \<noteq> shard_idx q \<longrightarrow> shards (fold (push_one P el q) items e) ! s = shards e ! s) \<and>
   length (shards (fold (push_one P el q) items e)) = NUM_SHARDS"
proof (induction items arbitrary: b e)
  case Nil
  then show ?case by simp
next
  case (Cons x items)
  have "batch_rel n0 q (push_batch_item P opts now q x b) (push_one P el q x e)"
    using batch_rel_step [OF Cons.prems(1,2)] Cons.prems(3,4) by simp
  from Cons.IH [OF this] Cons.prems show ?case
    by (simp add: push_one_frame push_one_other current_time_sec_def)
qed

lemma batch_as_singles:
  assumes "length (shards e) = NUM_SHARDS"
  shows "shards (snd (push_batch P el q items e)) = shards (fold (push_one P el q) items e) \<and>
    total_messages_in_ram (snd (push_batch P el q items e)) = total_messages_in_ram (fold (push_one P el q) items e) \<and>
    ulids_drawn (snd (push_batch P el q items e)) = ulids_drawn (fold (push_one P el q) items e)"
proof -
  let ?b = "\<lparr>bs_shard = shard_of e q, bs_disk = disk e, bs_drawn = ulids_drawn e, bs_added = 0,
    bs_ram = total_messages_in_ram e, bs_ids = []\<rparr>"
  let ?b' = "fold (push_batch_item P (options e) (current_time_sec el e) q) items ?b" and ?e' = "fold (push_one P el q) items e"
  have "batch_rel (total_messages_in_ram e) q ?b e" by (simp add: batch_rel_def)
  from batch_rel_fold [OF this assms refl refl, of P el items]
  have R: "batch_rel (total_messages_in_ram e) q ?b' ?e'" and o: "\<forall>s. s \<noteq> shard_idx q \<longrightarrow> shards ?e' ! s = shards e ! s"
    and l: "length (shards ?e') = NUM_SHARDS" by blast+
  have "(shards e)[shard_idx q := bs_shard ?b'] = shards ?e'"
    using R o l assms by (intro nth_equalityI) (simp_all add: batch_rel_def nth_list_update)
  moreover have "bs_added ?b' = 0 \<Longrightarrow> total_messages_in_ram e = total_messages_in_ram ?e'" using R by (simp add: batch_rel_def)
  ultimately show ?thesis using R
    by (cases "bs_added ?b' = 0") (simp_all add: push_batch_def Let_def batch_rel_def word_gt_0 del: fold_simps)
qed



section \<open>The order of delivery\<close>

text \<open>The ids a queue of a shard can hand out at a time, from its head.\<close>

definition deliverable :: "packages \<Rightarrow> u64 \<Rightarrow> string \<Rightarrow> shard_state \<Rightarrow> ulid list" where
  "deliverable P now q st =
     (case hm_get (queues st) q of Some sq \<Rightarrow> sq_live (advance_and_drain (iter_secs P) now sq) | None \<Rightarrow> [])"

lemma claim_messages_live:
  assumes ok: "shard_ok s {} st" and ord: "iter_order (iter_secs P)" and now: "unat now + 300 < 2 ^ 64"
    and c: "claim_messages P now q n st = (is, st')"
  shows "is = take n (deliverable P now q st)" "messages st' = messages st"
    "\<exists>sq. hm_get (queues st') q = Some sq \<and> sq_live sq = drop n (deliverable P now q st) \<or>
          hm_get (queues st') q = None \<and> deliverable P now q st = []"
proof -
  show "messages st' = messages st" by (rule claim_messages_spec(3) [OF ok ord now c])
  have "is = take n (deliverable P now q st) \<and>
    (\<exists>sq. hm_get (queues st') q = Some sq \<and> sq_live sq = drop n (deliverable P now q st) \<or>
          hm_get (queues st') q = None \<and> deliverable P now q st = [])"
  proof (cases "hm_get (queues st) q")
    case None
    with c show ?thesis by (simp add: claim_messages_def deliverable_def)
  next
    case (Some sq)
    obtain sq' where cl: "claim_ready n (advance_and_drain (iter_secs P) now sq) = (is, sq')"
      and st': "st' = st\<lparr>queues := hm_insert q sq' (queues st)\<rparr>"
      using c Some by (auto simp: claim_messages_def split: prod.splits)
    from advance_keeps [OF shard_okD(4) [OF ok Some] ord now] have "sq_ok (advance_and_drain (iter_secs P) now sq)" by simp
    from sq.claim_take [OF conjI [OF iter_order_id this] cl] Some st' show ?thesis by (simp add: deliverable_def)
  qed
  then show "is = take n (deliverable P now q st)"
    "\<exists>sq. hm_get (queues st') q = Some sq \<and> sq_live sq = drop n (deliverable P now q st) \<or>
          hm_get (queues st') q = None \<and> deliverable P now q st = []" by blast+
qed

lemma map_enumerate_snd: "map (\<lambda>x. f (snd x)) (enumerate n xs) = map f xs"
  by (induction xs arbitrary: n) simp_all

text \<open>
  C11. A poll delivers from the head of the queue: once expired leases are back and the log has been paged in, it
  takes the first messages the queue can hand out, up to the requested number, and returns those
  that are still in memory in that order, skipping ids that were acknowledged meanwhile. What it did not take
  stays at the head of the queue, in order.
\<close>

theorem poll_fifo:
  assumes "engine_reach P (t, e)" "now = current_time_sec el e" "poll_time P t now vis e"
    and "poll_clear now (shard_idx q) (shards e)" "st = shard_of (prepared P now q maxm e) q"
    and "poll P el q vis maxm e = (res, e')"
  shows "\<exists>polled. res = Inr polled \<and>
    map pm_message_id polled =
      map (ulid_to_string P) (filter (hm_contains (messages st)) (take (unat maxm) (deliverable P now q st))) \<and>
    (\<forall>sq. hm_get (queues (shard_of e' q)) q = Some sq \<longrightarrow> sq_live sq = drop (unat maxm) (deliverable P now q st))"
proof -
  from engine_reach_ok [OF assms(1)] have ok: "engine_ok t e" by simp
  let ?e2 = "prepared P now q maxm e"
  obtain "is" st' where cl: "claim_messages P now q (unat maxm) st = (is, st')" by (metis prod.exhaust)
  from prepared_ok [OF ok assms(3,4) refl] have ss: "shards_ok (shards ?e2)" by (simp add: engine_ok_def)
  with shards_okD have st: "shard_ok (shard_idx q) {} st" and len: "length (shards ?e2) = NUM_SHARDS"
    by (simp_all add: assms(5) shards_ok_def)
  from assms(3) have tm: "iter_order (iter_secs P)" "unat now + 300 < 2 ^ 64" by (simp_all add: poll_time_def)
  note live = claim_messages_live [OF st tm cl]
  note d = claim_messages_spec(2) [OF st tm cl]
  define l where "l = fold (lease_one P q (now + ucast (poll_timeout (options e) vis))) is
      \<lparr>ls_messages = messages st', ls_wheel = tw st', ls_drawn = ulids_drawn ?e2, ls_polled = []\<rparr>"
  have p: "poll P el q vis maxm e = (Inr (ls_polled l),
      (set_shard (shard_idx q) (st'\<lparr>messages := ls_messages l, tw := ls_wheel l\<rparr>) ?e2)\<lparr>ulids_drawn := ls_drawn l\<rparr>)"
    using poll_prepared [OF assms(2) refl cl [unfolded assms(5)], of vis] by (simp add: l_def Let_def)
  with assms(6) len have e': "res = Inr (ls_polled l)" "queues (shard_of e' q) = queues st'" by auto
  have "ls_polled l = map (\<lambda>(n, i). handed_out P i (the (hm_get (messages st') i)) n)
      (enumerate (ulids_drawn ?e2) (in_ram (messages st') is))"
    using fold_lease_polled [OF d, of P q] by (simp add: l_def)
  then have "map pm_message_id (ls_polled l) = map (ulid_to_string P) (in_ram (messages st) is)"
    by (simp add: handed_out_def comp_def split_beta map_enumerate_snd live(2))
  moreover have "sq_live sq = drop (unat maxm) (deliverable P now q st)" if "hm_get (queues (shard_of e' q)) q = Some sq" for sq
    using that live(3) e'(2) by auto
  ultimately show ?thesis using e'(1) live(1) by auto
qed

theorem poll_fifo_witness:
  "\<exists>pm. fst (poll demo_packages 10 ''jobs'' 0 5 demo_spilled) = Inr [pm] \<and> pm_message_id pm = ulid_to_string demo_packages 7 \<and>
     map (ulid_to_string demo_packages)
       (filter (hm_contains (messages (shard_of (prepared demo_packages 1600000010 ''jobs'' 5 demo_spilled) ''jobs'')))
         (take 5 (deliverable demo_packages 1600000010 ''jobs'' (shard_of (prepared demo_packages 1600000010 ''jobs'' 5 demo_spilled) ''jobs''))))
     = [ulid_to_string demo_packages 7]"
proof -
  obtain e' where p: "poll demo_packages 10 ''jobs'' 0 5 demo_spilled = (Inr [handed_out demo_packages 7 demo_msg (ulids_drawn demo_spilled)], e')"
    using demo_polled by blast
  from poll_fifo [OF demo_spilled_reach demo_spilled_poll refl p] p show ?thesis by (auto simp: handed_out_def)
qed

end
