(* ===== verification/Engine_Recovery.thy ===== *)
theory Engine_Recovery
  imports Engine_Delivery
begin

text \<open>
  The engine and its log together: what a restart recovers, that an answered push and an answered
  acknowledgement survive it, and what compaction keeps.
\<close>

section \<open>The records as a map\<close>

text \<open>
  The meaning of a log: the last record of an id in a shard decides. A push stores the message as
  undelivered, an ack removes it.
\<close>

abbreviation logged_msg :: "queue_options \<Rightarrow> ulid \<Rightarrow> string \<Rightarrow> u64 \<Rightarrow> bytes \<Rightarrow> stored_msg" where
  "logged_msg opts i q v p \<equiv> \<lparr>sm_id = i, sm_queue = q, sm_payload = p, sm_visible_at = v,
     sm_delivery_count = 0, sm_max_delivery = max_delivery_count opts\<rparr>"

fun live_step :: "queue_options \<Rightarrow> wal_record \<Rightarrow> (nat \<times> ulid \<rightharpoonup> stored_msg) \<Rightarrow> (nat \<times> ulid \<rightharpoonup> stored_msg)" where
  "live_step opts (WalPush i q v p) M = M((shard_idx q, i) \<mapsto> logged_msg opts i q v p)"
| "live_step opts (WalAck i q) M = M((shard_idx q, i) := None)"

definition live :: "queue_options \<Rightarrow> wal_record list \<Rightarrow> (nat \<times> ulid \<rightharpoonup> stored_msg)" where
  "live opts rs = fold (live_step opts) rs Map.empty"

lemma live_snoc [simp]: "live opts (rs @ [r]) = live_step opts r (live opts rs)"
  by (simp add: live_def)

definition ram_map :: "shard_state list \<Rightarrow> (nat \<times> ulid \<rightharpoonup> stored_msg)" where
  "ram_map ss = (\<lambda>(s, i). if s < NUM_SHARDS then hm_get (messages (ss ! s)) i else None)"

lemma ram_map_nth_update:
  "length ss = NUM_SHARDS \<Longrightarrow> s < NUM_SHARDS \<Longrightarrow>
   ram_map (ss[s := st]) (u, j) = (if u = s then hm_get (messages st) j else ram_map ss (u, j))"
  by (simp add: ram_map_def messages_nth_update)

lemma ram_map_update:
  assumes "length ss = NUM_SHARDS" "s < NUM_SHARDS" "messages st = hm_insert i m (messages (ss ! s))"
  shows "ram_map (ss[s := st]) = (ram_map ss)((s, i) \<mapsto> m)"
proof (rule ext)
  fix k show "ram_map (ss[s := st]) k = ((ram_map ss)((s, i) \<mapsto> m)) k"
    using assms by (cases k) (auto simp: ram_map_nth_update, simp_all add: ram_map_def)
qed

lemma forget_msg_messages:
  "messages (snd (forget_msg q i st)) = (if hm_contains (messages st) i then hm_remove i (messages st) else messages st)"
  by (auto simp: forget_msg_def Let_def hm_contains_def split: option.split)

lemma ram_map_forget:
  assumes "length ss = NUM_SHARDS" "s < NUM_SHARDS" "forget_msg q i (ss ! s) = (b, st)"
  shows "ram_map (ss[s := st]) = (ram_map ss)((s, i) := None)"
proof -
  have "messages st = (if hm_contains (messages (ss ! s)) i then hm_remove i (messages (ss ! s)) else messages (ss ! s))"
    using forget_msg_messages [of q i "ss ! s"] assms(3) by simp
  then have "hm_get (messages st) j = (if j = i then None else hm_get (messages (ss ! s)) j)" for j
    by (simp add: hm_contains_def)
  then have "ram_map (ss[s := st]) k = ((ram_map ss)((s, i) := None)) k" for k
    using assms(1,2) by (cases k) (auto simp: ram_map_nth_update, simp_all add: ram_map_def)
  then show ?thesis by (rule ext)
qed

lemma replay_step:
  assumes "length ss = NUM_SHARDS" "unat tot + length (push_keys [r]) \<le> unat (max_hot_messages_in_ram opts)"
    and "replay_record opts base r (ss, tot) = (ss', tot')"
  shows "length ss' = NUM_SHARDS" "ram_map ss' = live_step opts r (ram_map ss)"
    "unat tot' \<le> unat tot + length (push_keys [r])"
proof -
  have "length ss' = NUM_SHARDS \<and> ram_map ss' = live_step opts r (ram_map ss) \<and>
    unat tot' \<le> unat tot + length (push_keys [r])"
  proof (cases r)
    case (WalPush i q v p)
    with assms(2) have lt: "tot < max_hot_messages_in_ram opts" by (simp add: word_less_nat_alt)
    have "unat tot + 1 < 2 ^ 64"
    proof -
      have "unat (max_hot_messages_in_ram opts) < 2 ^ 64"
        using unsigned_less [of "max_hot_messages_in_ram opts"] by simp
      with lt show ?thesis by (simp add: word_less_nat_alt)
    qed
    then have "unat (tot + 1) = Suc (unat tot)" using unat_plus_of_nat [of tot 1] by simp
    moreover have "ram_map (ss[shard_idx q := store_msg (logged_msg opts i q v p) (enqueue q i v base
        ((ss ! shard_idx q)\<lparr>seen_ids := insert i (seen_ids (ss ! shard_idx q))\<rparr>))]) =
        (ram_map ss)((shard_idx q, i) \<mapsto> logged_msg opts i q v p)"
      by (rule ram_map_update [OF assms(1) shard_idx_less]) (simp add: admit_messages)
    ultimately show ?thesis using assms WalPush lt by (auto simp: Let_def)
  next
    case (WalAck i q)
    obtain b st where f: "forget_msg q i (ss ! shard_idx q) = (b, st)" by (metis prod.exhaust)
    have "unat (sat_sub tot 1) \<le> unat tot" by (simp add: sat_sub_def unat_sub word_le_nat_alt)
    with assms WalAck f ram_map_forget [OF assms(1) shard_idx_less f] show ?thesis by (auto split: if_splits)
  qed
  then show "length ss' = NUM_SHARDS" "ram_map ss' = live_step opts r (ram_map ss)"
    "unat tot' \<le> unat tot + length (push_keys [r])" by blast+
qed

lemma push_keys_Cons: "push_keys (r # rs) = push_keys [r] @ push_keys rs"
  by (simp add: push_keys_def)

lemma replay_fold:
  "length ss = NUM_SHARDS \<Longrightarrow> unat tot + length (push_keys rs) \<le> unat (max_hot_messages_in_ram opts) \<Longrightarrow>
   ram_map (fst (fold (replay_record opts base) rs (ss, tot))) = fold (live_step opts) rs (ram_map ss)"
proof (induction rs arbitrary: ss tot)
  case Nil
  then show ?case by simp
next
  case (Cons r rs)
  obtain ss' tot' where s: "replay_record opts base r (ss, tot) = (ss', tot')" by (metis prod.exhaust)
  from Cons.prems(2) have le: "unat tot + length (push_keys [r]) + length (push_keys rs) \<le> unat (max_hot_messages_in_ram opts)"
    by (simp add: push_keys_Cons [of r rs])
  then have "unat tot + length (push_keys [r]) \<le> unat (max_hot_messages_in_ram opts)" by simp
  note st = replay_step [OF Cons.prems(1) this s]
  from st(3) le have "unat tot' + length (push_keys rs) \<le> unat (max_hot_messages_in_ram opts)" by simp
  from Cons.IH [OF st(1) this] st(2) s show ?case by simp
qed

lemma ram_map_new: "ram_map (replicate NUM_SHARDS shard_new) = Map.empty"
  by (rule ext) (auto simp: ram_map_def shard_new_def)

lemma engine_open_live:
  assumes "snd (disk_log_open P fa fb mf (max_wal_segment_size opts)) = rs"
    and "length (push_keys rs) \<le> unat (max_hot_messages_in_ram opts)"
  shows "ram_map (shards (engine_open P fa fb mf opts base)) = live opts rs"
proof -
  obtain d where o: "disk_log_open P fa fb mf (max_wal_segment_size opts) = (d, rs)" using assms(1) by (metis prod.collapse)
  obtain ss tot where f: "fold (replay_record opts base) rs (replicate NUM_SHARDS shard_new, 0) = (ss, tot)" by (metis prod.exhaust)
  from replay_fold [of "replicate NUM_SHARDS shard_new" 0 rs opts base] assms(2)
  show ?thesis by (simp add: engine_open_def o live_def ram_map_new f)
qed

lemma forget_msg_tw: "tw (snd (forget_msg q i st)) = tw st"
  by (simp add: forget_msg_def Let_def split: option.split)

lemma replay_record_tw: "tw (fst (replay_record opts base r x) ! u) = tw (fst x ! u)"
proof (cases x, cases r)
  fix ss tot i q v p assume "x = (ss, tot)" "r = WalPush i q v p"
  then show ?thesis by (cases "shard_idx q < length ss") (auto simp: Let_def nth_list_update admit_messages list_update_beyond)
next
  fix ss tot i q assume "x = (ss, tot)" "r = WalAck i q"
  with forget_msg_tw [of q i "ss ! shard_idx q"] show ?thesis
    by (cases "shard_idx q < length ss") (auto simp: Let_def nth_list_update list_update_beyond split: prod.split)
qed

lemma engine_open_leases:
  assumes "s < NUM_SHARDS"
  shows "tw_leases (tw (shards (engine_open P fa fb mf opts base) ! s)) = Map.empty"
proof -
  have "tw (fst (fold (replay_record opts base) rs x) ! s) = tw (fst x ! s)" for rs x
    by (induction rs arbitrary: x) (simp_all add: replay_record_tw)
  from this [of "snd (disk_log_open P fa fb mf (max_wal_segment_size opts))" "(replicate NUM_SHARDS shard_new, 0)"] assms
  have "tw (shards (engine_open P fa fb mf opts base) ! s) = tw_new 3600"
    by (auto simp: engine_open_def shard_new_def split: prod.split)
  with tw_new_ok [of 3600] show ?thesis by simp
qed

section \<open>Restart\<close>


definition demo_disk :: disk_log where
  "demo_disk = append_push_durable demo_packages 7 ''jobs'' 1577836900 [1, 2, 3] demo_log"

lemma demo_disk_records:
  "snd (disk_log_open demo_packages (wal_a demo_disk) (wal_b demo_disk) (manifest (registry demo_disk)) m) = [demo_rec]"
  using durable_reopen [OF demo_log_rel _ demo_disk_def [unfolded append_push_durable_def Let_def], of "next_waiter demo_log" m]
    demo_can_write
  by (simp add: demo_log_fields demo_log_registry demo_rec_def)


text \<open>Between operations of the engine nothing is waiting in the writer's channel, and after a
  compaction the frozen segment is empty; the log then is the active segment.\<close>

definition log_holds :: "packages \<Rightarrow> disk_log \<Rightarrow> wal_record list \<Rightarrow> bool" where
  "log_holds P d rs \<longleftrightarrow> chan d = [] \<and>
     (if active_is_b d then log_rel P d [] rs else log_rel P d rs [])"

lemma log_holds_append:
  assumes "log_holds P d rs" "can_write (registry d) (cmd_recs c)"
    and "d' = writer_drain P (d\<lparr>chan := chan d @ [c], next_waiter := Suc (next_waiter d)\<rparr>)"
  shows "log_holds P d' (rs @ cmd_recs c)"
proof (cases "active_is_b d")
  case True
  with assms durable_spec [of P d "[]" rs c "[]" d'] show ?thesis by (simp add: log_holds_def pending_def)
next
  case False
  with assms durable_spec [of P d rs "[]" c "[]" d'] show ?thesis by (simp add: log_holds_def pending_def)
qed

lemma log_holds_reopen:
  "log_holds P d rs \<Longrightarrow> snd (disk_log_open P (wal_a d) (wal_b d) (manifest (registry d)) m) = rs"
  using reopen_clean [of P d "[]" rs m] reopen_clean [of P d rs "[]" m] by (simp add: log_holds_def split: if_splits)

lemma segment_nonempty:
  assumes "bytes_be P" "segment P reg bs rs" "rs \<noteq> []"
  shows "bs \<noteq> []"
proof -
  obtain r rs' where r: "rs = r # rs'" using assms(3) by (cases rs) auto
  have "length (encode_record P reg r) > 0"
    by (cases r) (simp_all add: length_encode_push [OF assms(1)] length_encode_ack [OF assms(1)] del: length_greater_0_conv)
  with assms(2) show ?thesis by (auto simp: segment_def r)
qed

lemma log_holds_opened:
  assumes "log_holds P d rs"
  shows "log_holds P (fst (disk_log_open P (wal_a d) (wal_b d) (manifest (registry d)) m)) rs"
proof (cases "active_is_b d")
  case True
  with assms have rel: "log_rel P d [] rs" by (simp add: log_holds_def)
  then have "wal_a d = []" "rs \<noteq> [] \<longrightarrow> wal_b d \<noteq> []" "rs = [] \<longrightarrow> wal_b d = []"
    using segment_nonempty [of P "registry d" "wal_b d" rs] by (auto simp: log_rel_def)
  with reopen_rel(1) [OF rel, of m] show ?thesis
    by (cases "rs = []") (simp_all add: log_holds_def disk_log_open_def Let_def)
next
  case False
  with assms have rel: "log_rel P d rs []" by (simp add: log_holds_def)
  then have "wal_b d = []" by (simp add: log_rel_def)
  with reopen_rel(1) [OF rel, of m] show ?thesis by (simp add: log_holds_def disk_log_open_def Let_def)
qed

lemma compact_then_idle: "\<not> should_compact (disk e) \<Longrightarrow> compact_then P x e = (Inr x, e)"
  by (simp add: compact_then_def check_and_trigger_compaction_def)

lemma push_disk:
  assumes "\<not> should_compact (append_push_durable P i q (current_time_sec el e + delay) payload (disk e))"
  shows "disk (snd (push_with_ulid P el q i payload delay e)) =
    append_push_durable P i q (current_time_sec el e + delay) payload (disk e)"
  using assms by (simp add: push_with_ulid_def Let_def compact_then_idle)

lemma push_recovered:
  assumes "log_holds P (disk e) rs" "v = current_time_sec el e + delay"
    and "can_write (registry (disk e)) [WalPush i q v payload]" "length (push_keys rs) < unat (max_hot_messages_in_ram opts)"
    and "\<not> should_compact (append_push_durable P i q v payload (disk e))"
    and "push_with_ulid P el q i payload delay e = (res, e')"
  shows "ram_map (shards (engine_open P (wal_a (disk e')) (wal_b (disk e')) (manifest (registry (disk e'))) opts base)) =
    (live opts rs)((shard_idx q, i) \<mapsto> logged_msg opts i q v payload)"
proof -
  let ?c = "CmdPush i q v payload (Some (next_waiter (disk e)))"
  have d: "disk e' = append_push_durable P i q v payload (disk e)"
    using push_disk [of P i q el e delay payload] assms(2,5,6) by simp
  have "log_holds P (disk e') (rs @ cmd_recs ?c)"
    by (rule log_holds_append [OF assms(1)]) (simp_all add: assms(3) d append_push_durable_def)
  note r = log_holds_reopen [OF this, of "max_wal_segment_size opts"]
  have "length (push_keys (rs @ cmd_recs ?c)) \<le> unat (max_hot_messages_in_ram opts)"
    using assms(4) by (simp add: push_keys_def)
  from engine_open_live [OF r this, of base] show ?thesis by simp
qed

text \<open>
  C14. A push that has been answered survives a restart: the engine opened on the
  files then holds the pushed message with its payload and time, waiting to be delivered, and every
  other message the log held before, and nothing else.
\<close>

theorem push_survives_restart:
  assumes "log_holds P (disk e) rs" "v = current_time_sec el e + delay"
    and "can_write (registry (disk e)) [WalPush i q v payload]" "length (push_keys rs) < unat (max_hot_messages_in_ram opts)"
    and "\<not> should_compact (append_push_durable P i q v payload (disk e))"
    and "push_with_ulid P el q i payload delay e = (res, e')" "s < NUM_SHARDS"
    and "e2 = engine_open P (wal_a (disk e')) (wal_b (disk e')) (manifest (registry (disk e'))) opts base"
  shows "hm_get (messages (shards e2 ! s)) j =
    (if s = shard_idx q \<and> j = i then Some (logged_msg opts i q v payload) else live opts rs (s, j))"
  using fun_cong [OF push_recovered [OF assms(1-6), of base], of "(s, j)"] assms(7,8)
  by (simp add: ram_map_def)

lemma demo_log_holds: "disk demo_engine = demo_log" "log_holds demo_packages demo_log []"
proof -
  show "disk demo_engine = demo_log"
    using demo_opened [of 1048576]
    by (simp add: demo_engine_def engine_open_def demo_log_def demo_options_def split: prod.split)
  show "log_holds demo_packages demo_log []" by (simp add: log_holds_def demo_log_fields demo_log_rel)
qed

lemma ack_disk:
  assumes "engine_ok t e" "parse_id_fast P mid = Some i" "tw_leases (tw (shard_of e q)) i = Some it" "if_receipt it = r"
    and "\<not> should_compact (append_ack_durable P i q (disk e))"
  shows "disk (snd (ack P q mid r e)) = append_ack_durable P i q (disk e)"
proof -
  have st: "shard_ok (shard_idx q) {} (shard_of e q)" using assms(1) shards_okD by (simp add: engine_ok_def)
  obtain v w where rm: "remove_if_valid i r (tw (shard_of e q)) = (v, w)" by (metis prod.exhaust)
  from remove_if_valid_ok [OF shard_okD(3) [OF st] rm] assms(3,4) have v: "v" by auto
  obtain b st' where "ack_msg q i ((shard_of e q)\<lparr>tw := w\<rparr>) = (b, st')" by (metis prod.exhaust)
  with assms(2,5) rm v show ?thesis by (simp add: ack_def Let_def compact_then_idle)
qed


text \<open>
  C40. A push is logged before the duplicate check. When a client retries the
  push of a message that has been consumed and acknowledged meanwhile, memory stays as it is, but
  the retry is in the log behind the acknowledgement: after a restart the message is back.
\<close>

theorem duplicate_push_resurrects:
  assumes "i \<in> seen_ids (shard_of e q)" "hm_get (messages (shard_of e q)) i = None" "live opts rs (shard_idx q, i) = None"
    and "log_holds P (disk e) rs" "v = current_time_sec el e + delay"
    and "can_write (registry (disk e)) [WalPush i q v payload]" "length (push_keys rs) < unat (max_hot_messages_in_ram opts)"
    and "\<not> should_compact (append_push_durable P i q v payload (disk e))"
    and "push_with_ulid P el q i payload delay e = (res, e')"
    and "e2 = engine_open P (wal_a (disk e')) (wal_b (disk e')) (manifest (registry (disk e'))) opts base"
  shows "hm_get (messages (shard_of e' q)) i = None \<and>
    hm_get (messages (shard_of e2 q)) i = Some (logged_msg opts i q v payload)"
proof
  show "hm_get (messages (shard_of e' q)) i = None"
    using push_seen [OF assms(1), of P el payload delay] assms(2,9) by auto
  show "hm_get (messages (shard_of e2 q)) i = Some (logged_msg opts i q v payload)"
    using fun_cong [OF push_recovered [OF assms(4-9), of base], of "(shard_idx q, i)"] assms(10)
    by (simp add: ram_map_def)
qed

subsection \<open>Concrete logs\<close>

text \<open>A log of the small engine that holds \<open>rs\<close> and has room for \<open>xs\<close>.\<close>

definition demo_holds :: "disk_log \<Rightarrow> wal_record list \<Rightarrow> wal_record list \<Rightarrow> bool" where
  "demo_holds d rs xs \<longleftrightarrow> log_holds demo_packages d rs \<and> bytes_counted d \<and>
     max_segment_size d = 1048576 \<and> can_write (registry d) xs"

lemma demo_holds_append:
  assumes "demo_holds d rs (cmd_recs c @ xs)"
    and "d' = writer_drain demo_packages (d\<lparr>chan := chan d @ [c], next_waiter := Suc (next_waiter d)\<rparr>)"
  shows "demo_holds d' (rs @ cmd_recs c) xs"
proof -
  from assms(1) have l: "log_holds demo_packages d rs" and c: "can_write (registry d) (cmd_recs c @ xs)"
    and b: "bytes_counted d" "max_segment_size d = 1048576" by (simp_all add: demo_holds_def)
  from can_write_append(1) [OF c] have "can_write (registry d) (cmd_recs c)" by simp
  note h = log_holds_append [OF l this assms(2)]
  from l have ch: "chan d = []" and "\<exists>ra rb. log_rel demo_packages d ra rb"
    by (auto simp: log_holds_def split: if_splits)
  then obtain ra rb where rel: "log_rel demo_packages d ra rb" by blast
  have "can_write (registry d) (pending (chan d) @ cmd_recs c @ xs)" using c by (simp add: ch)
  note D = durable_spec [OF rel this assms(2)]
  from D(5,6) D(7) [OF b(1)] b(2) h show ?thesis by (simp add: demo_holds_def)
qed

lemma demo_holds_simps:
  "demo_holds d rs (WalPush i q v p # xs) \<Longrightarrow> demo_holds (append_push_durable demo_packages i q v p d) (rs @ [WalPush i q v p]) xs"
  "demo_holds d rs (WalAck i q # xs) \<Longrightarrow> demo_holds (append_ack_durable demo_packages i q d) (rs @ [WalAck i q]) xs"
  "demo_holds d rs xs \<Longrightarrow> demo_holds (flush demo_packages d) rs xs"
  using demo_holds_append [of d rs "CmdPush i q v p (Some (next_waiter d))" xs]
    demo_holds_append [of d rs "CmdAck i q (Some (next_waiter d))" xs]
    demo_holds_append [of d rs "CmdFlush (next_waiter d)" xs]
  by (simp_all add: append_push_durable_def append_ack_durable_def flush_def)

lemma demo_holds_start: "demo_holds demo_log [] xs" if "\<forall>r \<in> set xs. rec_ok r \<and> wr_queue_name r = ''jobs''"
proof -
  have "wr_queue_name ` set xs \<subseteq> {''jobs''}" using that by auto
  then have "card (wr_queue_name ` set xs) \<le> 1" using card_mono [of "{''jobs''}"] by fastforce
  with that show ?thesis
    by (simp add: demo_holds_def demo_log_holds can_write_def demo_log_registry bytes_counted_def)
      (simp add: demo_log_def disk_log_open_def Let_def active_file_def)
qed

lemma demo_holds_small:
  assumes "demo_holds d rs xs" "\<forall>reg. length (wal_bytes demo_packages reg rs) < 1048576"
  shows "\<not> should_compact d"
proof -
  from assms(1) have "active_file d = wal_bytes demo_packages (registry d) rs"
    by (auto simp: demo_holds_def log_holds_def log_rel_def segment_def active_file_def split: if_splits)
  with assms(1) have "active_bytes d = word_of_nat (length (wal_bytes demo_packages (registry d) rs))"
    by (simp add: demo_holds_def bytes_counted_def)
  moreover have "length (wal_bytes demo_packages (registry d) rs) < 1048576" using assms(2) by blast
  ultimately show ?thesis using assms(1)
    by (simp add: demo_holds_def should_compact_def word_le_nat_alt unat_of_nat_lt)
qed

lemma demo_encode_length [simp]:
  "length (encode_push demo_packages i k v p) = 27 + length p" "length (encode_ack demo_packages i k) = 19"
  using length_encode_push [OF demo_packages_be] length_encode_ack [OF demo_packages_be] by simp_all

abbreviation demo_push_rec :: wal_record where
  "demo_push_rec \<equiv> WalPush 7 ''jobs'' 1600000005 [1, 2, 3]"

lemma demo_pushed_holds:
  "\<forall>r \<in> set xs. rec_ok r \<and> wr_queue_name r = ''jobs'' \<Longrightarrow> demo_holds (disk demo_pushed) [demo_push_rec] xs"
proof -
  assume xs: "\<forall>r \<in> set xs. rec_ok r \<and> wr_queue_name r = ''jobs''"
  have t: "current_time_sec 5 demo_engine + 0 = 1600000005" by (simp add: current_time_sec_def demo_engine_fields)
  have "demo_holds demo_log [] (demo_push_rec # xs)"
    by (rule demo_holds_start) (simp add: xs demo_names time_ok_def EPOCH_2020_SEC_def)
  from demo_holds_simps(1) [OF this]
  have h: "demo_holds (append_push_durable demo_packages 7 ''jobs'' 1600000005 [1, 2, 3] demo_log) [demo_push_rec] xs" by simp
  then have "\<not> should_compact (append_push_durable demo_packages 7 ''jobs'' 1600000005 [1, 2, 3] demo_log)"
    by (rule demo_holds_small) simp
  with h push_disk [of demo_packages 7 "''jobs''" 5 demo_engine 0 "[1, 2, 3]"] t show ?thesis
    by (simp add: demo_pushed_def demo_log_holds)
qed

theorem push_survives_restart_witness:
  "hm_get (messages (shard_of (engine_open demo_packages (wal_a (disk demo_pushed)) (wal_b (disk demo_pushed))
     (manifest (registry (disk demo_pushed))) demo_options 1700000000) ''jobs'')) 7 =
   Some (logged_msg demo_options 7 ''jobs'' 1600000005 [1, 2, 3])"
proof -
  obtain res where p: "push_with_ulid demo_packages 5 ''jobs'' 7 [1, 2, 3] 0 demo_engine = (res, demo_pushed)"
    by (metis demo_pushed_def prod.collapse)
  have t: "1600000005 = current_time_sec 5 demo_engine + 0" by (simp add: current_time_sec_def demo_engine_fields)
  have c: "can_write (registry (disk demo_engine)) [WalPush 7 ''jobs'' 1600000005 [1, 2, 3]]"
    by (simp add: demo_log_holds demo_log_registry can_write_def demo_names time_ok_def EPOCH_2020_SEC_def)
  have s: "\<not> should_compact (append_push_durable demo_packages 7 ''jobs'' 1600000005 [1, 2, 3] (disk demo_engine))"
  proof -
    have "demo_holds demo_log [] [demo_push_rec]"
      by (rule demo_holds_start) (simp add: demo_names time_ok_def EPOCH_2020_SEC_def)
    from demo_holds_small [OF demo_holds_simps(1) [OF this]] show ?thesis by (simp add: demo_log_holds)
  qed
  have l: "log_holds demo_packages (disk demo_engine) []" by (simp add: demo_log_holds)
  from push_survives_restart [where opts = demo_options and base = 1700000000 and j = 7,
      OF l t c _ s p shard_idx_less [of "''jobs''"] refl]
  show ?thesis by (simp add: demo_options_def)
qed

lemma page_in_past_end_disk:
  "spill_read_offset e = - 1 \<Longrightarrow> disk (page_in_loop P q now n False e) = flush P (disk e)"
  by (subst page_in_loop.simps, subst page_in_loop.simps) (simp add: read_past_end)

lemma demo_leased_disk: "disk demo_leased = flush demo_packages (disk demo_pushed)"
proof -
  let ?e1 = "demo_spilled\<lparr>shards := collect_and_route 1600000010 (shard_idx ''jobs'') (shards demo_spilled)\<rparr>"
  have now: "current_time_sec 10 demo_spilled = 1600000010" using demo_spilled_poll(1) by simp
  have "shards ?e1 ! shard_idx ''jobs'' =
      (shard_of demo_pushed ''jobs'')\<lparr>tw := (tw_new 3600)\<lparr>last_checked_sec := 1600000010\<rparr>\<rparr>"
    using demo_collected by (simp add: demo_spilled_fields(1))
  then have n: "needs_page_in ''jobs'' (max (unat (5 :: u32) * 2) 200) (shards ?e1 ! shard_idx ''jobs'')"
    using shard_idx_less [of "''jobs''"]
    by (simp add: needs_page_in_def demo_pushed_shards store_msg_def enqueue_def shard_new_def sq_insert_def
        sq_new_def ready_len_def)
  have "disk (page_in_cold_spill demo_packages ''jobs'' 1600000010 (max (unat (5 :: u32) * 2) 200) ?e1) =
      flush demo_packages (disk demo_pushed)"
    using page_in_past_end_disk [of ?e1]
    by (simp add: page_in_cold_spill_def demo_spilled_fields demo_spilled_def set_initial_spill_offset_def)
  then show ?thesis
    unfolding demo_leased_def poll_def Let_def now using n by (simp split: prod.split)
qed


definition demo_acked :: queue_engine where
  "demo_acked = snd (ack_follower demo_packages ''jobs'' (ulid_to_string demo_packages 7) demo_pushed)"

lemma demo_acked_fields:
  "7 \<in> seen_ids (shard_of demo_acked ''jobs'')" "hm_get (messages (shard_of demo_acked ''jobs'')) 7 = None"
  "current_time_sec 20 demo_acked = 1600000020"
  "\<forall>r \<in> set xs. rec_ok r \<and> wr_queue_name r = ''jobs'' \<Longrightarrow> demo_holds (disk demo_acked) [demo_push_rec, WalAck 7 ''jobs''] xs"
proof -
  have p: "parse_id_fast demo_packages (ulid_to_string demo_packages 7) = Some 7"
    using demo_packages_strings by (simp add: parse_id_fast_def ulid_strings_def)
  have h: "demo_holds (append_ack_durable demo_packages 7 ''jobs'' (disk demo_pushed)) [demo_push_rec, WalAck 7 ''jobs''] xs"
    if "\<forall>r \<in> set xs. rec_ok r \<and> wr_queue_name r = ''jobs''" for xs
    using demo_holds_simps(2) [OF demo_pushed_holds, of 7 "''jobs''" xs] that by (simp add: demo_names)
  have s: "\<not> should_compact (append_ack_durable demo_packages 7 ''jobs'' (disk demo_pushed))"
    by (rule demo_holds_small [OF h [of "[]"]]) simp_all
  obtain b st where f: "forget_msg ''jobs'' 7 (shard_of demo_pushed ''jobs'') = (b, st)" by (metis prod.exhaust)
  have len: "length (shards demo_pushed) = NUM_SHARDS" by (simp add: demo_pushed_shards)
  have "7 \<in> seen_ids (shard_of demo_pushed ''jobs'')" by (simp add: demo_pushed_shards admit_messages)
  moreover have "seen_ids st = seen_ids (shard_of demo_pushed ''jobs'')" "hm_get (messages st) 7 = None"
    using f by (auto simp: forget_msg_def Let_def split: option.splits)
  ultimately show "7 \<in> seen_ids (shard_of demo_acked ''jobs'')" "hm_get (messages (shard_of demo_acked ''jobs'')) 7 = None"
    using len s by (simp_all add: demo_acked_def ack_follower_def p f Let_def compact_then_idle)
  have "base_epoch_sec demo_acked = base_epoch_sec demo_pushed"
    using s by (simp add: demo_acked_def ack_follower_def p f Let_def compact_then_idle)
  then show "current_time_sec 20 demo_acked = 1600000020" by (simp add: current_time_sec_def demo_pushed_shards)
  show "demo_holds (disk demo_acked) [demo_push_rec, WalAck 7 ''jobs''] xs"
    if "\<forall>r \<in> set xs. rec_ok r \<and> wr_queue_name r = ''jobs''"
    using h [OF that] s by (simp add: demo_acked_def ack_follower_def p f Let_def compact_then_idle)
qed

theorem duplicate_push_resurrects_witness:
  "\<exists>e'. snd (push_with_ulid demo_packages 20 ''jobs'' 7 [1, 2, 3] 0 demo_acked) = e' \<and>
     hm_get (messages (shard_of e' ''jobs'')) 7 = None \<and>
     hm_get (messages (shard_of (engine_open demo_packages (wal_a (disk e')) (wal_b (disk e'))
       (manifest (registry (disk e'))) demo_options 1700000000) ''jobs'')) 7 =
       Some (logged_msg demo_options 7 ''jobs'' 1600000020 [1, 2, 3])"
proof -
  let ?r = "WalPush 7 ''jobs'' 1600000020 [1, 2, 3]"
  obtain res e' where p: "push_with_ulid demo_packages 20 ''jobs'' 7 [1, 2, 3] 0 demo_acked = (res, e')" by (metis prod.exhaust)
  have h: "demo_holds (disk demo_acked) [demo_push_rec, WalAck 7 ''jobs''] [?r]"
    by (rule demo_acked_fields) (simp add: demo_names time_ok_def EPOCH_2020_SEC_def)
  then have l: "log_holds demo_packages (disk demo_acked) [demo_push_rec, WalAck 7 ''jobs'']"
    "can_write (registry (disk demo_acked)) [?r]" by (simp_all add: demo_holds_def)
  have s: "\<not> should_compact (append_push_durable demo_packages 7 ''jobs'' 1600000020 [1, 2, 3] (disk demo_acked))"
    by (rule demo_holds_small [OF demo_holds_simps(1) [OF h]]) simp
  have t: "1600000020 = current_time_sec 20 demo_acked + 0" by (simp add: demo_acked_fields)
  from duplicate_push_resurrects [where opts = demo_options and base = 1700000000,
      OF demo_acked_fields(1,2) _ l(1) t l(2) _ s p refl] p
  show ?thesis by (simp add: live_def demo_options_def)
qed

section \<open>Compaction\<close>

lemma live_pushes:
  assumes "\<forall>r \<in> set rs. is_push r" "\<forall>i q v p. WalPush i q v p \<in> set rs \<longrightarrow> shard_idx q = s \<longrightarrow> i = j \<longrightarrow> logged_msg opts i q v p = m"
  shows "live opts rs (s, j) = (if (s, j) \<in> set (push_keys rs) then Some m else None)"
  using assms
proof (induction rs rule: rev_induct)
  case Nil
  then show ?case by (simp add: live_def)
next
  case (snoc r rs)
  from snoc have ih: "live opts rs (s, j) = (if (s, j) \<in> set (push_keys rs) then Some m else None)" by auto
  obtain i q v p where r: "r = WalPush i q v p" using snoc.prems(1) by (cases r) (auto simp: is_push_def)
  have k: "push_keys (rs @ [r]) = push_keys rs @ [(shard_idx q, i)]" by (simp add: push_keys_def r)
  show ?case using ih snoc.prems(2) unfolding k by (auto simp: r)
qed

lemma set_survivors:
  assumes "iter_order (iter_ids P)"
  shows "set (shard_survivors P st) =
    {(i, sm_queue m, sm_visible_at m, sm_payload m) | i m. hm_get (messages st) i = Some m}"
proof -
  have k: "set (iter_ids P (hm_keys (messages st))) = {i. hm_get (messages st) i \<noteq> None}"
    using iter_orderD [OF assms, of "hm_keys (messages st)"] by (auto simp: map_of_eq_None_iff image_iff dest: map_of_SomeD)
  then show ?thesis by (force simp: shard_survivors_def split: option.splits)
qed

lemma length_survivors:
  assumes "iter_order (iter_ids P)"
  shows "length (shard_survivors P st) = length (messages st)"
proof -
  have "mset (iter_ids P (hm_keys (messages st))) = mset (hm_keys (messages st))" using assms by (simp add: iter_order_def)
  then have l: "length (iter_ids P (hm_keys (messages st))) = length (messages st)"
    and k: "set (iter_ids P (hm_keys (messages st))) = set (hm_keys (messages st))"
    by (metis size_mset length_map, metis set_mset_mset)
  have "length (concat (map (\<lambda>i. case hm_get (messages st) i of Some m \<Rightarrow> [(i, sm_queue m, sm_visible_at m, sm_payload m)]
      | None \<Rightarrow> []) is)) = length is" if "set is \<subseteq> set (hm_keys (messages st))" for "is"
    using that by (induction "is") (auto split: option.splits simp: map_of_eq_None_iff)
  from this [of "iter_ids P (hm_keys (messages st))"] l k show ?thesis by (simp add: shard_survivors_def)
qed

lemma compaction_records:
  assumes "log_holds P d rs" "can_write (registry d) (map survivor_rec ss)" "fs_create_ok P"
    and "perform_flip_flop_compaction P ss d = (res, d')"
  shows "res = Inr ()" "log_holds P d' (map survivor_rec ss)"
proof -
  from assms(1) have ch: "chan d = []" and rel: "log_rel P d (if active_is_b d then [] else rs) (if active_is_b d then rs else [])"
    by (simp_all add: log_holds_def split: if_splits)
  from compaction_spec [OF rel, of ss] assms(2-4) ch obtain d4 where
    d4: "res = Inr ()" "d' = (if active_is_b d then d4\<lparr>wal_b := []\<rparr> else d4\<lparr>wal_a := []\<rparr>)"
      "log_rel P d4 (if active_is_b d then map survivor_rec ss else rs) (if active_is_b d then rs else map survivor_rec ss)"
      "active_is_b d4 = (\<not> active_is_b d)" "chan d4 = []"
    by (auto split: if_splits)
  then show "res = Inr ()" "log_holds P d' (map survivor_rec ss)"
    by (auto simp: log_holds_def log_rel_def split: if_splits)
qed


definition demo_full :: queue_engine where
  "demo_full = set_initial_spill_offset (- 1) (engine_open demo_packages (wal_a demo_disk) (wal_b demo_disk)
     (manifest (registry demo_disk)) (demo_options\<lparr>max_wal_segment_size := 0\<rparr>) 1600000000)"

lemma demo_full_fields:
  "engine_reach demo_packages (0, demo_full)" "is_spill_at_eof demo_full" "should_compact (disk demo_full)"
  "log_holds demo_packages (disk demo_full) [demo_rec]"
proof -
  let ?o = "disk_log_open demo_packages (wal_a demo_disk) (wal_b demo_disk) (manifest (registry demo_disk)) 0"
  have "demo_holds demo_log [] [demo_rec]" by (rule demo_holds_start) (simp add: demo_rec_ok)
  then have "log_holds demo_packages demo_disk [demo_rec]"
    using demo_holds_simps(1) [of demo_log "[]" 7 "''jobs''" 1577836900 "[1, 2, 3]" "[]"]
    by (simp add: demo_disk_def demo_rec_def demo_holds_def)
  show "engine_reach demo_packages (0, demo_full)"
    unfolding demo_full_def
    by (rule reach_step [OF reach_open step_spill_offset]) (simp add: demo_disk_records demo_rec_def)
  have d: "disk demo_full = fst ?o"
    by (simp add: demo_full_def engine_open_def set_initial_spill_offset_def split: prod.split)
  show "is_spill_at_eof demo_full"
    by (simp add: is_spill_at_eof_def demo_full_def set_initial_spill_offset_def)
  show "should_compact (disk demo_full)" by (simp add: d should_compact_def disk_log_open_def Let_def)
  show "log_holds demo_packages (disk demo_full) [demo_rec]"
    using log_holds_opened [OF \<open>log_holds demo_packages demo_disk [demo_rec]\<close>, of 0] by (simp add: d)
qed

lemma demo_full_shards:
  "shards demo_full = (replicate NUM_SHARDS shard_new)[shard_idx ''jobs'' :=
     store_msg (logged_msg demo_options 7 ''jobs'' 1577836900 [1, 2, 3])
       (enqueue ''jobs'' 7 1577836900 1600000000 (shard_new\<lparr>seen_ids := {7}\<rparr>))]"
proof -
  obtain d where "disk_log_open demo_packages (wal_a demo_disk) (wal_b demo_disk) (manifest (registry demo_disk)) 0 = (d, [demo_rec])"
    using demo_disk_records [of 0] by (metis prod.collapse)
  then show ?thesis using shard_idx_less [of "''jobs''"]
    by (simp add: demo_full_def engine_open_def set_initial_spill_offset_def demo_rec_def demo_options_def shard_new_def Let_def)
qed

lemma demo_full_ram:
  "ram_count (shards demo_full) = 1"
  "u < NUM_SHARDS \<Longrightarrow> hm_get (messages (shards demo_full ! u)) i =
     (if u = shard_idx ''jobs'' \<and> i = 7 then Some (logged_msg demo_options 7 ''jobs'' 1577836900 [1, 2, 3]) else None)"
proof -
  let ?st = "store_msg (logged_msg demo_options 7 ''jobs'' 1577836900 [1, 2, 3])
       (enqueue ''jobs'' 7 1577836900 1600000000 (shard_new\<lparr>seen_ids := {7}\<rparr>))"
  have "ram_count (replicate NUM_SHARDS shard_new) = 0" by (simp add: ram_count_def shard_new_def sum_list_replicate)
  with ram_count_update [of "shard_idx ''jobs''" "replicate NUM_SHARDS shard_new" ?st]
  show "ram_count (shards demo_full) = 1" by (simp add: demo_full_shards admit_messages shard_new_def)
  show "u < NUM_SHARDS \<Longrightarrow> hm_get (messages (shards demo_full ! u)) i =
     (if u = shard_idx ''jobs'' \<and> i = 7 then Some (logged_msg demo_options 7 ''jobs'' 1577836900 [1, 2, 3]) else None)"
    by (simp add: demo_full_shards messages_nth_update admit_messages) (simp add: shard_new_def)
qed

lemma demo_full_can_write:
  "can_write (registry (disk demo_full)) (map survivor_rec (get_surviving_snapshot_messages demo_packages demo_full))"
proof -
  let ?xs = "map survivor_rec (get_surviving_snapshot_messages demo_packages demo_full)"
  have o: "iter_order (iter_ids demo_packages)" using demo_packages_order by (simp add: hash_order_def)
  have len: "length (shards demo_full) = NUM_SHARDS" by (simp add: demo_full_shards)
  have "r = demo_rec" if "r \<in> set ?xs" for r
  proof -
    from that obtain u i m where "u < NUM_SHARDS" "hm_get (messages (shards demo_full ! u)) i = Some m"
      "r = WalPush i (sm_queue m) (sm_visible_at m) (sm_payload m)"
      using len by (auto simp: get_surviving_snapshot_messages_def set_survivors [OF o] in_set_conv_nth)
    then show ?thesis using demo_full_ram(2) [of u i] by (auto simp: demo_rec_def split: if_splits)
  qed
  then have "\<forall>r \<in> set (demo_rec # ?xs). r = demo_rec" by simp
  then have "\<forall>r \<in> set (demo_rec # ?xs). rec_ok r \<and> wr_queue_name r = ''jobs''" using demo_rec_ok by metis
  then have "demo_holds demo_log [] (demo_rec # ?xs)" by (rule demo_holds_start)
  then have "demo_holds demo_disk [demo_rec] ?xs"
    using demo_holds_simps(1) [of demo_log "[]" 7 "''jobs''" 1577836900 "[1, 2, 3]" ?xs]
    by (simp add: demo_disk_def demo_rec_def)
  then have h: "log_holds demo_packages demo_disk [demo_rec]" "can_write (registry demo_disk) ?xs" by (simp_all add: demo_holds_def)
  from h(1) obtain ra rb where "log_rel demo_packages demo_disk ra rb" by (auto simp: log_holds_def split: if_splits)
  from disk_log_open_spec(2) [OF this, of "[]" "[]" 0] have "registry (disk demo_full) = registry demo_disk"
    by (auto simp: demo_full_def engine_open_def set_initial_spill_offset_def split: prod.splits)
  with h(2) show ?thesis by simp
qed


end
