(* ===== verification/Engine_Durability.thy ===== *)
theory Engine_Durability
  imports Engine_Recovery
begin

text \<open>
  What the operations of the engine leave on disk beyond single pushes and acknowledgements: a batch, which is
  recovered whole, and a poll, of which nothing is.
\<close>

section \<open>Batches on disk\<close>

text \<open>The log command and the record of an item of a batch whose id is given.\<close>

definition batch_cmd :: "string \<Rightarrow> u64 \<Rightarrow> push_item \<Rightarrow> wal_command" where
  "batch_cmd q now item = CmdPush (the (pi_id item)) q (now + pi_delay_seconds item) (pi_payload item) None"

definition batch_rec :: "string \<Rightarrow> u64 \<Rightarrow> push_item \<Rightarrow> wal_record" where
  "batch_rec q now item = WalPush (the (pi_id item)) q (now + pi_delay_seconds item) (pi_payload item)"

definition batch_fresh :: "shard_state \<Rightarrow> push_item list \<Rightarrow> bool" where
  "batch_fresh st items \<longleftrightarrow> (\<forall>item \<in> set items. pi_id item \<noteq> None \<and> the (pi_id item) \<notin> seen_ids st) \<and>
     distinct (map (\<lambda>item. the (pi_id item)) items)"

lemma push_batch_item_fresh:
  assumes "pi_id item = Some i" "i \<notin> seen_ids (bs_shard b)"
  shows "bs_disk (push_batch_item P opts now q item b) = (bs_disk b)\<lparr>chan := chan (bs_disk b) @ [batch_cmd q now item]\<rparr>"
    "seen_ids (bs_shard (push_batch_item P opts now q item b)) = insert i (seen_ids (bs_shard b))"
  using assms by (simp_all add: push_batch_item_def Let_def append_push_async_def batch_cmd_def enqueue_def store_msg_def split: option.split)

lemma fold_push_batch_disk:
  "batch_fresh (bs_shard b) items \<Longrightarrow>
    bs_disk (fold (push_batch_item P opts now q) items b) =
      (bs_disk b)\<lparr>chan := chan (bs_disk b) @ map (batch_cmd q now) items\<rparr>"
proof (induction items arbitrary: b)
  case (Cons item items)
  then obtain i where i: "pi_id item = Some i" "i \<notin> seen_ids (bs_shard b)" by (auto simp: batch_fresh_def)
  note f = push_batch_item_fresh [OF i, of P opts now q]
  have "batch_fresh (bs_shard (push_batch_item P opts now q item b)) items"
    using Cons.prems i f(2) by (force simp: batch_fresh_def)
  from Cons.IH [OF this] f(1) show ?case by simp
qed simp

lemma pending_batch: "pending (map (batch_cmd q now) items) = map (batch_rec q now) items"
  by (induction items) (simp_all add: pending_def batch_cmd_def batch_rec_def)

lemma push_batch_disk:
  assumes "batch_fresh (shard_of e q) items" "now = current_time_sec el e"
    and "d = (disk e)\<lparr>chan := chan (disk e) @ map (batch_cmd q now) items\<rparr>" "\<not> should_compact (flush P d)"
  shows "disk (snd (push_batch P el q items e)) = flush P d"
  using assms(4) fold_push_batch_disk [of "\<lparr>bs_shard = shard_of e q, bs_disk = disk e, bs_drawn = ulids_drawn e,
      bs_added = 0, bs_ram = total_messages_in_ram e, bs_ids = []\<rparr>" items P "options e" now q] assms(1-3)
  by (simp add: push_batch_def Let_def compact_then_idle)

lemma flush_holds:
  assumes "log_holds P d rs" "can_write (registry d) (pending cs)"
  shows "log_holds P (flush P (d\<lparr>chan := chan d @ cs\<rparr>)) (rs @ pending cs)"
proof -
  let ?d = "d\<lparr>chan := chan d @ cs\<rparr>"
  have c: "chan ?d = cs" using assms(1) by (simp add: log_holds_def)
  have w: "can_write (registry ?d) (pending (chan ?d) @ [])" using assms(2) unfolding c by simp
  show ?thesis
  proof (cases "active_is_b d")
    case True
    with assms(1) have "log_rel P ?d [] rs" by (simp add: log_holds_def log_rel_def)
    from flush_spec(1-3) [OF this w] True c show ?thesis by (simp add: log_holds_def)
  next
    case False
    with assms(1) have "log_rel P ?d rs []" by (simp add: log_holds_def log_rel_def)
    from flush_spec(1-3) [OF this w] False c show ?thesis by (simp add: log_holds_def)
  qed
qed

lemma demo_holds_flush:
  assumes "demo_holds d rs (pending cs @ xs)"
  shows "demo_holds (flush demo_packages (d\<lparr>chan := chan d @ cs\<rparr>)) (rs @ pending cs) xs"
proof -
  let ?d = "d\<lparr>chan := chan d @ cs\<rparr>"
  from assms have l: "log_holds demo_packages d rs" and b: "bytes_counted d" "max_segment_size d = 1048576"
    and c: "can_write (registry d) (pending cs @ xs)" by (simp_all add: demo_holds_def)
  from l have ch: "chan ?d = cs" and "\<exists>ra rb. log_rel demo_packages d ra rb" by (auto simp: log_holds_def split: if_splits)
  then obtain ra rb where "log_rel demo_packages ?d ra rb" by (auto simp: log_rel_def)
  note f = flush_spec [OF this, of xs, unfolded ch]
  from c have "can_write (registry ?d) (pending cs @ xs)" by simp
  note f = f [OF this]
  have "bytes_counted ?d" using b(1) by (simp add: bytes_counted_def active_file_def)
  with f flush_holds [OF l can_write_append(1) [OF c]] b(2) show ?thesis by (simp add: demo_holds_def)
qed

lemma live_batch_snoc:
  "live opts (rs @ map (batch_rec q now) (items @ [x])) = (live opts (rs @ map (batch_rec q now) items))
     ((shard_idx q, the (pi_id x)) \<mapsto> logged_msg opts (the (pi_id x)) q (now + pi_delay_seconds x) (pi_payload x))"
  by (simp add: live_def batch_rec_def)

lemma live_batch_other:
  "s \<noteq> shard_idx q \<or> j \<notin> (\<lambda>item. the (pi_id item)) ` set items \<Longrightarrow>
    live opts (rs @ map (batch_rec q now) items) (s, j) = live opts rs (s, j)"
proof (induction items rule: rev_induct)
  case (snoc x items)
  then have "(s, j) \<noteq> (shard_idx q, the (pi_id x))" "s \<noteq> shard_idx q \<or> j \<notin> (\<lambda>item. the (pi_id item)) ` set items" by auto
  with snoc.IH show ?case unfolding live_batch_snoc by auto
qed simp

lemma live_batch_item:
  "distinct (map (\<lambda>item. the (pi_id item)) items) \<Longrightarrow> item \<in> set items \<Longrightarrow>
    live opts (rs @ map (batch_rec q now) items) (shard_idx q, the (pi_id item)) =
      Some (logged_msg opts (the (pi_id item)) q (now + pi_delay_seconds item) (pi_payload item))"
proof (induction items rule: rev_induct)
  case (snoc x items)
  show ?case
  proof (cases "item = x")
    case True
    then show ?thesis unfolding live_batch_snoc by simp
  next
    case False
    with snoc.prems have i: "item \<in> set items" by simp
    then have "the (pi_id item) \<in> (\<lambda>item. the (pi_id item)) ` set items" by (rule imageI)
    with snoc.prems(1) have "the (pi_id item) \<noteq> the (pi_id x)" by auto
    with snoc.IH i snoc.prems(1) show ?thesis unfolding live_batch_snoc by simp
  qed
qed simp

lemma push_batch_recovered:
  assumes "log_holds P (disk e) rs" "batch_fresh (shard_of e q) items" "now = current_time_sec el e"
    and "can_write (registry (disk e)) (map (batch_rec q now) items)"
    and "length (push_keys rs) + length items \<le> unat (max_hot_messages_in_ram opts)"
    and "\<not> should_compact (flush P ((disk e)\<lparr>chan := chan (disk e) @ map (batch_cmd q now) items\<rparr>))"
    and "d = disk (snd (push_batch P el q items e))"
  shows "ram_map (shards (engine_open P (wal_a d) (wal_b d) (manifest (registry d)) opts base)) =
    live opts (rs @ map (batch_rec q now) items)"
proof -
  have "d = flush P ((disk e)\<lparr>chan := chan (disk e) @ map (batch_cmd q now) items\<rparr>)"
    using push_batch_disk [OF assms(2,3) refl assms(6)] assms(7) by simp
  with flush_holds [OF assms(1), of "map (batch_cmd q now) items"] assms(4)
  have "log_holds P d (rs @ map (batch_rec q now) items)" by (simp add: pending_batch)
  note r = log_holds_reopen [OF this, of "max_wal_segment_size opts"]
  have "length (push_keys (map (batch_rec q now) items)) = length items"
    by (induction items) (simp_all add: push_keys_def batch_rec_def)
  with assms(5) have "length (push_keys (rs @ map (batch_rec q now) items)) \<le> unat (max_hot_messages_in_ram opts)"
    by (simp add: push_keys_def)
  from engine_open_live [OF r this, of base] show ?thesis .
qed

section \<open>What a poll leaves on disk\<close>

lemma page_in_disk: "disk (page_in_loop P q now n fl e) \<in> {disk e, flush P (disk e)} \<and> (fl \<longrightarrow> disk (page_in_loop P q now n fl e) = disk e)"
proof (induction P q now n fl e rule: page_in_loop.induct)
  case (1 P q now n fl e)
  obtain rs off where r: "read_entries_from_offset P (disk e) (spill_read_offset e) n = (rs, off)"
    by (metis prod.exhaust)
  let ?e1 = "e\<lparr>spill_read_offset := off\<rparr>" and ?ef = "e\<lparr>disk := flush P (disk e)\<rparr>"
  show ?case
  proof (cases "rs = []")
    case True
    note ih = 1(3) [OF refl r [symmetric]]
    show ?thesis
    proof (cases fl)
      case True
      then have "page_in_loop P q now n fl e = (if off > 0 then e\<lparr>spill_read_offset := 0\<rparr> else e)"
        using r \<open>rs = []\<close> by (subst page_in_loop.simps) simp
      with True show ?thesis by simp
    next
      case False
      then have "page_in_loop P q now n fl e = page_in_loop P q now n True ?ef"
        using r \<open>rs = []\<close> by (subst page_in_loop.simps) simp
      with ih True False show ?thesis by simp
    qed
  next
    case False
    obtain ta e2 where a: "apply_page now q rs ?e1 = (ta, e2)" by (metis prod.exhaust)
    then have d: "disk e2 = disk e" using apply_page_frame(1) [of now q rs ?e1] by simp
    have "page_in_loop P q now n fl e =
       (if \<not> (\<exists>r \<in> set rs. is_push r) then page_in_loop P q now n fl ?e1
        else if ta > 0 \<or> total_messages_in_ram e2 \<ge> max_hot_messages_in_ram (options e2) then e2
        else page_in_loop P q now n fl e2)"
      using r False a by (subst page_in_loop.simps) (auto simp: Let_def)
    with 1(1) [OF refl r [symmetric] False refl] 1(2) [OF refl r [symmetric] False refl _ a [symmetric]] d show ?thesis
      by (auto split: if_splits)
  qed
qed

lemma flush_keeps:
  assumes "log_holds P d rs"
  shows "log_holds P (flush P d) rs"
proof -
  from assms have "reg_ok (registry d)" by (auto simp: log_holds_def log_rel_def split: if_splits)
  then have "can_write (registry d) []" by (simp add: can_write_def reg_ok_def names_ok_def distinct_card)
  with flush_holds [OF assms, of "[]"] show ?thesis by (simp add: pending_def)
qed

lemma poll_disk: "disk (snd (poll P el q vis maxm e)) \<in> {disk e, flush P (disk e)}"
proof -
  let ?now = "current_time_sec el e" and ?e2 = "prepared P (current_time_sec el e) q maxm e"
  obtain "is" st where "claim_messages P ?now q (unat maxm) (shards ?e2 ! shard_idx q) = (is, st)" by (metis prod.exhaust)
  from poll_prepared [OF refl refl this, of vis] have "disk (snd (poll P el q vis maxm e)) = disk ?e2" by (simp add: Let_def)
  moreover have "disk ?e2 \<in> {disk e, flush P (disk e)}"
    using page_in_disk [of P q ?now _ False "e\<lparr>shards := collect_and_route ?now (shard_idx q) (shards e)\<rparr>"]
    by (auto simp: prepared_def page_in_cold_spill_def Let_def)
  ultimately show ?thesis by simp
qed

lemma live_push:
  "live opts rs (s, i) = Some m \<Longrightarrow> sm_delivery_count m = 0 \<and> (\<exists>v p. WalPush i (sm_queue m) v p \<in> set rs)"
proof (induction rs rule: rev_induct)
  case Nil
  then show ?case by (simp add: live_def)
next
  case (snoc r rs)
  show ?case
  proof (cases r)
    case (WalPush j q v p)
    with snoc show ?thesis by (cases "(s, i) = (shard_idx q, j)") (auto, blast+)
  next
    case (WalAck j q)
    with snoc show ?thesis by (cases "(s, i) = (shard_idx q, j)") auto
  qed
qed

text \<open>
  A poll writes nothing to the log: not the deliveries it counts, and not the moves of used-up messages to
  their dead-letter queue. An engine opened on the files after it has every message in
  the queue it was pushed to, with a delivery count of zero.
\<close>

theorem poll_not_logged:
  assumes "log_holds P (disk e) rs" "length (push_keys rs) \<le> unat (max_hot_messages_in_ram opts)"
    and "d = disk (snd (poll P el q vis maxm e))" "s < NUM_SHARDS"
    and "e2 = engine_open P (wal_a d) (wal_b d) (manifest (registry d)) opts base"
  shows "hm_get (messages (shards e2 ! s)) i = live opts rs (s, i)"
    "hm_get (messages (shards e2 ! s)) i = Some m \<Longrightarrow> sm_delivery_count m = 0 \<and> (\<exists>v p. WalPush i (sm_queue m) v p \<in> set rs)"
proof -
  have "log_holds P d rs" using poll_disk [of P el q vis maxm e] assms(1,3) flush_keeps by auto
  from engine_open_live [OF log_holds_reopen [OF this] assms(2), of base] have "ram_map (shards e2) = live opts rs"
    by (simp add: assms(5))
  from fun_cong [OF this, of "(s, i)"] assms(4) show look: "hm_get (messages (shards e2 ! s)) i = live opts rs (s, i)"
    by (simp add: ram_map_def)
  show "sm_delivery_count m = 0 \<and> (\<exists>v p. WalPush i (sm_queue m) v p \<in> set rs)" if "hm_get (messages (shards e2 ! s)) i = Some m"
    using live_push look that by metis
qed

end
