(* ===== verification/Wire_Protocol.thy ===== *)
theory Wire_Protocol
  imports Disk_Log
begin

text \<open>
  The wire protocol (\<open>protocol.rs\<close>): the message types clients, server and peers exchange, and the
  codec that sends one as a frame, a four byte length followed by the serialized message. The
  serialization itself (\<open>postcard\<close>) is a parameter. The frames of a connection are another instance of
  \<open>framed_log\<close>: what was sent is read back in order, and a connection cut anywhere yields a prefix.
\<close>

section \<open>Messages\<close>

record batch_push_item =
  bi_payload :: bytes
  bi_delay_seconds :: u64
  bi_message_id :: string

record ack_item =
  ai_message_id :: string
  ai_receipt_handle :: string

record message =
  msg_message_id :: string
  msg_payload :: bytes
  msg_receipt_handle :: string
  msg_delivery_count :: u32

record raft_log_entry_wire =
  we_term :: u64
  we_index :: u64
  we_command :: bytes

record snapshot_item =
  si_id :: string
  si_queue :: string
  si_visible_at :: u64
  si_payload :: bytes

text \<open>The arguments are the fields of the variants, in the order of the source.\<close>

datatype request =
  ReqPush string bytes u64 string
| ReqPushBatch string "batch_push_item list"
| ReqPoll string u32 u32
| ReqAck string string string
| ReqAckBatch string "ack_item list"
| ReqRaftVote u64 string u64 u64
| ReqRaftAppend u64 string u64 u64 "raft_log_entry_wire list" u64
| ReqRaftInstallSnapshot u64 string u64 u64 "snapshot_item list"
| ReqJoinCluster string
| ReqLeaveCluster string
| ReqMetrics

datatype response =
  RespPush string
| RespPushBatch "string list"
| RespPoll "message list"
| RespAck bool
| RespAckBatch u32
| RespRaftVote u64 bool
| RespRaftAppend u64 bool
| RespRaftInstallSnapshot u64 bool
| RespClusterMembership bool "string list"
| RespMetrics string
| RespRedirect string
| RespError string

section \<open>Codec\<close>

text \<open>The serializer of one type with the text of its errors, and what the code relies on: what it
  writes, it reads.\<close>

record 'a postcard =
  to_allocvec :: "'a \<Rightarrow> bytes option"
  from_bytes :: "bytes \<Rightarrow> 'a option"
  error_text :: string

definition postcard_ok :: "'a postcard \<Rightarrow> bool" where
  "postcard_ok C \<longleftrightarrow> (\<forall>x b. to_allocvec C x = Some b \<longrightarrow> from_bytes C b = Some x)"

datatype codec_error = InvalidData | UnexpectedEof | WriteFailed

definition frame_of :: "bytes \<Rightarrow> bytes" where
  "frame_of b = to_be_bytes 4 (word_of_nat (length b) :: u32) @ b"

text \<open>\<open>stop\<close> is the number of bytes that reach the peer when the write fails, \<open>None\<close> when it succeeds.\<close>

definition write_message :: "'a postcard \<Rightarrow> nat option \<Rightarrow> 'a \<Rightarrow> bytes \<Rightarrow> (codec_error + unit) \<times> bytes" where
  "write_message C stop msg out =
     (case to_allocvec C msg of
        None \<Rightarrow> (Inl InvalidData, out)
      | Some b \<Rightarrow>
          (case stop of
             None \<Rightarrow> (Inr (), out @ frame_of b)
           | Some n \<Rightarrow> (Inl WriteFailed, out @ take n (frame_of b))))"

text \<open>\<open>read_exact\<close>: the requested number of bytes and the rest, or the end of the stream.\<close>

definition read_exact :: "nat \<Rightarrow> bytes \<Rightarrow> (bytes \<times> bytes) option" where
  "read_exact n s = (if length s < n then None else Some (take n s, drop n s))"

definition read_message :: "'a postcard \<Rightarrow> bytes \<Rightarrow> (codec_error + 'a) \<times> bytes" where
  "read_message C s =
     (case read_exact 4 s of
        None \<Rightarrow> (Inl UnexpectedEof, [])
      | Some (len_buf, s1) \<Rightarrow>
          (case read_exact (unat (from_be_bytes len_buf :: u32)) s1 of
             None \<Rightarrow> (Inl UnexpectedEof, [])
           | Some (buf, s2) \<Rightarrow>
               (case from_bytes C buf of
                  None \<Rightarrow> (Inl InvalidData, s2)
                | Some x \<Rightarrow> (Inr x, s2))))"

text \<open>\<open>Vec::resize\<close>, and a read into the buffer that fills as much as there is.\<close>

definition resize :: "nat \<Rightarrow> bytes \<Rightarrow> bytes" where
  "resize n buf = take n buf @ replicate (n - length buf) 0"

definition read_into :: "bytes \<Rightarrow> bytes \<Rightarrow> bool \<times> bytes \<times> bytes" where
  "read_into buf s =
     (length buf \<le> length s, take (length buf) s @ drop (length s) buf, drop (length buf) s)"

definition read_message_with_buf :: "'a postcard \<Rightarrow> bytes \<Rightarrow> bytes \<Rightarrow> (codec_error + 'a) \<times> bytes \<times> bytes" where
  "read_message_with_buf C s buf =
     (case read_exact 4 s of
        None \<Rightarrow> (Inl UnexpectedEof, [], buf)
      | Some (len_buf, s1) \<Rightarrow>
          let (full, buf1, s2) = read_into (resize (unat (from_be_bytes len_buf :: u32)) buf) s1
          in if \<not> full then (Inl UnexpectedEof, s2, buf1)
             else
               (case from_bytes C buf1 of
                  None \<Rightarrow> (Inl InvalidData, s2, buf1)
                | Some x \<Rightarrow> (Inr x, s2, buf1)))"

section \<open>Frames\<close>

lemma length_frame_of [simp]: "length (frame_of b) = 4 + length b"
  by (simp add: frame_of_def)

lemma read_frame:
  assumes "length b < 2 ^ 32"
  shows "read_message C (frame_of b @ s) =
    (case from_bytes C b of None \<Rightarrow> (Inl InvalidData, s) | Some x \<Rightarrow> (Inr x, s))"
proof -
  have "unat (from_be_bytes (to_be_bytes 4 (word_of_nat (length b) :: u32)) :: u32) = length b"
    using assms by (simp add: unat_of_nat_lt)
  then show ?thesis by (simp add: read_message_def read_exact_def frame_of_def)
qed

lemma read_frame_torn:
  assumes "length b < 2 ^ 32" "strict_prefix s (frame_of b)"
  shows "read_message C s = (Inl UnexpectedEof, [])"
proof -
  from assms(2) obtain t where t: "frame_of b = s @ t" "t \<noteq> []" by (auto elim: strict_prefixE')
  show ?thesis
  proof (cases "length s < 4")
    case True
    then show ?thesis by (simp add: read_message_def read_exact_def)
  next
    case False
    then have "take 4 s = take 4 (frame_of b)" by (simp add: t(1))
    then have "from_be_bytes (take 4 s) = (word_of_nat (length b) :: u32)" by (simp add: frame_of_def)
    moreover have "length (drop 4 s) < length b"
      using arg_cong [OF t(1), of length] t(2) False by (simp add: length_greater_0_conv [symmetric] del: length_greater_0_conv)
    moreover have "unat (word_of_nat (length b) :: u32) = length b" using assms(1) by (simp add: unat_of_nat_lt)
    ultimately show ?thesis using False by (simp add: read_message_def read_exact_def)
  qed
qed

text \<open>The reader with a reused buffer agrees with the plain one, whatever the buffer held before.\<close>

lemma length_resize [simp]: "length (resize n buf) = n"
  by (simp add: resize_def)

lemma read_into_full: "length buf \<le> length s \<Longrightarrow> read_into buf s = (True, take (length buf) s, drop (length buf) s)"
  by (simp add: read_into_def)

text \<open>
  Reading into the connection's reused buffer gives the same message, the same
  error and the same rest of the stream as reading into a fresh one: nothing of an earlier message
  leaks into a later one.
\<close>

theorem buffer_reuse_safe:
  "(fst (read_message_with_buf C s buf), fst (snd (read_message_with_buf C s buf))) = read_message C s"
proof (cases "length s < 4")
  case True
  then show ?thesis by (simp add: read_message_def read_message_with_buf_def read_exact_def)
next
  case False
  let ?n = "unat (from_be_bytes (take 4 s) :: u32)"
  show ?thesis
  proof (cases "?n \<le> length (drop 4 s)")
    case True
    with False show ?thesis
      by (auto simp: read_message_def read_message_with_buf_def read_exact_def read_into_full Let_def split: option.split)
  next
    case short: False
    with False show ?thesis
      by (simp add: read_message_def read_message_with_buf_def read_exact_def read_into_def Let_def)
  qed
qed

section \<open>Streams\<close>

text \<open>What a receiver gets from a connection: messages until the first error.\<close>

definition next_message :: "'a postcard \<Rightarrow> bytes \<Rightarrow> ('a \<times> bytes) option" where
  "next_message C s = (case read_message C s of (Inr x, rest) \<Rightarrow> Some (x, rest) | (Inl _, _) \<Rightarrow> None)"

lemma next_message_shorter: "next_message C s = Some (x, rest) \<Longrightarrow> length rest < length s"
  by (auto simp: next_message_def read_message_def read_exact_def split: option.splits if_splits sum.splits) arith

function read_all :: "'a postcard \<Rightarrow> bytes \<Rightarrow> 'a list" where
  "read_all C s = (case next_message C s of None \<Rightarrow> [] | Some (x, rest) \<Rightarrow> x # read_all C rest)"
  by pat_completeness auto
termination
  by (relation "measure (\<lambda>(C, s). length s)") (auto simp: next_message_shorter)

declare read_all.simps [simp del]

definition sendable :: "'a postcard \<Rightarrow> 'a \<Rightarrow> bool" where
  "sendable C x \<longleftrightarrow> postcard_ok C \<and> (\<exists>b. to_allocvec C x = Some b \<and> length b < 2 ^ 32)"

definition sent :: "'a postcard \<Rightarrow> 'a \<Rightarrow> bytes" where
  "sent C x = frame_of (the (to_allocvec C x))"

interpretation wire: framed_log "sent C" "next_message C" "sendable C" "read_all C" for C
proof (unfold_locales, goal_cases)
  case (1 x bs)
  then show ?case by (auto simp: sendable_def sent_def next_message_def read_frame postcard_ok_def)
next
  case (2 x bs)
  then obtain b where "to_allocvec C x = Some b" "length b < 2 ^ 32" by (auto simp: sendable_def)
  with 2(2) read_frame_torn [of b bs C] show ?case by (simp add: next_message_def sent_def)
next
  case (3 bs)
  show ?case by (rule read_all.simps)
qed

definition send_all :: "'a postcard \<Rightarrow> 'a list \<Rightarrow> bytes \<Rightarrow> bytes" where
  "send_all C xs out = fold (\<lambda>x out. snd (write_message C None x out)) xs out"

lemma send_all_eq: "\<forall>x \<in> set xs. sendable C x \<Longrightarrow> send_all C xs out = out @ concat (map (sent C) xs)"
proof (induction xs arbitrary: out)
  case Nil
  then show ?case by (simp add: send_all_def)
next
  case (Cons x xs)
  then obtain b where b: "to_allocvec C x = Some b" by (auto simp: sendable_def)
  then have "snd (write_message C None x out) = out @ sent C x" by (simp add: write_message_def sent_def)
  with Cons.IH [of "out @ sent C x"] Cons.prems show ?case by (simp add: send_all_def)
qed

text \<open>
  C29. The receiver of a connection gets the messages the sender wrote, all of them and in
  order; when the connection breaks after any number of bytes, it gets a prefix of them, and never
  a message that was not sent.
\<close>

theorem wire_stream:
  assumes "postcard_ok C" "\<forall>x \<in> set xs. \<exists>b. to_allocvec C x = Some b \<and> length b < 2 ^ 32"
  shows "read_all C (send_all C xs []) = xs \<and> (\<exists>k \<le> length xs. read_all C (take n (send_all C xs [])) = take k xs)"
proof
  have good: "\<forall>x \<in> set xs. sendable C x" using assms by (simp add: sendable_def)
  note s = send_all_eq [OF good, of "[]"]
  have nil: "read_all C [] = []" by (simp add: read_all.simps next_message_def read_message_def read_exact_def)
  show "read_all C (send_all C xs []) = xs" using wire.rd_concat [OF good, of "[]"] s nil by simp
  show "\<exists>k \<le> length xs. read_all C (take n (send_all C xs [])) = take k xs"
  proof (cases "xs = []")
    case True
    with s nil show ?thesis by simp
  next
    case False
    from wire.rd_truncated [OF good False, of n] s show ?thesis by auto
  qed
qed

definition demo_postcard :: "bytes postcard" where
  "demo_postcard = \<lparr>to_allocvec = Some, from_bytes = Some, error_text = ''''\<rparr>"

theorem wire_stream_witness:
  "read_all demo_postcard (send_all demo_postcard [[1, 2], [], [3]] []) = [[1, 2], [], [3]]"
  using wire_stream [of demo_postcard "[[1, 2], [], [3]]"] by (simp add: demo_postcard_def postcard_ok_def)

end
