(* ===== verification/Raft_Node.thy ===== *)
theory Raft_Node
  imports Engine_Recovery Wire_Protocol "HOL-Library.List_Lexorder" "HOL-Library.Char_ord"
begin

text \<open>
  The replication layer (\<open>raft.rs\<close>): a node with its role, term, leader, log and engine, and every
  handler that changes it. The network is an argument of the operations: whether a connection can
  be opened, and what the peers answer, in the order the answers arrive. An operation that reads
  the clock several times takes the readings as a function of their number.
\<close>

section \<open>State\<close>

datatype raft_role = Follower | Candidate | Leader

datatype raft_command =
  CmdRaftPush string string bytes u64
| CmdRaftAck string string string

record log_entry =
  le_term :: u64
  le_index :: u64
  le_command :: raft_command

record raft_node =
  node_id :: string
  peers :: "string list"
  role :: raft_role
  current_term :: u64
  current_leader :: "string option"
  raft_log :: "log_entry list"
  commit_index :: u64
  snapshot_index :: u64
  snapshot_term :: u64
  engine :: queue_engine
  is_running :: bool
  compaction_threshold :: u64
  is_leader_cached :: bool
  peer_conns :: "string set"

definition with_threshold :: "string \<Rightarrow> string list \<Rightarrow> queue_engine \<Rightarrow> u64 \<Rightarrow> raft_node" where
  "with_threshold nid ps e threshold =
     \<lparr>node_id = nid, peers = ps, role = Follower, current_term = 0, current_leader = None,
      raft_log = [], commit_index = 0, snapshot_index = 0, snapshot_term = 0, engine = e,
      is_running = True, compaction_threshold = threshold, is_leader_cached = False, peer_conns = {}\<rparr>"

definition raft_new :: "string \<Rightarrow> string list \<Rightarrow> queue_engine \<Rightarrow> raft_node" where
  "raft_new nid ps e = with_threshold nid ps e 10000"

section \<open>Peer connections\<close>

text \<open>One attempt to talk to a peer: whether a connection can be opened, and the answer or the text
  of the I/O error.\<close>

record exchange =
  ex_connect :: bool
  ex_reply :: "string + response"

definition get_peer_conn_handle :: "bool \<Rightarrow> string \<Rightarrow> raft_node \<Rightarrow> bool \<times> raft_node" where
  "get_peer_conn_handle can_connect peer n =
     (if peer \<in> peer_conns n then (True, n)
      else if can_connect then (True, n\<lparr>peer_conns := insert peer (peer_conns n)\<rparr>)
      else (False, n))"

definition drop_peer_connection :: "string \<Rightarrow> raft_node \<Rightarrow> raft_node" where
  "drop_peer_connection peer n = n\<lparr>peer_conns := peer_conns n - {peer}\<rparr>"

definition send_peer_request :: "exchange \<Rightarrow> exchange \<Rightarrow> string \<Rightarrow> raft_node \<Rightarrow> (string + response) \<times> raft_node" where
  "send_peer_request x1 x2 peer n =
     (let (connected, n1) = get_peer_conn_handle (ex_connect x1) peer n
      in if \<not> connected then (Inl (''Peer '' @ peer @ '' unreachable''), n1)
         else
           (case ex_reply x1 of
              Inr resp \<Rightarrow> (Inr resp, n1)
            | Inl _ \<Rightarrow>
                let n2 = drop_peer_connection peer n1;
                    (reconnected, n3) = get_peer_conn_handle (ex_connect x2) peer n2
                in if \<not> reconnected then (Inl (''Peer '' @ peer @ '' reconnect failed''), n3)
                   else (ex_reply x2, n3)))"

section \<open>Membership and leadership\<close>

definition add_peer :: "string \<Rightarrow> raft_node \<Rightarrow> raft_node" where
  "add_peer peer_addr n =
     (if peer_addr \<notin> set (peers n) \<and> peer_addr \<noteq> node_id n
      then n\<lparr>peers := peers n @ [peer_addr]\<rparr> else n)"

definition remove_peer :: "string \<Rightarrow> raft_node \<Rightarrow> raft_node" where
  "remove_peer peer_addr n =
     drop_peer_connection peer_addr (n\<lparr>peers := filter (\<lambda>addr. addr \<noteq> peer_addr) (peers n)\<rparr>)"

definition get_peers :: "raft_node \<Rightarrow> string list" where
  "get_peers n = node_id n # peers n"

definition is_leader_fast :: "raft_node \<Rightarrow> bool" where
  "is_leader_fast n = is_leader_cached n"

definition is_leader :: "raft_node \<Rightarrow> bool" where
  "is_leader n \<longleftrightarrow> role n = Leader"

definition become_leader_for_test :: "raft_node \<Rightarrow> raft_node" where
  "become_leader_for_test n =
     n\<lparr>role := Leader, is_leader_cached := True, current_leader := Some (node_id n)\<rparr>"

section \<open>Snapshots of the log\<close>

text \<open>\<open>Iterator::rposition\<close>.\<close>

fun rposition :: "('a \<Rightarrow> bool) \<Rightarrow> 'a list \<Rightarrow> nat option" where
  "rposition p [] = None"
| "rposition p (x # xs) =
     (case rposition p xs of
        Some k \<Rightarrow> Some (Suc k)
      | None \<Rightarrow> if p x then Some 0 else None)"

definition compact_log_snapshot :: "raft_node \<Rightarrow> raft_node" where
  "compact_log_snapshot n =
     (case raft_log n of
        [] \<Rightarrow> n
      | first # _ \<Rightarrow>
          if commit_index n > le_index first then
            (case rposition (\<lambda>e. le_index e \<le> commit_index n) (raft_log n) of
               None \<Rightarrow> n
             | Some pos \<Rightarrow>
                 n\<lparr>raft_log := drop (Suc pos) (raft_log n),
                   snapshot_index := le_index (raft_log n ! pos),
                   snapshot_term := le_term (raft_log n ! pos)\<rparr>)
          else n)"

definition maybe_compact :: "u64 \<Rightarrow> raft_node \<Rightarrow> raft_node" where
  "maybe_compact last_index n =
     (if compaction_threshold n > 0 \<and> last_index mod compaction_threshold n = 0
      then compact_log_snapshot n else n)"

section \<open>Proposals\<close>

text \<open>The id a pushed message gets: the client's when it parses, a new one otherwise.\<close>

definition resolve_id :: "packages \<Rightarrow> string \<Rightarrow> nat \<Rightarrow> (string \<times> ulid) \<times> nat" where
  "resolve_id P m_id drawn =
     (let u = ulid_new P drawn;
          fresh = ((ulid_to_string P u, u), Suc drawn)
      in if m_id = [] then fresh
         else if length m_id = 26 then
           (case ulid_from_string P m_id of Some i \<Rightarrow> ((m_id, i), drawn) | None \<Rightarrow> fresh)
         else
           (case uuid_parse_str P m_id of Some i \<Rightarrow> ((m_id, i), drawn) | None \<Rightarrow> fresh))"

fun resolve_items :: "packages \<Rightarrow> string \<Rightarrow> (string \<times> bytes \<times> u64) list \<Rightarrow> nat \<Rightarrow>
    (string \<times> ulid \<times> raft_command) list \<times> nat" where
  "resolve_items P queue [] drawn = ([], drawn)"
| "resolve_items P queue ((m_id, payload, delay_seconds) # items) drawn =
     (let ((actual_id, actual_ulid), drawn1) = resolve_id P m_id drawn;
          (rest, drawn2) = resolve_items P queue items drawn1
      in ((actual_id, actual_ulid, CmdRaftPush queue actual_id payload delay_seconds) # rest, drawn2))"

definition start_index :: "raft_node \<Rightarrow> u64" where
  "start_index n = (if raft_log n \<noteq> [] then le_index (last (raft_log n)) + 1 else snapshot_index n + 1)"

text \<open>Append the commands to the log and serialize them; a command that does not serialize ends the
  proposal, with the entries so far in the log.\<close>

fun append_commands :: "raft_command postcard \<Rightarrow> u64 \<Rightarrow> u64 \<Rightarrow> raft_command list \<Rightarrow> log_entry list \<Rightarrow>
    raft_log_entry_wire list option \<times> log_entry list" where
  "append_commands C t idx [] l = (Some [], l)"
| "append_commands C t idx (cmd # cmds) l =
     (let l1 = l @ [\<lparr>le_term = t, le_index = idx, le_command = cmd\<rparr>]
      in case to_allocvec C cmd of
           None \<Rightarrow> (None, l1)
         | Some b \<Rightarrow>
             (case append_commands C t (idx + 1) cmds l1 of
                (None, l2) \<Rightarrow> (None, l2)
              | (Some ws, l2) \<Rightarrow> (Some (\<lparr>we_term = t, we_index = idx, we_command = b\<rparr> # ws), l2)))"

definition append_request :: "u64 \<Rightarrow> u64 \<Rightarrow> raft_log_entry_wire list \<Rightarrow> raft_node \<Rightarrow> request" where
  "append_request t first_index wire_entries n =
     ReqRaftAppend t (node_id n) (sat_sub first_index 1) t wire_entries (commit_index n)"

text \<open>Every peer reports once; the leader stops listening when a majority has agreed.\<close>

fun count_acks :: "nat \<Rightarrow> nat \<Rightarrow> bool list \<Rightarrow> nat" where
  "count_acks quorum acks [] = acks"
| "count_acks quorum acks (success # later) =
     (if success then
        if Suc acks \<ge> quorum then Suc acks else count_acks quorum (Suc acks) later
      else count_acks quorum acks later)"

definition quorum_of :: "raft_node \<Rightarrow> nat" where
  "quorum_of n = (length (peers n) + 1) div 2 + 1"

definition open_connections :: "(string \<Rightarrow> bool) \<Rightarrow> raft_node \<Rightarrow> raft_node" where
  "open_connections can_connect n = fold (\<lambda>p m. snd (get_peer_conn_handle (can_connect p) p m)) (peers n) n"

definition not_leader :: "raft_node \<Rightarrow> string" where
  "not_leader n = ''NOT_LEADER:'' @ (case current_leader n of Some l \<Rightarrow> l | None \<Rightarrow> [])"

definition push_items_of :: "(string \<times> ulid \<times> raft_command) list \<Rightarrow> push_item list" where
  "push_items_of resolved =
     concat (map (\<lambda>(_, u, c). case c of
         CmdRaftPush _ _ payload visible_at \<Rightarrow>
           [\<lparr>pi_id = Some u, pi_payload = payload, pi_delay_seconds = visible_at\<rparr>]
       | CmdRaftAck _ _ _ \<Rightarrow> []) resolved)"

text \<open>The result carries the request sent to the peers, when there is one.\<close>

definition propose_push_batch :: "packages \<Rightarrow> raft_command postcard \<Rightarrow> u64 \<Rightarrow> (string \<Rightarrow> bool) \<Rightarrow> bool list \<Rightarrow>
    string \<Rightarrow> (string \<times> bytes \<times> u64) list \<Rightarrow> raft_node \<Rightarrow>
    (string + string list) \<times> request option \<times> raft_node" where
  "propose_push_batch P C el can_connect replies queue items n =
     (if role n \<noteq> Leader then (Inl (not_leader n), None, n)
      else if items = [] then (Inr [], None, n)
      else
        let t = current_term n;
            (resolved, drawn) = resolve_items P queue items (ulids_drawn (engine n));
            cmds = map (\<lambda>(_, _, c). c) resolved;
            n1 = n\<lparr>engine := (engine n)\<lparr>ulids_drawn := drawn\<rparr>\<rparr>;
            start_idx = start_index n1;
            (wire, l) = append_commands C t start_idx cmds (raft_log n1);
            n2 = n1\<lparr>raft_log := l\<rparr>
        in case wire of
             None \<Rightarrow> (Inl (error_text C), None, n2)
           | Some wire_entries \<Rightarrow>
               let last_index = start_idx + word_of_nat (length cmds) - 1;
                   req = append_request t start_idx wire_entries n2;
                   n3 = open_connections can_connect n2
               in if length (peers n2) + 1 > 1 \<and> count_acks (quorum_of n2) 1 replies < quorum_of n2
                  then (Inl ''QUORUM_FAILED: Failed to replicate batch to majority quorum'', Some req, n3)
                  else
                    let n4 = n3\<lparr>commit_index := last_index,
                                engine := snd (push_batch P el queue (push_items_of resolved) (engine n3))\<rparr>
                    in (Inr (map fst resolved), if peers n2 = [] then None else Some req,
                        maybe_compact last_index n4))"

definition propose_push_str :: "packages \<Rightarrow> raft_command postcard \<Rightarrow> u64 \<Rightarrow> (string \<Rightarrow> bool) \<Rightarrow> bool list \<Rightarrow>
    string \<Rightarrow> string \<Rightarrow> bytes \<Rightarrow> u64 \<Rightarrow> raft_node \<Rightarrow> (string + string) \<times> request option \<times> raft_node" where
  "propose_push_str P C el can_connect replies queue msg_id payload delay_sec n =
     (case propose_push_batch P C el can_connect replies queue [(msg_id, payload, delay_sec)] n of
        (Inl err, r, n') \<Rightarrow> (Inl err, r, n')
      | (Inr ids, r, n') \<Rightarrow> (Inr (case ids of i # _ \<Rightarrow> i | [] \<Rightarrow> []), r, n'))"

text \<open>\<open>uuid_text\<close> is the printed form of the id.\<close>

definition propose_push :: "packages \<Rightarrow> raft_command postcard \<Rightarrow> u64 \<Rightarrow> (string \<Rightarrow> bool) \<Rightarrow> bool list \<Rightarrow>
    string \<Rightarrow> string \<Rightarrow> bytes \<Rightarrow> raft_node \<Rightarrow> (string + string) \<times> request option \<times> raft_node" where
  "propose_push P C el can_connect replies queue uuid_text payload n =
     propose_push_str P C el can_connect replies queue uuid_text payload 0 n"

definition propose_push_batch_items :: "packages \<Rightarrow> raft_command postcard \<Rightarrow> u64 \<Rightarrow> (string \<Rightarrow> bool) \<Rightarrow> bool list \<Rightarrow>
    string \<Rightarrow> batch_push_item list \<Rightarrow> raft_node \<Rightarrow> (string + string list) \<times> request option \<times> raft_node" where
  "propose_push_batch_items P C el can_connect replies queue items n =
     propose_push_batch P C el can_connect replies queue
       (map (\<lambda>i. (bi_message_id i, bi_payload i, bi_delay_seconds i)) items) n"

definition propose_ack_batch :: "packages \<Rightarrow> raft_command postcard \<Rightarrow> (string \<Rightarrow> bool) \<Rightarrow> bool list \<Rightarrow>
    string \<Rightarrow> (string \<times> string) list \<Rightarrow> raft_node \<Rightarrow> (string + usize) \<times> request option \<times> raft_node" where
  "propose_ack_batch P C can_connect replies queue items n =
     (if role n \<noteq> Leader then (Inl (not_leader n), None, n)
      else if items = [] then (Inr 0, None, n)
      else
        let (res, e) = ack_batch P queue items (engine n);
            acked_count = (case res of Inr k \<Rightarrow> k | Inl _ \<Rightarrow> 0);
            n1 = n\<lparr>engine := e\<rparr>
        in if acked_count = 0 then (Inr 0, None, n1)
           else
             let t = current_term n1;
                 cmds = map (\<lambda>(msg_id, receipt). CmdRaftAck queue msg_id receipt) items;
                 start_idx = start_index n1;
                 (wire, l) = append_commands C t start_idx cmds (raft_log n1);
                 n2 = n1\<lparr>raft_log := l\<rparr>
             in case wire of
                  None \<Rightarrow> (Inl (error_text C), None, n2)
                | Some wire_entries \<Rightarrow>
                    let last_index = start_idx + word_of_nat (length cmds) - 1;
                        req = append_request t start_idx wire_entries n2;
                        acks = count_acks (quorum_of n2) 1 replies;
                        n3 = (open_connections can_connect n2)\<lparr>commit_index := last_index\<rparr>
                    in (Inr acked_count, if peers n2 = [] then None else Some req, maybe_compact last_index n3))"

definition propose_ack_batch_items :: "packages \<Rightarrow> raft_command postcard \<Rightarrow> (string \<Rightarrow> bool) \<Rightarrow> bool list \<Rightarrow>
    string \<Rightarrow> ack_item list \<Rightarrow> raft_node \<Rightarrow> (string + usize) \<times> request option \<times> raft_node" where
  "propose_ack_batch_items P C can_connect replies queue items n =
     propose_ack_batch P C can_connect replies queue
       (map (\<lambda>i. (ai_message_id i, ai_receipt_handle i)) items) n"

definition propose_ack :: "packages \<Rightarrow> raft_command postcard \<Rightarrow> (string \<Rightarrow> bool) \<Rightarrow> bool list \<Rightarrow>
    string \<Rightarrow> string \<Rightarrow> string \<Rightarrow> raft_node \<Rightarrow> (string + bool) \<times> request option \<times> raft_node" where
  "propose_ack P C can_connect replies queue message_id receipt n =
     (case propose_ack_batch P C can_connect replies queue [(message_id, receipt)] n of
        (Inl err, r, n') \<Rightarrow> (Inl err, r, n')
      | (Inr k, r, n') \<Rightarrow> (Inr (k > 0), r, n'))"

section \<open>Handlers\<close>

definition handle_vote :: "u64 \<Rightarrow> string \<Rightarrow> u64 \<Rightarrow> u64 \<Rightarrow> raft_node \<Rightarrow> bool \<times> raft_node" where
  "handle_vote t candidate_id last_log_index last_log_term n =
     (if t > current_term n
      then (True, n\<lparr>current_term := t, role := Follower, is_leader_cached := False,
                    current_leader := Some candidate_id\<rparr>)
      else (False, n))"

text \<open>The two orders in which the handlers try to read an id.\<close>

definition push_uuid_first :: "packages \<Rightarrow> u64 \<Rightarrow> string \<Rightarrow> string \<Rightarrow> bytes \<Rightarrow> u64 \<Rightarrow> queue_engine \<Rightarrow> queue_engine" where
  "push_uuid_first P el queue msg_id payload delay e =
     (case uuid_parse_str P msg_id of
        Some u \<Rightarrow> snd (push_with_id P el queue u payload delay e)
      | None \<Rightarrow>
          (case ulid_from_string P msg_id of
             Some i \<Rightarrow> snd (push_with_ulid P el queue i payload delay e)
           | None \<Rightarrow> e))"

definition push_ulid_first :: "packages \<Rightarrow> u64 \<Rightarrow> string \<Rightarrow> string \<Rightarrow> bytes \<Rightarrow> u64 \<Rightarrow> queue_engine \<Rightarrow> queue_engine" where
  "push_ulid_first P el queue msg_id payload delay e =
     (case ulid_from_string P msg_id of
        Some i \<Rightarrow> snd (push_with_ulid P el queue i payload delay e)
      | None \<Rightarrow>
          (case uuid_parse_str P msg_id of
             Some u \<Rightarrow> snd (push_with_id P el queue u payload delay e)
           | None \<Rightarrow> e))"

definition install_item :: "packages \<Rightarrow> (nat \<Rightarrow> u64) \<Rightarrow> nat \<times> snapshot_item \<Rightarrow> queue_engine \<Rightarrow> queue_engine" where
  "install_item P clock = (\<lambda>(k, item) e.
     let delay = sat_sub (si_visible_at item) (current_time_sec (clock (2 * k)) e)
     in push_uuid_first P (clock (2 * k + 1)) (si_queue item) (si_id item) (si_payload item) delay e)"

definition handle_install_snapshot :: "packages \<Rightarrow> (nat \<Rightarrow> u64) \<Rightarrow> request \<Rightarrow> raft_node \<Rightarrow> bool \<times> raft_node" where
  "handle_install_snapshot P clock req n =
     (case req of
        ReqRaftInstallSnapshot t leader_id last_included_index last_included_term items \<Rightarrow>
          if t < current_term n then (False, n)
          else
            let e = fold (install_item P clock) (enumerate 0 items) (clear_for_raft_recovery (engine n))
            in (True, n\<lparr>current_leader := Some leader_id,
                        snapshot_index := last_included_index, snapshot_term := last_included_term,
                        commit_index := last_included_index, engine := e,
                        raft_log := filter (\<lambda>x. le_index x > last_included_index) (raft_log n)\<rparr>)
      | _ \<Rightarrow> (False, n))"

definition apply_entry :: "packages \<Rightarrow> raft_command postcard \<Rightarrow> (nat \<Rightarrow> u64) \<Rightarrow> nat \<times> raft_log_entry_wire \<Rightarrow>
    queue_engine \<times> log_entry list \<Rightarrow> queue_engine \<times> log_entry list" where
  "apply_entry P C clock = (\<lambda>(k, w) (e, l).
     case from_bytes C (we_command w) of
       None \<Rightarrow> (e, l)
     | Some cmd \<Rightarrow>
         ((case cmd of
             CmdRaftPush queue msg_id payload visible_at \<Rightarrow>
               push_ulid_first P (clock k) queue msg_id payload visible_at e
           | CmdRaftAck queue msg_id receipt \<Rightarrow> snd (ack_follower P queue msg_id e)),
          l @ [\<lparr>le_term = we_term w, le_index = we_index w, le_command = cmd\<rparr>]))"

definition trim_log :: "raft_node \<Rightarrow> raft_node" where
  "trim_log n =
     (let l = raft_log n in
      if compaction_threshold n > 0 \<and> length l > unat (compaction_threshold n * 2) then
        let keep_from = length l - unat (compaction_threshold n)
        in if keep_from > 0
           then n\<lparr>raft_log := drop keep_from l, snapshot_index := le_index (l ! (keep_from - 1)),
                  snapshot_term := le_term (l ! (keep_from - 1))\<rparr>
           else n
      else n)"

definition handle_append_entries :: "packages \<Rightarrow> raft_command postcard \<Rightarrow> (nat \<Rightarrow> u64) \<Rightarrow> u64 \<Rightarrow> string \<Rightarrow>
    u64 \<Rightarrow> u64 \<Rightarrow> raft_log_entry_wire list \<Rightarrow> u64 \<Rightarrow> raft_node \<Rightarrow> bool \<times> raft_node" where
  "handle_append_entries P C clock t leader_id prev_log_index prev_log_term entries leader_commit n =
     (if t < current_term n then (False, n)
      else
        let (e, l) = fold (apply_entry P C clock) (enumerate 0 entries) (engine n, raft_log n)
        in (True, trim_log (n\<lparr>current_leader := Some leader_id, engine := e, raft_log := l\<rparr>)))"

definition acked_in :: "log_entry list \<Rightarrow> string set" where
  "acked_in l = {msg_id. \<exists>x \<in> set l. \<exists>queue receipt. le_command x = CmdRaftAck queue msg_id receipt}"

definition replay_entry :: "packages \<Rightarrow> (nat \<Rightarrow> u64) \<Rightarrow> string set \<Rightarrow> nat \<times> log_entry \<Rightarrow> queue_engine \<Rightarrow> queue_engine" where
  "replay_entry P clock acked = (\<lambda>(k, x) e.
     case le_command x of
       CmdRaftPush queue msg_id payload visible_at \<Rightarrow>
         if msg_id \<notin> acked then push_uuid_first P (clock k) queue msg_id payload visible_at e else e
     | CmdRaftAck _ _ _ \<Rightarrow> e)"

definition recover_as_new_leader :: "packages \<Rightarrow> (nat \<Rightarrow> u64) \<Rightarrow> raft_node \<Rightarrow> raft_node" where
  "recover_as_new_leader P clock n =
     (let n1 = n\<lparr>role := Leader, is_leader_cached := True, current_leader := Some (node_id n)\<rparr>;
          snap_idx = snapshot_index n1;
          l = raft_log n1;
          acked = acked_in l
      in if snap_idx > 0 then
           n1\<lparr>engine := fold (replay_entry P clock acked)
                 (filter (\<lambda>(k, x). le_index x > snap_idx) (enumerate 0 l)) (engine n1)\<rparr>
         else
           n1\<lparr>engine := fold (replay_entry P clock acked) (enumerate 0 l) (clear_for_raft_recovery (engine n1))\<rparr>)"

section \<open>Heartbeats, election and catch-up\<close>

definition heartbeat_request :: "raft_node \<Rightarrow> request" where
  "heartbeat_request n = ReqRaftAppend (current_term n) (node_id n) 0 0 [] (commit_index n)"

text \<open>One round of requests to the peers, with the attempts of each; the answers are ignored.\<close>

definition send_heartbeat :: "(string \<Rightarrow> exchange \<times> exchange) \<Rightarrow> raft_node \<Rightarrow> raft_node" where
  "send_heartbeat net n =
     fold (\<lambda>p m. snd (send_peer_request (fst (net p)) (snd (net p)) p m)) (peers n) n"

text \<open>One tick of the heartbeat and election loop.\<close>

definition election_tick :: "packages \<Rightarrow> (nat \<Rightarrow> u64) \<Rightarrow> (string \<Rightarrow> exchange \<times> exchange) \<Rightarrow> raft_node \<Rightarrow> raft_node" where
  "election_tick P clock net n =
     (if \<not> is_running n then n
      else if role n = Leader then send_heartbeat net n
      else if current_leader n \<noteq> None then n
      else if hd (sort (peers n @ [node_id n])) = node_id n then recover_as_new_leader P clock n
      else n)"

definition snapshot_request :: "packages \<Rightarrow> raft_node \<Rightarrow> request" where
  "snapshot_request P n =
     ReqRaftInstallSnapshot (current_term n) (node_id n) (snapshot_index n) (snapshot_term n)
       (map (\<lambda>(i, queue, visible_at, payload).
          \<lparr>si_id = ulid_to_string P i, si_queue = queue, si_visible_at = visible_at, si_payload = payload\<rparr>)
        (get_surviving_snapshot_messages P (engine n)))"

definition wire_entry :: "raft_command postcard \<Rightarrow> log_entry \<Rightarrow> raft_log_entry_wire list" where
  "wire_entry C x =
     (case to_allocvec C (le_command x) of
        Some b \<Rightarrow> [\<lparr>we_term = le_term x, we_index = le_index x, we_command = b\<rparr>]
      | None \<Rightarrow> [])"

definition catch_up_request :: "raft_command postcard \<Rightarrow> raft_node \<Rightarrow> request" where
  "catch_up_request C n =
     ReqRaftAppend (current_term n) (node_id n) (snapshot_index n) (snapshot_term n)
       (concat (map (wire_entry C) (raft_log n))) (commit_index n)"

definition sync_all_entries_to_peer :: "packages \<Rightarrow> raft_command postcard \<Rightarrow> exchange \<times> exchange \<Rightarrow>
    exchange \<times> exchange \<Rightarrow> string \<Rightarrow> raft_node \<Rightarrow> request list \<times> raft_node" where
  "sync_all_entries_to_peer P C x y peer_addr n =
     (let n1 = snd (send_peer_request (fst x) (snd x) peer_addr n)
      in if raft_log n1 \<noteq> []
         then ([snapshot_request P n, catch_up_request C n1], snd (send_peer_request (fst y) (snd y) peer_addr n1))
         else ([snapshot_request P n], n1))"

end
