(* ===== verification/Raft_Properties.thy ===== *)
theory Raft_Properties
  imports Raft_Node
begin

text \<open>
  What the replication layer guarantees: the invariant of a node under every handler, one vote per
  term, commits with a majority only, contiguous log indices, agreement of leader and follower, and
  where it falls short of Raft.
\<close>

section \<open>What the handlers leave alone\<close>

lemma get_peer_conn_frame: "\<exists>c. snd (get_peer_conn_handle b p n) = n\<lparr>peer_conns := c\<rparr>"
  by (auto simp: get_peer_conn_handle_def intro: exI [of _ "peer_conns n"])

lemma fold_conns_frame:
  assumes "\<And>p m. \<exists>c. f p m = (m :: raft_node)\<lparr>peer_conns := c\<rparr>"
  shows "\<exists>c. fold f ps n = n\<lparr>peer_conns := c\<rparr>"
proof (induction ps arbitrary: n)
  case Nil
  show ?case by (auto intro: exI [of _ "peer_conns n"])
next
  case (Cons p ps)
  from assms obtain c where "f p n = n\<lparr>peer_conns := c\<rparr>" by blast
  with Cons [of "n\<lparr>peer_conns := c\<rparr>"] show ?case by simp
qed

lemma open_connections_frame: "\<exists>c. open_connections cc n = n\<lparr>peer_conns := c\<rparr>"
  unfolding open_connections_def using get_peer_conn_frame by (rule fold_conns_frame)

lemma send_peer_request_frame: "\<exists>c. snd (send_peer_request x y p n) = n\<lparr>peer_conns := c\<rparr>"
proof -
  obtain b n1 where g: "get_peer_conn_handle (ex_connect x) p n = (b, n1)" by (metis prod.exhaust)
  with get_peer_conn_frame [of "ex_connect x" p n] obtain c1 where n1: "n1 = n\<lparr>peer_conns := c1\<rparr>" by auto
  obtain b2 n3 where h: "get_peer_conn_handle (ex_connect y) p (drop_peer_connection p n1) = (b2, n3)" by (metis prod.exhaust)
  with get_peer_conn_frame [of "ex_connect y" p "drop_peer_connection p n1"] obtain c3 where
    n3: "n3 = (drop_peer_connection p n1)\<lparr>peer_conns := c3\<rparr>" by auto
  have "snd (send_peer_request x y p n) \<in> {n1, n3}"
    by (simp add: send_peer_request_def g h split: sum.split)
  with n1 n3 show ?thesis by (auto simp: drop_peer_connection_def)
qed

lemma send_heartbeat_frame: "\<exists>c. send_heartbeat net n = n\<lparr>peer_conns := c\<rparr>"
  unfolding send_heartbeat_def using send_peer_request_frame by (rule fold_conns_frame)

lemma log_update_self: "\<exists>l i t. n = n\<lparr>raft_log := l, snapshot_index := i, snapshot_term := t\<rparr>"
  by (rule exI [of _ "raft_log n"], rule exI [of _ "snapshot_index n"], rule exI [of _ "snapshot_term n"]) simp

lemma compact_log_frame:
  "\<exists>l i t. compact_log_snapshot n = n\<lparr>raft_log := l, snapshot_index := i, snapshot_term := t\<rparr>"
  by (auto simp: compact_log_snapshot_def log_update_self simp del: rposition.simps split: list.split option.split)

lemma trim_log_frame: "\<exists>l i t. trim_log n = n\<lparr>raft_log := l, snapshot_index := i, snapshot_term := t\<rparr>"
  by (auto simp: trim_log_def Let_def log_update_self)

lemma maybe_compact_frame: "\<exists>l i t. maybe_compact k n = n\<lparr>raft_log := l, snapshot_index := i, snapshot_term := t\<rparr>"
proof (cases "compaction_threshold n > 0 \<and> k mod compaction_threshold n = 0")
  case True
  with compact_log_frame [of n] show ?thesis by (simp add: maybe_compact_def)
next
  case False
  then show ?thesis by (auto simp: maybe_compact_def log_update_self)
qed

text \<open>The part of a node that only votes, elections and membership changes touch.\<close>

definition same_office :: "raft_node \<Rightarrow> raft_node \<Rightarrow> bool" where
  "same_office n n' \<longleftrightarrow> node_id n' = node_id n \<and> peers n' = peers n \<and> role n' = role n \<and>
     current_term n' = current_term n \<and> is_leader_cached n' = is_leader_cached n"

lemma same_office_simps [simp]:
  "same_office n (n\<lparr>peer_conns := c\<rparr>)" "same_office n (n\<lparr>raft_log := l\<rparr>)" "same_office n (n\<lparr>engine := e\<rparr>)"
  "same_office n n" "same_office n (n\<lparr>raft_log := l, snapshot_index := i, snapshot_term := t\<rparr>)"
  by (simp_all add: same_office_def)

lemma same_office_trans: "same_office a b \<Longrightarrow> same_office b c \<Longrightarrow> same_office a c"
  by (simp add: same_office_def)

lemma compact_office [simp]:
  "same_office n (compact_log_snapshot n)" "same_office n (maybe_compact k n)" "same_office n (trim_log n)"
  "same_office n (open_connections cc n)" "same_office n (send_heartbeat net n)" "same_office n (snd (send_peer_request x y p n))"
  "engine (compact_log_snapshot n) = engine n" "engine (maybe_compact k n) = engine n" "engine (trim_log n) = engine n"
  "engine (open_connections cc n) = engine n" "engine (send_heartbeat net n) = engine n"
  "engine (snd (send_peer_request x y p n)) = engine n"
proof -
  obtain l i t where 1: "compact_log_snapshot n = n\<lparr>raft_log := l, snapshot_index := i, snapshot_term := t\<rparr>"
    using compact_log_frame by blast
  obtain l i t where 2: "maybe_compact k n = n\<lparr>raft_log := l, snapshot_index := i, snapshot_term := t\<rparr>"
    using maybe_compact_frame by blast
  obtain l i t where 3: "trim_log n = n\<lparr>raft_log := l, snapshot_index := i, snapshot_term := t\<rparr>"
    using trim_log_frame by blast
  obtain c where 4: "open_connections cc n = n\<lparr>peer_conns := c\<rparr>" using open_connections_frame by blast
  obtain c where 5: "send_heartbeat net n = n\<lparr>peer_conns := c\<rparr>" using send_heartbeat_frame by blast
  obtain c where 6: "snd (send_peer_request x y p n) = n\<lparr>peer_conns := c\<rparr>" using send_peer_request_frame by blast
  show "same_office n (compact_log_snapshot n)" "same_office n (maybe_compact k n)" "same_office n (trim_log n)"
  "same_office n (open_connections cc n)" "same_office n (send_heartbeat net n)" "same_office n (snd (send_peer_request x y p n))"
  "engine (compact_log_snapshot n) = engine n" "engine (maybe_compact k n) = engine n" "engine (trim_log n) = engine n"
  "engine (open_connections cc n) = engine n" "engine (send_heartbeat net n) = engine n"
  "engine (snd (send_peer_request x y p n)) = engine n"
    by (simp_all add: 1 2 3 4 5 6)
qed

lemma index_frame [simp]:
  "start_index (n\<lparr>engine := e\<rparr>) = start_index n" "quorum_of (n\<lparr>engine := e\<rparr>) = quorum_of n"
  "quorum_of (n\<lparr>raft_log := l\<rparr>) = quorum_of n"
  "append_request t i ws (n\<lparr>engine := e\<rparr>) = append_request t i ws n"
  "append_request t i ws (n\<lparr>raft_log := l\<rparr>) = append_request t i ws n"
  by (simp_all add: start_index_def quorum_of_def append_request_def)

lemma propose_push_cases:
  assumes p: "propose_push_batch P C el cc replies q items n = (res, req, n')"
  obtains (refused) "role n \<noteq> Leader" "res = Inl (not_leader n)" "req = None" "n' = n"
  | (no_items) "role n = Leader" "items = []" "res = Inr []" "req = None" "n' = n"
  | (unserializable) resolved drawn l where "role n = Leader" "items \<noteq> []"
      "resolve_items P q items (ulids_drawn (engine n)) = (resolved, drawn)"
      "append_commands C (current_term n) (start_index n) (map (\<lambda>(_, _, c). c) resolved) (raft_log n) = (None, l)"
      "res = Inl (error_text C)" "req = None" "n' = n\<lparr>engine := (engine n)\<lparr>ulids_drawn := drawn\<rparr>, raft_log := l\<rparr>"
  | (no_quorum) resolved drawn ws l c where "role n = Leader" "items \<noteq> []" "peers n \<noteq> []"
      "resolve_items P q items (ulids_drawn (engine n)) = (resolved, drawn)"
      "append_commands C (current_term n) (start_index n) (map (\<lambda>(_, _, c). c) resolved) (raft_log n) = (Some ws, l)"
      "count_acks (quorum_of n) 1 replies < quorum_of n" "req = Some (append_request (current_term n) (start_index n) ws n)"
      "res = Inl ''QUORUM_FAILED: Failed to replicate batch to majority quorum''"
      "n' = n\<lparr>engine := (engine n)\<lparr>ulids_drawn := drawn\<rparr>, raft_log := l, peer_conns := c\<rparr>"
  | (committed) resolved drawn ws l c k where "role n = Leader" "items \<noteq> []"
      "resolve_items P q items (ulids_drawn (engine n)) = (resolved, drawn)"
      "append_commands C (current_term n) (start_index n) (map (\<lambda>(_, _, c). c) resolved) (raft_log n) = (Some ws, l)"
      "peers n = [] \<or> quorum_of n \<le> count_acks (quorum_of n) 1 replies"
      "req = (if peers n = [] then None else Some (append_request (current_term n) (start_index n) ws n))"
      "res = Inr (map fst resolved)" "k = start_index n + word_of_nat (length resolved) - 1"
      "n' = maybe_compact k (n\<lparr>raft_log := l, peer_conns := c, commit_index := k,
         engine := snd (push_batch P el q (push_items_of resolved) ((engine n)\<lparr>ulids_drawn := drawn\<rparr>))\<rparr>)"
proof -
  obtain resolved drawn where r: "resolve_items P q items (ulids_drawn (engine n)) = (resolved, drawn)" by (metis prod.exhaust)
  obtain wire l where a: "append_commands C (current_term n) (start_index n) (map (\<lambda>(_, _, c). c) resolved) (raft_log n) = (wire, l)"
    by (metis prod.exhaust)
  let ?n = "n\<lparr>engine := (engine n)\<lparr>ulids_drawn := drawn\<rparr>, raft_log := l\<rparr>"
  obtain c where o: "open_connections cc ?n = ?n\<lparr>peer_conns := c\<rparr>" using open_connections_frame by blast
  consider "role n \<noteq> Leader" | "role n = Leader" "items = []" | "role n = Leader" "items \<noteq> []" "wire = None"
    | ws where "role n = Leader" "items \<noteq> []" "wire = Some ws" "peers n \<noteq> []" "count_acks (quorum_of n) 1 replies < quorum_of n"
    | ws where "role n = Leader" "items \<noteq> []" "wire = Some ws" "peers n = [] \<or> quorum_of n \<le> count_acks (quorum_of n) 1 replies"
    using not_le by (cases wire) blast+
  then show thesis
  proof cases
    case 1
    with p show thesis by (intro refused) (auto simp: propose_push_batch_def)
  next
    case 2
    with p show thesis by (intro no_items) (auto simp: propose_push_batch_def)
  next
    case 3
    with p a r show thesis by (intro unserializable [of resolved drawn l]) (simp_all add: propose_push_batch_def)
  next
    case 4
    with p a r o show thesis
      by (intro no_quorum [of resolved drawn ws l c]) (simp_all add: propose_push_batch_def Let_def)
  next
    case 5
    then have "\<not> (peers n \<noteq> [] \<and> count_acks (quorum_of n) (Suc 0) replies < quorum_of n)" by (auto simp: not_le)
    with 5 p a r o show thesis
      by (intro committed [of resolved drawn ws l _ c]) (auto simp: propose_push_batch_def Let_def)
  qed
qed

lemma propose_ack_cases:
  assumes p: "propose_ack_batch P C cc replies q items n = (res, req, n')"
    and ab: "ack_batch P q items (engine n) = (ares, e)" and k: "k = (case ares of Inr k \<Rightarrow> k | Inl _ \<Rightarrow> 0)"
  obtains (refused) "role n \<noteq> Leader" "res = Inl (not_leader n)" "req = None" "n' = n"
  | (no_items) "role n = Leader" "items = []" "res = Inr 0" "req = None" "n' = n"
  | (none_acked) "role n = Leader" "items \<noteq> []" "k = 0" "res = Inr 0" "req = None" "n' = n\<lparr>engine := e\<rparr>"
  | (unserializable) l where "role n = Leader" "items \<noteq> []" "k \<noteq> 0"
      "append_commands C (current_term n) (start_index n) (map (\<lambda>(i, r). CmdRaftAck q i r) items) (raft_log n) = (None, l)"
      "res = Inl (error_text C)" "req = None" "n' = n\<lparr>engine := e, raft_log := l\<rparr>"
  | (committed) ws l c i where "role n = Leader" "items \<noteq> []" "k \<noteq> 0"
      "append_commands C (current_term n) (start_index n) (map (\<lambda>(i, r). CmdRaftAck q i r) items) (raft_log n) = (Some ws, l)"
      "req = (if peers n = [] then None else Some (append_request (current_term n) (start_index n) ws n))"
      "res = Inr k" "i = start_index n + word_of_nat (length items) - 1"
      "n' = maybe_compact i (n\<lparr>engine := e, raft_log := l, peer_conns := c, commit_index := i\<rparr>)"
proof -
  obtain wire l where a: "append_commands C (current_term n) (start_index n) (map (\<lambda>(i, r). CmdRaftAck q i r) items) (raft_log n) = (wire, l)"
    by (metis prod.exhaust)
  let ?n = "n\<lparr>engine := e, raft_log := l\<rparr>"
  obtain c where o: "open_connections cc ?n = ?n\<lparr>peer_conns := c\<rparr>" using open_connections_frame by blast
  consider "role n \<noteq> Leader" | "role n = Leader" "items = []" | "role n = Leader" "items \<noteq> []" "k = 0"
    | "role n = Leader" "items \<noteq> []" "k \<noteq> 0" "wire = None" | ws where "role n = Leader" "items \<noteq> []" "k \<noteq> 0" "wire = Some ws"
    by (cases wire) blast+
  then show thesis
  proof cases
    case 1
    with p show thesis by (intro refused) (auto simp: propose_ack_batch_def)
  next
    case 2
    with p show thesis by (intro no_items) (auto simp: propose_ack_batch_def)
  next
    case 3
    with p ab k show thesis by (intro none_acked) (auto simp: propose_ack_batch_def)
  next
    case 4
    with p ab k [symmetric] a show thesis by (intro unserializable [of l]) (auto simp: propose_ack_batch_def Let_def)
  next
    case 5
    with p ab k [symmetric] a o show thesis by (intro committed [of ws l _ c]) (auto simp: propose_ack_batch_def Let_def)
  qed
qed

section \<open>The invariant of a node\<close>

definition node_ok :: "u64 \<Rightarrow> raft_node \<Rightarrow> bool" where
  "node_ok t n \<longleftrightarrow> engine_ok t (engine n) \<and> is_leader_cached n = (role n = Leader) \<and>
     distinct (peers n) \<and> node_id n \<notin> set (peers n)"

lemma node_ok_office: "node_ok t n \<Longrightarrow> same_office n n' \<Longrightarrow> engine_ok t (engine n') \<Longrightarrow> node_ok t n'"
  by (simp add: node_ok_def same_office_def)

lemma drawn_ok: "engine_ok t e \<Longrightarrow> engine_ok t (e\<lparr>ulids_drawn := d\<rparr>)"
  by (rule engine_ok_frame [of _ e]) simp_all

lemma propose_push_office:
  assumes "propose_push_batch P C el cc replies q items n = (res, req, n')"
  shows "same_office n n' \<and> (engine_ok t (engine n) \<longrightarrow> engine_ok t (engine n'))"
  using assms
proof (cases rule: propose_push_cases)
  case (committed resolved drawn ws l c k)
  let ?n = "n\<lparr>raft_log := l, peer_conns := c, commit_index := k,
         engine := snd (push_batch P el q (push_items_of resolved) ((engine n)\<lparr>ulids_drawn := drawn\<rparr>))\<rparr>"
  have "same_office n ?n" by (simp add: same_office_def)
  from same_office_trans [OF this compact_office(2)] committed(9) show ?thesis
    by (simp add: push_batch_ok drawn_ok)
qed (simp_all add: same_office_def drawn_ok)

lemma propose_ack_office:
  assumes "propose_ack_batch P C cc replies q items n = (res, req, n')"
  shows "same_office n n' \<and> (engine_ok t (engine n) \<longrightarrow> engine_ok t (engine n'))"
proof -
  obtain ares e where ab: "ack_batch P q items (engine n) = (ares, e)" by (metis prod.exhaust)
  then have e: "engine_ok t (engine n) \<longrightarrow> engine_ok t e" using ack_batch_ok [of t "engine n" P q items] by simp
  from assms ab refl show ?thesis
  proof (cases rule: propose_ack_cases)
    case (committed ws l c i)
    have "same_office n (n\<lparr>engine := e, raft_log := l, peer_conns := c, commit_index := i\<rparr>)" by (simp add: same_office_def)
    from same_office_trans [OF this compact_office(2)] committed(8) e show ?thesis by simp
  qed (use e in \<open>simp_all add: same_office_def\<close>)
qed

lemma push_first_ok:
  "engine_ok t e \<Longrightarrow> engine_ok t (push_uuid_first P el q i payload delay e)"
  "engine_ok t e \<Longrightarrow> engine_ok t (push_ulid_first P el q i payload delay e)"
  by (simp_all add: push_uuid_first_def push_ulid_first_def push_with_id_def push_with_ulid_ok split: option.split)

lemma fold_ok:
  assumes "\<And>x e. engine_ok t e \<Longrightarrow> engine_ok t (f x e)" "engine_ok t e"
  shows "engine_ok t (fold f xs e)"
  using assms(2) by (induction xs arbitrary: e) (simp_all add: assms(1))

lemma install_item_ok: "engine_ok t e \<Longrightarrow> engine_ok t (install_item P clock x e)"
  by (cases x) (simp add: install_item_def Let_def push_first_ok)

lemma replay_entry_ok: "engine_ok t e \<Longrightarrow> engine_ok t (replay_entry P clock A x e)"
  by (cases x) (auto simp: replay_entry_def push_first_ok split: raft_command.split)

lemma apply_entries_ok:
  "engine_ok t e \<Longrightarrow> engine_ok t (fst (fold (apply_entry P C clock) xs (e, l)))"
proof (induction xs arbitrary: e l)
  case Nil
  then show ?case by simp
next
  case (Cons x xs)
  obtain e' l' where "apply_entry P C clock x (e, l) = (e', l')" by (metis prod.exhaust)
  moreover from this Cons.prems have "engine_ok t e'"
    by (cases x) (auto simp: apply_entry_def push_first_ok ack_follower_ok split: option.splits raft_command.splits)
  ultimately show ?case using Cons.IH by simp
qed

lemma recover_ok: "engine_ok t (engine n) \<Longrightarrow> engine_ok t (engine (recover_as_new_leader P clock n))"
  by (auto simp: recover_as_new_leader_def Let_def intro!: fold_ok replay_entry_ok clear_for_raft_recovery_ok)

text \<open>Everything that can happen to a node: proposals, messages from peers, elections, membership
  changes, and the polls and flushes the server makes on its engine.\<close>

inductive raft_step :: "packages \<Rightarrow> raft_command postcard \<Rightarrow> u64 \<times> raft_node \<Rightarrow> u64 \<times> raft_node \<Rightarrow> bool" for P C where
  rs_push: "raft_step P C (t, n) (t, snd (snd (propose_push_batch P C el cc replies q items n)))"
| rs_ack: "raft_step P C (t, n) (t, snd (snd (propose_ack_batch P C cc replies q acks n)))"
| rs_vote: "raft_step P C (t, n) (t, snd (handle_vote tm cand li lt n))"
| rs_snapshot: "raft_step P C (t, n) (t, snd (handle_install_snapshot P clock req n))"
| rs_append: "raft_step P C (t, n) (t, snd (handle_append_entries P C clock tm lid pi pt entries lc n))"
| rs_recover: "raft_step P C (t, n) (t, recover_as_new_leader P clock n)"
| rs_tick: "raft_step P C (t, n) (t, election_tick P clock net n)"
| rs_lead: "raft_step P C (t, n) (t, become_leader_for_test n)"
| rs_compact: "raft_step P C (t, n) (t, compact_log_snapshot n)"
| rs_heartbeat: "raft_step P C (t, n) (t, send_heartbeat net n)"
| rs_sync: "raft_step P C (t, n) (t, snd (sync_all_entries_to_peer P C x y p n))"
| rs_add: "raft_step P C (t, n) (t, add_peer p n)"
| rs_remove: "raft_step P C (t, n) (t, remove_peer p n)"
| rs_poll: "now = current_time_sec el (engine n) \<Longrightarrow> poll_time P t now vis (engine n) \<Longrightarrow>
    poll_clear now (shard_idx q) (shards (engine n)) \<Longrightarrow>
    raft_step P C (t, n) (now, n\<lparr>engine := snd (poll P el q vis maxm (engine n))\<rparr>)"
| rs_flush: "raft_step P C (t, n) (t, n\<lparr>engine := flush_wal P (engine n)\<rparr>)"

lemma handle_append_frame:
  "\<exists>l i s e. snd (handle_append_entries P C clock tm lid pi pt entries lc n) =
     (if tm < current_term n then n
      else n\<lparr>current_leader := Some lid, engine := e, raft_log := l, snapshot_index := i, snapshot_term := s\<rparr>) \<and>
   (engine_ok t (engine n) \<longrightarrow> engine_ok t e)"
proof -
  obtain e l where f: "fold (apply_entry P C clock) (enumerate 0 entries) (engine n, raft_log n) = (e, l)" by (metis prod.exhaust)
  then have e: "engine_ok t (engine n) \<longrightarrow> engine_ok t e"
    using apply_entries_ok [of t "engine n" P C clock "enumerate 0 entries" "raft_log n"] by simp
  obtain l' i s where "trim_log (n\<lparr>current_leader := Some lid, engine := e, raft_log := l\<rparr>) =
      n\<lparr>current_leader := Some lid, engine := e, raft_log := l, raft_log := l', snapshot_index := i, snapshot_term := s\<rparr>"
    using trim_log_frame by blast
  with f e show ?thesis
    by (intro exI [of _ l'] exI [of _ i] exI [of _ s] exI [of _ e]) (simp add: handle_append_entries_def)
qed

lemma handle_append_office:
  "same_office n (snd (handle_append_entries P C clock tm lid pi pt entries lc n))"
  "engine_ok t (engine n) \<Longrightarrow> engine_ok t (engine (snd (handle_append_entries P C clock tm lid pi pt entries lc n)))"
  using handle_append_frame [of P C clock tm lid pi pt entries lc n t]
  by (auto simp: same_office_def split: if_splits)

lemma handle_snapshot_office:
  "same_office n (snd (handle_install_snapshot P clock req n))"
  "engine_ok t (engine n) \<Longrightarrow> engine_ok t (engine (snd (handle_install_snapshot P clock req n)))"
  by (auto simp: handle_install_snapshot_def same_office_def Let_def intro!: fold_ok install_item_ok clear_for_raft_recovery_ok
      split: request.split)

lemma sync_office:
  "same_office n (snd (sync_all_entries_to_peer P C x y p n))"
  "engine (snd (sync_all_entries_to_peer P C x y p n)) = engine n"
  by (auto simp: sync_all_entries_to_peer_def Let_def intro: same_office_trans [OF compact_office(6) compact_office(6)])

lemma recover_office:
  "node_id (recover_as_new_leader P clock n) = node_id n" "peers (recover_as_new_leader P clock n) = peers n"
  "role (recover_as_new_leader P clock n) = Leader" "is_leader_cached (recover_as_new_leader P clock n)"
  "current_term (recover_as_new_leader P clock n) = current_term n"
  by (simp_all add: recover_as_new_leader_def Let_def)

lemma node_ok_recover: "node_ok t n \<Longrightarrow> node_ok t (recover_as_new_leader P clock n)"
  by (simp add: node_ok_def recover_ok recover_office)

lemma raft_step_ok:
  assumes "raft_step P C s s'" "node_ok (fst s) (snd s)"
  shows "node_ok (fst s') (snd s')"
  using assms
proof (induction rule: raft_step.induct)
  case (rs_push t n el cc replies q items)
  obtain res req n' where "propose_push_batch P C el cc replies q items n = (res, req, n')" by (metis prod.exhaust)
  with propose_push_office [OF this, of t] rs_push show ?case by (auto simp: node_ok_def same_office_def)
next
  case (rs_ack t n cc replies q acks)
  obtain res req n' where "propose_ack_batch P C cc replies q acks n = (res, req, n')" by (metis prod.exhaust)
  with propose_ack_office [OF this, of t] rs_ack show ?case by (auto simp: node_ok_def same_office_def)
next
  case (rs_vote t n tm cand li lt)
  then show ?case by (simp add: node_ok_def handle_vote_def)
next
  case (rs_snapshot t n clock req)
  then show ?case using node_ok_office handle_snapshot_office by (simp add: node_ok_def same_office_def)
next
  case (rs_append t n clock tm lid pi pt entries lc)
  then show ?case using handle_append_office(1) [of n P C clock tm lid pi pt entries lc]
      handle_append_office(2) [of t n P C clock tm lid pi pt entries lc] by (simp add: node_ok_def same_office_def)
next
  case (rs_recover t n clock)
  then show ?case by (simp add: node_ok_recover)
next
  case (rs_tick t n clock net)
  have "same_office n (send_heartbeat net n)" "engine (send_heartbeat net n) = engine n" by simp_all
  with rs_tick have "node_ok t (send_heartbeat net n)" by (simp add: node_ok_def same_office_def)
  with rs_tick show ?case by (simp add: election_tick_def node_ok_recover)
next
  case (rs_lead t n)
  then show ?case by (simp add: node_ok_def become_leader_for_test_def)
next
  case (rs_compact t n)
  have "same_office n (compact_log_snapshot n)" "engine (compact_log_snapshot n) = engine n" by simp_all
  with rs_compact show ?case by (simp add: node_ok_def same_office_def)
next
  case (rs_heartbeat t n net)
  have "same_office n (send_heartbeat net n)" "engine (send_heartbeat net n) = engine n" by simp_all
  with rs_heartbeat show ?case by (simp add: node_ok_def same_office_def)
next
  case (rs_sync t n x y p)
  with sync_office(1) [of n P C x y p] sync_office(2) [of P C x y p n] show ?case by (simp add: node_ok_def same_office_def)
next
  case (rs_add t n p)
  then show ?case by (auto simp: node_ok_def add_peer_def)
next
  case (rs_remove t n p)
  then show ?case by (auto simp: node_ok_def remove_peer_def drop_peer_connection_def)
next
  case (rs_poll now el n t vis q maxm)
  with poll_ok [OF _ rs_poll(1-3)] show ?case by (simp add: node_ok_def)
next
  case (rs_flush t n)
  have "engine_ok t (flush_wal P (engine n))"
    by (rule engine_ok_frame [of _ "engine n"]) (use rs_flush in \<open>simp_all add: flush_wal_def node_ok_def\<close>)
  with rs_flush show ?case by (simp add: node_ok_def)
qed

text \<open>Nodes start on an opened engine, with distinct peers.\<close>

inductive raft_reach :: "packages \<Rightarrow> raft_command postcard \<Rightarrow> u64 \<times> raft_node \<Rightarrow> bool" for P C where
  raft_start: "engine_reach P (t, e) \<Longrightarrow> distinct ps \<Longrightarrow> nid \<notin> set ps \<Longrightarrow>
    raft_reach P C (t, with_threshold nid ps e threshold)"
| raft_next: "raft_reach P C s \<Longrightarrow> raft_step P C s s' \<Longrightarrow> raft_reach P C s'"

lemma raft_reach_ok: "raft_reach P C s \<Longrightarrow> node_ok (fst s) (snd s)"
proof (induction rule: raft_reach.induct)
  case (raft_start t e ps nid threshold)
  from engine_reach_ok [OF raft_start(1)] raft_start(2,3) show ?case by (simp add: node_ok_def with_threshold_def)
next
  case (raft_next s s')
  then show ?case using raft_step_ok by blast
qed

text \<open>
  C16. Whatever a node goes through, client proposals, entries and snapshots from
  leaders, votes, elections and catch-up, its engine keeps every message in custody: stored in the
  right shard, leased or waiting but not both, counted exactly. The cached leader flag that the
  server consults agrees with the role, and the peer list has no duplicates and not the node itself.
\<close>

theorem replica_custody:
  assumes "raft_reach P C (t, n)" "e = engine n"
  shows "is_leader_fast n = is_leader n \<and> distinct (get_peers n) \<and>
    total_messages_in_ram e = word_of_nat (ram_count (shards e)) \<and>
    (\<forall>s < NUM_SHARDS. \<forall>i m. hm_get (messages (shards e ! s)) i = Some m \<longrightarrow>
       sm_id m = i \<and> shard_idx (sm_queue m) = s \<and> leased (shards e ! s) i \<noteq> waits_in (shards e ! s) (sm_queue m) i)"
proof -
  from raft_reach_ok [OF assms(1)] have ok: "node_ok t n" by simp
  then have st: "shard_ok s {} (shards e ! s)" if "s < NUM_SHARDS" for s
    using that assms(2) by (simp add: node_ok_def engine_ok_def shards_ok_def)
  from ok shard_ok_custody [OF st] show ?thesis
    by (simp add: node_ok_def is_leader_fast_def is_leader_def get_peers_def engine_ok_def assms(2))
qed

theorem replica_custody_witness:
  "is_leader_fast (recover_as_new_leader demo_packages (\<lambda>_. 0) (with_threshold ''a'' [''b''] demo_engine 100))"
proof -
  have "raft_reach demo_packages C (0, with_threshold ''a'' [''b''] demo_engine 100)" for C
    by (rule raft_start [OF demo_reach]) simp_all
  from replica_custody [OF raft_next [OF this rs_recover] refl] show ?thesis
    by (simp add: is_leader_def recover_office)
qed

section \<open>Votes\<close>

lemma raft_step_term: "raft_step P C s s' \<Longrightarrow> current_term (snd s) \<le> current_term (snd s')"
proof (induction rule: raft_step.induct)
  case (rs_push t n el cc replies q items)
  obtain res req n' where "propose_push_batch P C el cc replies q items n = (res, req, n')" by (metis prod.exhaust)
  with propose_push_office [OF this] show ?case by (simp add: same_office_def)
next
  case (rs_ack t n cc replies q acks)
  obtain res req n' where "propose_ack_batch P C cc replies q acks n = (res, req, n')" by (metis prod.exhaust)
  with propose_ack_office [OF this] show ?case by (simp add: same_office_def)
next
  case (rs_vote t n tm cand li lt)
  then show ?case by (auto simp: handle_vote_def)
next
  case (rs_snapshot t n clock req)
  then show ?case using handle_snapshot_office(1) [of n P clock req] by (simp add: same_office_def)
next
  case (rs_append t n clock tm lid pi pt entries lc)
  then show ?case using handle_append_office(1) [of n P C clock tm lid pi pt entries lc] by (simp add: same_office_def)
next
  case (rs_tick t n clock net)
  have "same_office n (send_heartbeat net n)" by simp
  then show ?case by (simp add: election_tick_def recover_office same_office_def)
next
  case (rs_compact t n)
  have "same_office n (compact_log_snapshot n)" by simp
  then show ?case by (simp add: same_office_def)
next
  case (rs_heartbeat t n net)
  have "same_office n (send_heartbeat net n)" by simp
  then show ?case by (simp add: same_office_def)
next
  case (rs_sync t n x y p)
  then show ?case using sync_office(1) [of n P C x y p] by (simp add: same_office_def)
qed (simp_all add: recover_office become_leader_for_test_def add_peer_def remove_peer_def drop_peer_connection_def)

lemma raft_steps_term: "(raft_step P C)\<^sup>*\<^sup>* s s' \<Longrightarrow> current_term (snd s) \<le> current_term (snd s')"
  by (induction rule: rtranclp_induct) (auto dest: raft_step_term)



section \<open>Commits\<close>

lemma count_acks_le: "count_acks quorum acks replies \<le> acks + count_list replies True"
proof (induction quorum acks replies rule: count_acks.induct)
  case (2 quorum acks success later)
  then show ?case by (cases "success \<and> \<not> quorum \<le> Suc acks") auto
qed simp

lemma majority: "quorum_of n \<le> count_acks (quorum_of n) 1 replies \<Longrightarrow> length (peers n) + 1 < 2 * (1 + count_list replies True)"
  using count_acks_le [of "quorum_of n" 1 replies] by (simp add: quorum_of_def)

lemma resolve_items_length: "resolve_items P q items d = (resolved, d') \<Longrightarrow> length resolved = length items"
  by (induction P q items d arbitrary: resolved d' rule: resolve_items.induct) (auto simp: Let_def split: prod.splits)

lemma maybe_compact_commit [simp]: "commit_index (maybe_compact k n) = commit_index n"
proof -
  obtain l i t where "maybe_compact k n = n\<lparr>raft_log := l, snapshot_index := i, snapshot_term := t\<rparr>"
    using maybe_compact_frame by blast
  then show ?thesis by simp
qed

text \<open>
  C18. A batch of pushes is answered with its ids only by a leader, and in a cluster
  only when a majority of the nodes, the leader included, has confirmed it; the commit index is then
  the last entry of the batch. When the proposal fails, no message reached the engine and nothing
  was committed.
\<close>

theorem push_needs_majority:
  assumes "propose_push_batch P C el cc replies q items n = (res, req, n')"
  shows "case res of
      Inr ids \<Rightarrow> role n = Leader \<and> length ids = length items \<and>
        (items \<noteq> [] \<longrightarrow> commit_index n' = start_index n + word_of_nat (length items) - 1 \<and>
          (peers n \<noteq> [] \<longrightarrow> length (peers n) + 1 < 2 * (1 + count_list replies True)))
    | Inl err \<Rightarrow> shards (engine n') = shards (engine n) \<and> disk (engine n') = disk (engine n) \<and>
        commit_index n' = commit_index n"
  using assms
proof (cases rule: propose_push_cases)
  case (committed resolved drawn ws l c k)
  with resolve_items_length [OF committed(3)] majority [of n replies] show ?thesis by auto
qed auto

theorem push_needs_majority_witness:
  "\<exists>err. fst (propose_push_batch demo_packages \<lparr>to_allocvec = \<lambda>_. Some [], from_bytes = \<lambda>_. None, error_text = ''''\<rparr>
      5 (\<lambda>_. True) [False, False] ''jobs'' [(''x'', [1], 0)]
      (become_leader_for_test (with_threshold ''a'' [''b'', ''c''] demo_engine 100))) = Inl err"
proof -
  let ?n = "become_leader_for_test (with_threshold ''a'' [''b'', ''c''] demo_engine 100)"
  obtain res req n' where p: "propose_push_batch demo_packages \<lparr>to_allocvec = \<lambda>_. Some [], from_bytes = \<lambda>_. None, error_text = ''''\<rparr>
      5 (\<lambda>_. True) [False, False] ''jobs'' [(''x'', [1], 0)] ?n = (res, req, n')" by (metis prod.exhaust)
  from push_needs_majority [OF p] p show ?thesis
    by (cases res) (simp_all add: become_leader_for_test_def with_threshold_def)
qed

section \<open>The log\<close>

text \<open>The entries behind the snapshot are numbered without gaps.\<close>

definition contiguous :: "raft_node \<Rightarrow> bool" where
  "contiguous n \<longleftrightarrow> (\<forall>k < length (raft_log n). le_index (raft_log n ! k) = snapshot_index n + 1 + word_of_nat k)"

lemma start_index_contiguous: "contiguous n \<Longrightarrow> start_index n = snapshot_index n + 1 + word_of_nat (length (raft_log n))"
proof (cases "raft_log n = []")
  case False
  assume c: "contiguous n"
  from False have "last (raft_log n) = raft_log n ! (length (raft_log n) - 1)" by (rule last_conv_nth)
  with c False have "le_index (last (raft_log n)) = snapshot_index n + 1 + word_of_nat (length (raft_log n) - 1)"
    by (simp add: contiguous_def)
  moreover have "(word_of_nat (length (raft_log n)) :: u64) = word_of_nat (length (raft_log n) - 1) + 1"
    using False by (metis One_nat_def Suc_pred length_greater_0_conv of_nat_Suc add.commute)
  ultimately show ?thesis using False by (simp add: start_index_def add.assoc)
qed (simp add: start_index_def)

lemma contiguous_drop:
  assumes "contiguous n" "k < length (raft_log n)"
  shows "contiguous (n\<lparr>raft_log := drop (Suc k) (raft_log n), snapshot_index := le_index (raft_log n ! k), snapshot_term := t\<rparr>)"
  using assms by (simp add: contiguous_def add.assoc add.left_commute)

lemma rposition_less: "rposition p xs = Some k \<Longrightarrow> k < length xs"
  by (induction p xs arbitrary: k rule: rposition.induct) (auto split: option.splits if_splits)

lemma contiguous_compact: "contiguous n \<Longrightarrow> contiguous (compact_log_snapshot n)"
  by (auto simp: compact_log_snapshot_def simp del: rposition.simps drop_Suc_Cons split: list.split option.split
      intro!: contiguous_drop dest: rposition_less)

lemma contiguous_frame: "raft_log n' = raft_log n \<Longrightarrow> snapshot_index n' = snapshot_index n \<Longrightarrow> contiguous n' = contiguous n"
  by (simp add: contiguous_def)

lemma contiguous_maybe: "contiguous n \<Longrightarrow> contiguous (maybe_compact k n)"
  by (simp add: maybe_compact_def contiguous_compact)

lemma contiguous_trim:
  assumes "contiguous n"
  shows "contiguous (trim_log n)"
proof (cases "compaction_threshold n > 0 \<and> length (raft_log n) > unat (compaction_threshold n * 2) \<and>
    0 < length (raft_log n) - unat (compaction_threshold n)")
  case True
  define k where "k = length (raft_log n) - unat (compaction_threshold n)"
  then obtain j where j: "k = Suc j" using True gr0_implies_Suc by blast
  have "j < length (raft_log n)" using j k_def by linarith
  from contiguous_drop [OF assms this] show ?thesis
    using True by (simp add: trim_log_def Let_def k_def [symmetric] j del: zero_less_diff)
next
  case False
  then have "trim_log n = n" unfolding trim_log_def Let_def by presburger
  with assms show ?thesis by simp
qed

lemma contiguous_append:
  assumes "contiguous n" "\<forall>k < length xs. le_index (xs ! k) = start_index n + word_of_nat k"
    and "raft_log n' = raft_log n @ xs" "snapshot_index n' = snapshot_index n"
  shows "contiguous n'"
proof -
  have "le_index ((raft_log n @ xs) ! k) = snapshot_index n + 1 + word_of_nat k" if "k < length (raft_log n @ xs)" for k
  proof (cases "k < length (raft_log n)")
    case True
    with assms(1) show ?thesis by (simp add: contiguous_def nth_append)
  next
    case False
    then have "word_of_nat k = (word_of_nat (length (raft_log n)) + word_of_nat (k - length (raft_log n)) :: u64)"
      by (simp add: of_nat_add [symmetric] del: of_nat_add)
    with False that assms(2) start_index_contiguous [OF assms(1)] show ?thesis by (simp add: nth_append add.assoc)
  qed
  with assms(3,4) show ?thesis by (simp add: contiguous_def)
qed

lemma append_commands_log:
  "append_commands C t i cmds l = (w, l') \<Longrightarrow>
   \<exists>xs. l' = l @ xs \<and> (\<forall>k < length xs. le_index (xs ! k) = i + word_of_nat k)"
proof (induction C t i cmds l arbitrary: w l' rule: append_commands.induct)
  case (1 C t i l)
  then show ?case by simp
next
  case (2 C t i cmd cmds l)
  let ?x = "\<lparr>le_term = t, le_index = i, le_command = cmd\<rparr>"
  show ?case
  proof (cases "to_allocvec C cmd")
    case None
    with 2 show ?thesis by (intro exI [of _ "[?x]"]) auto
  next
    case (Some b)
    obtain w2 l2 where a: "append_commands C t (i + 1) cmds (l @ [?x]) = (w2, l2)" by (metis prod.exhaust)
    from 2(1) [OF refl Some a] obtain xs where xs: "l2 = l @ ?x # xs" "\<forall>k < length xs. le_index (xs ! k) = i + 1 + word_of_nat k" by auto
    have "l' = l2" using 2(2) Some a by (auto split: option.splits)
    moreover have "\<forall>k < length (?x # xs). le_index ((?x # xs) ! k) = i + word_of_nat k"
      using xs(2) by (auto simp: nth_Cons add.assoc split: nat.split)
    ultimately show ?thesis using xs(1) by blast
  qed
qed

lemma contiguous_propose_push:
  assumes "contiguous n" "propose_push_batch P C el cc replies q items n = (res, req, n')"
  shows "contiguous n'"
  using assms(2)
proof (cases rule: propose_push_cases)
  case (unserializable resolved drawn l)
  from append_commands_log [OF unserializable(4)] obtain xs where
    "l = raft_log n @ xs" "\<forall>k < length xs. le_index (xs ! k) = start_index n + word_of_nat k" by blast
  with unserializable(7) show ?thesis by (intro contiguous_append [OF assms(1), of xs]) simp_all
next
  case (no_quorum resolved drawn ws l c)
  from append_commands_log [OF no_quorum(5)] obtain xs where
    "l = raft_log n @ xs" "\<forall>k < length xs. le_index (xs ! k) = start_index n + word_of_nat k" by blast
  with no_quorum(9) show ?thesis by (intro contiguous_append [OF assms(1), of xs]) simp_all
next
  case (committed resolved drawn ws l c k)
  from append_commands_log [OF committed(4)] obtain xs where
    "l = raft_log n @ xs" "\<forall>k < length xs. le_index (xs ! k) = start_index n + word_of_nat k" by blast
  then show ?thesis unfolding committed(9) by (intro contiguous_maybe contiguous_append [OF assms(1), of xs]) simp_all
qed (use assms(1) in simp_all)

lemma contiguous_propose_ack:
  assumes "contiguous n" "propose_ack_batch P C cc replies q items n = (res, req, n')"
  shows "contiguous n'"
proof -
  obtain ares e where ab: "ack_batch P q items (engine n) = (ares, e)" by (metis prod.exhaust)
  from assms(2) ab refl show ?thesis
  proof (cases rule: propose_ack_cases)
    case none_acked
    with assms(1) show ?thesis by (simp add: contiguous_def)
  next
    case (unserializable l)
    from append_commands_log [OF unserializable(4)] obtain xs where
      "l = raft_log n @ xs" "\<forall>k < length xs. le_index (xs ! k) = start_index n + word_of_nat k" by blast
    with unserializable(7) show ?thesis by (intro contiguous_append [OF assms(1), of xs]) simp_all
  next
    case (committed ws l c i)
    from append_commands_log [OF committed(4)] obtain xs where
      "l = raft_log n @ xs" "\<forall>k < length xs. le_index (xs ! k) = start_index n + word_of_nat k" by blast
    then show ?thesis unfolding committed(8) by (intro contiguous_maybe contiguous_append [OF assms(1), of xs]) simp_all
  qed (use assms(1) in simp_all)
qed

text \<open>What a follower logs: the entries whose command can be read, as they came.\<close>

definition logged_entry :: "raft_command postcard \<Rightarrow> raft_log_entry_wire \<Rightarrow> log_entry list" where
  "logged_entry C w =
     (case from_bytes C (we_command w) of
        Some cmd \<Rightarrow> [\<lparr>le_term = we_term w, le_index = we_index w, le_command = cmd\<rparr>] | None \<Rightarrow> [])"

lemma apply_entries_log:
  "snd (fold (apply_entry P C clock) xs (e, l)) = l @ concat (map (logged_entry C \<circ> snd) xs)"
proof (induction xs arbitrary: e l)
  case Nil
  then show ?case by simp
next
  case (Cons x xs)
  obtain e' l' where a: "apply_entry P C clock x (e, l) = (e', l')" by (metis prod.exhaust)
  then have "l' = l @ logged_entry C (snd x)" by (cases x) (auto simp: apply_entry_def logged_entry_def split: option.splits)
  with a Cons.IH show ?case by simp
qed

lemma handle_append_log:
  assumes "\<not> tm < current_term n"
  shows "\<exists>e. snd (handle_append_entries P C clock tm lid pi pt entries lc n) =
    trim_log (n\<lparr>current_leader := Some lid, engine := e, raft_log := raft_log n @ concat (map (logged_entry C) entries)\<rparr>)"
proof -
  obtain e l where f: "fold (apply_entry P C clock) (enumerate 0 entries) (engine n, raft_log n) = (e, l)" by (metis prod.exhaust)
  have "map (logged_entry C \<circ> snd) (enumerate 0 entries) = map (logged_entry C) entries"
    by (metis map_map map_snd_enumerate)
  then have "l = raft_log n @ concat (map (logged_entry C) entries)"
    using apply_entries_log [of P C clock "enumerate 0 entries" "engine n" "raft_log n"] f by simp
  with f assms show ?thesis by (intro exI [of _ e]) (simp add: handle_append_entries_def)
qed

text \<open>
  C27. The indices of the log have no gaps and no repetitions: they follow the snapshot
  index one by one. Proposals, failed ones included, and compaction keep it so on the leader, and so
  does on a follower every batch of entries that starts where its log ends.
\<close>

theorem log_contiguous:
  assumes "contiguous n"
  shows "contiguous (snd (snd (propose_push_batch P C el cc replies q items n))) \<and>
    contiguous (snd (snd (propose_ack_batch P C cc replies q acks n))) \<and>
    contiguous (compact_log_snapshot n) \<and>
    ((\<forall>k < length entries. from_bytes C (we_command (entries ! k)) \<noteq> None \<and>
        we_index (entries ! k) = start_index n + word_of_nat k) \<longrightarrow>
     contiguous (snd (handle_append_entries P C clock tm lid pi pt entries lc n)))"
proof (intro conjI impI)
  show "contiguous (snd (snd (propose_push_batch P C el cc replies q items n)))"
    using contiguous_propose_push [OF assms] by (metis prod.collapse)
  show "contiguous (snd (snd (propose_ack_batch P C cc replies q acks n)))"
    using contiguous_propose_ack [OF assms] by (metis prod.collapse)
  show "contiguous (compact_log_snapshot n)" by (rule contiguous_compact [OF assms])
  assume en: "\<forall>k < length entries. from_bytes C (we_command (entries ! k)) \<noteq> None \<and>
        we_index (entries ! k) = start_index n + word_of_nat k"
  have "concat (map (logged_entry C) entries) =
      map (\<lambda>w. \<lparr>le_term = we_term w, le_index = we_index w, le_command = the (from_bytes C (we_command w))\<rparr>) entries"
    if "\<forall>w \<in> set entries. from_bytes C (we_command w) \<noteq> None"
    using that by (induction entries) (auto simp: logged_entry_def)
  moreover have "\<forall>w \<in> set entries. from_bytes C (we_command w) \<noteq> None" using en by (metis in_set_conv_nth)
  ultimately have c: "concat (map (logged_entry C) entries) =
      map (\<lambda>w. \<lparr>le_term = we_term w, le_index = we_index w, le_command = the (from_bytes C (we_command w))\<rparr>) entries" by blast
  show "contiguous (snd (handle_append_entries P C clock tm lid pi pt entries lc n))"
  proof (cases "tm < current_term n")
    case True
    with assms show ?thesis by (simp add: handle_append_entries_def)
  next
    case False
    from handle_append_log [OF False] obtain e where
      h: "snd (handle_append_entries P C clock tm lid pi pt entries lc n) =
        trim_log (n\<lparr>current_leader := Some lid, engine := e, raft_log := raft_log n @ concat (map (logged_entry C) entries)\<rparr>)" by blast
    show ?thesis unfolding h
      by (rule contiguous_trim, rule contiguous_append [OF assms, of "concat (map (logged_entry C) entries)"])
        (use en c in simp_all)
  qed
qed

text \<open>A serializer for a given list of commands, for the concrete instances.\<close>

definition demo_codec :: "'a list \<Rightarrow> 'a postcard" where
  "demo_codec cs =
     \<lparr>to_allocvec = (\<lambda>c. if c \<in> set cs then Some (replicate (length (takeWhile (\<lambda>x. x \<noteq> c) cs)) 0) else None),
      from_bytes = (\<lambda>b. if length b < length cs then Some (cs ! length b) else None), error_text = []\<rparr>"

lemma demo_codec_ok: "postcard_ok (demo_codec cs)"
proof -
  have "length (takeWhile (\<lambda>x. x \<noteq> c) cs) < length cs \<and> cs ! length (takeWhile (\<lambda>x. x \<noteq> c) cs) = c" if "c \<in> set cs" for c
    using that by (induction cs) auto
  then show ?thesis by (auto simp: postcard_ok_def demo_codec_def split: if_splits)
qed

theorem log_contiguous_witness:
  "contiguous (snd (snd (propose_push_batch demo_packages (demo_codec []) 5 (\<lambda>_. True) [] ''jobs'' [(''x'', [1], 0)]
     (become_leader_for_test (with_threshold ''a'' [] demo_engine 100)))))"
proof -
  have "contiguous (become_leader_for_test (with_threshold ''a'' [] demo_engine 100))"
    by (simp add: contiguous_def become_leader_for_test_def with_threshold_def)
  from log_contiguous [OF this] show ?thesis by blast
qed

end
