(* ===== verification/Raft_Replication.thy ===== *)
theory Raft_Replication
  imports Raft_Properties
begin

text \<open>
  A leader and its followers: what the entries a leader sends do to a follower's engine, when the
  two agree, and when they do not.
\<close>

section \<open>Agreement\<close>

text \<open>The part of an engine that a push by id depends on and changes, apart from the log.\<close>

definition same_memory :: "u64 \<Rightarrow> queue_engine \<Rightarrow> u64 \<Rightarrow> queue_engine \<Rightarrow> bool" where
  "same_memory el e el' e' \<longleftrightarrow> shards e' = shards e \<and> total_messages_in_ram e' = total_messages_in_ram e \<and>
     options e' = options e \<and> current_time_sec el' e' = current_time_sec el e"

lemma push_with_ulid_memory:
  assumes "same_memory el e el' e'"
  shows "same_memory el (snd (push_with_ulid P el q i payload delay e)) el' (snd (push_with_ulid P el' q i payload delay e'))"
proof -
  have t: "current_time_sec el (snd (push_with_ulid P el q i payload delay e)) = current_time_sec el e" for el e
    by (simp add: push_with_ulid_def Let_def current_time_sec_def)
  show ?thesis using assms unfolding same_memory_def t by (simp add: push_with_ulid_def Let_def)
qed

lemma push_one_memory:
  "same_memory el e el' e' \<Longrightarrow> pi_id item \<noteq> None \<Longrightarrow> same_memory el (push_one P el q item e) el' (push_one P el' q item e')"
  by (auto simp: push_one_def push_with_ulid_memory)

lemma fold_push_one_memory:
  "same_memory el e el' e' \<Longrightarrow> \<forall>item \<in> set items. pi_id item \<noteq> None \<Longrightarrow>
   same_memory el (fold (push_one P el q) items e) el' (fold (push_one P el' q) items e')"
  by (induction items arbitrary: e e') (auto simp: push_one_memory)

text \<open>A ulid has 26 characters.\<close>

definition ulid_strict :: "packages \<Rightarrow> bool" where
  "ulid_strict P \<longleftrightarrow> (\<forall>s u. ulid_from_string P s = Some u \<longrightarrow> length s = 26)"

text \<open>What the leader resolved, a follower reads back from the entry.\<close>

definition reads_as :: "packages \<Rightarrow> string \<Rightarrow> string \<times> ulid \<times> raft_command \<Rightarrow> bool" where
  "reads_as P q = (\<lambda>(sid, u, c).
     (\<exists>payload delay. c = CmdRaftPush q sid payload delay) \<and>
     (ulid_from_string P sid = Some u \<or> ulid_from_string P sid = None \<and> uuid_parse_str P sid = Some u))"

lemma resolve_id_reads:
  assumes "ulid_strings P" "ulid_strict P" "resolve_id P s d = ((sid, u), d')"
  shows "ulid_from_string P sid = Some u \<or> ulid_from_string P sid = None \<and> uuid_parse_str P sid = Some u"
  using assms by (auto simp: resolve_id_def Let_def ulid_strings_def ulid_strict_def split: if_splits option.splits)

lemma resolve_items_reads:
  "ulid_strings P \<Longrightarrow> ulid_strict P \<Longrightarrow> resolve_items P q items d = (resolved, d') \<Longrightarrow> \<forall>x \<in> set resolved. reads_as P q x"
proof (induction P q items d arbitrary: resolved d' rule: resolve_items.induct)
  case (1 P q d)
  then show ?case by simp
next
  case (2 P q s payload delay items d)
  obtain sid u d1 where r: "resolve_id P s d = ((sid, u), d1)" by (metis prod.exhaust)
  obtain rest d2 where s: "resolve_items P q items d1 = (rest, d2)" by (metis prod.exhaust)
  from 2(1) [OF r [symmetric] refl refl 2(2,3) s] resolve_id_reads [OF 2(2,3) r] 2(4) r s show ?case
    by (auto simp: reads_as_def)
qed

lemma append_commands_wire:
  "postcard_ok C \<Longrightarrow> append_commands C t i cmds l = (Some ws, l') \<Longrightarrow>
   map (\<lambda>w. from_bytes C (we_command w)) ws = map Some cmds"
proof (induction C t i cmds l arbitrary: ws l' rule: append_commands.induct)
  case (1 C t i l)
  then show ?case by simp
next
  case (2 C t i cmd cmds l)
  from 2(3) obtain b where b: "to_allocvec C cmd = Some b" by (cases "to_allocvec C cmd") (auto simp: Let_def)
  obtain w2 l2 where a: "append_commands C t (i + 1) cmds (l @ [\<lparr>le_term = t, le_index = i, le_command = cmd\<rparr>]) = (w2, l2)"
    by (metis prod.exhaust)
  with 2(3) b obtain vs where vs: "w2 = Some vs" "ws = \<lparr>we_term = t, we_index = i, we_command = b\<rparr> # vs"
    by (auto split: option.splits)
  from 2(1) [OF refl b 2(2) a [unfolded vs(1)]] b 2(2) vs(2) show ?case by (simp add: postcard_ok_def)
qed

lemma apply_resolved:
  assumes "reads_as P q (sid, u, c)" "from_bytes C (we_command w) = Some c" "clock k = el'"
  shows "fst (apply_entry P C clock (k, w) (e, l)) = fold (push_one P el' q) (push_items_of [(sid, u, c)]) e"
proof -
  from assms(1) obtain payload delay where c: "c = CmdRaftPush q sid payload delay" by (auto simp: reads_as_def)
  show ?thesis using assms by (auto simp: c reads_as_def apply_entry_def push_ulid_first_def push_with_id_def
        push_items_of_def push_one_def)
qed

lemma apply_all_resolved:
  "\<forall>x \<in> set resolved. reads_as P q x \<Longrightarrow>
   map (\<lambda>w. from_bytes C (we_command w)) ws = map Some (map (\<lambda>(_, _, c). c) resolved) \<Longrightarrow> (\<And>k. clock k = el') \<Longrightarrow>
   fst (fold (apply_entry P C clock) (enumerate m ws) (e, l)) = fold (push_one P el' q) (push_items_of resolved) e"
proof (induction resolved arbitrary: ws m e l)
  case Nil
  then show ?case by (simp add: push_items_of_def)
next
  case (Cons x resolved)
  obtain sid u c where x: "x = (sid, u, c)" by (metis prod.exhaust)
  from Cons.prems(2) x obtain w vs where ws: "ws = w # vs" "from_bytes C (we_command w) = Some c"
    "map (\<lambda>w. from_bytes C (we_command w)) vs = map Some (map (\<lambda>(_, _, c). c) resolved)"
    by (cases ws) auto
  obtain e1 l1 where a: "apply_entry P C clock (m, w) (e, l) = (e1, l1)" by (metis prod.exhaust)
  have "e1 = fold (push_one P el' q) (push_items_of [x]) e"
    using apply_resolved [of P q sid u c C w clock m el' e l] Cons.prems(1,3) x ws(2) a by simp
  moreover have "push_items_of (x # resolved) = push_items_of [x] @ push_items_of resolved" by (simp add: push_items_of_def)
  ultimately show ?case using Cons.IH [OF _ ws(3) Cons.prems(3), of "Suc m" e1 l1] Cons.prems(1) ws(1) a by simp
qed

lemma push_items_have_ids: "\<forall>item \<in> set (push_items_of resolved). pi_id item \<noteq> None"
  by (auto simp: push_items_of_def split: raft_command.splits)


section \<open>A small cluster for the concrete instances\<close>

definition demo_leader :: raft_node where
  "demo_leader = become_leader_for_test (with_threshold ''a'' [''b''] demo_engine 100)"

definition demo_follower :: raft_node where
  "demo_follower = with_threshold ''b'' [''a''] demo_engine 100"

abbreviation demo_id :: string where
  "demo_id \<equiv> ulid_to_string demo_packages 7"

abbreviation demo_push_cmd :: raft_command where
  "demo_push_cmd \<equiv> CmdRaftPush ''jobs'' demo_id [1, 2, 3] 0"

lemma demo_ulid_strict: "ulid_strict demo_packages"
  by (simp add: ulid_strict_def demo_packages_def)

lemma demo_resolve:
  "resolve_items demo_packages ''jobs'' [(demo_id, [1, 2, 3], 0)] d = ([(demo_id, 7, demo_push_cmd)], d)"
proof -
  have "length demo_id = 26" "ulid_from_string demo_packages demo_id = Some 7"
    using demo_packages_strings by (simp_all add: ulid_strings_def)
  moreover from this have "demo_id \<noteq> []" by (metis list.size(3) zero_neq_numeral)
  ultimately show ?thesis by (simp add: resolve_id_def Let_def)
qed

lemma demo_uuid: "uuid_parse_str demo_packages s = None"
  by (simp add: demo_packages_def)

lemma demo_append:
  "append_commands (demo_codec [demo_push_cmd]) t i [demo_push_cmd] l =
     (Some [\<lparr>we_term = t, we_index = i, we_command = []\<rparr>], l @ [\<lparr>le_term = t, le_index = i, le_command = demo_push_cmd\<rparr>])"
  by (simp add: demo_codec_def)

lemma demo_propose:
  "\<exists>n'. propose_push_batch demo_packages (demo_codec [demo_push_cmd]) 5 (\<lambda>_. True) [True] ''jobs'' [(demo_id, [1, 2, 3], 0)] demo_leader =
     (Inr [demo_id], Some (ReqRaftAppend 0 ''a'' 0 0 [\<lparr>we_term = 0, we_index = 1, we_command = []\<rparr>] 0), n')"
  by (simp add: propose_push_batch_def Let_def demo_resolve demo_append demo_leader_def become_leader_for_test_def
      with_threshold_def start_index_def append_request_def quorum_of_def sat_sub_def
      del: append_commands.simps resolve_items.simps)


section \<open>Where leader and follower part\<close>

text \<open>
  A batch that the leader refused for want of a majority stays in its log. When
  the node later takes over as leader, it replays the log and the message is in its queue, although
  the client was told that the push failed.
\<close>

theorem failed_push_replayed:
  "\<exists>n'. propose_push_batch demo_packages (demo_codec [demo_push_cmd]) 5 (\<lambda>_. True) [False] ''jobs''
       [(demo_id, [1, 2, 3], 0)] demo_leader =
       (Inl ''QUORUM_FAILED: Failed to replicate batch to majority quorum'',
        Some (ReqRaftAppend 0 ''a'' 0 0 [\<lparr>we_term = 0, we_index = 1, we_command = []\<rparr>] 0), n') \<and>
     hm_get (messages (shard_of (engine n') ''jobs'')) 7 = None \<and>
     hm_get (messages (shard_of (engine (recover_as_new_leader demo_packages (\<lambda>_. 9) n')) ''jobs'')) 7 \<noteq> None"
proof -
  let ?n = "demo_leader\<lparr>raft_log := [\<lparr>le_term = 0, le_index = 1, le_command = demo_push_cmd\<rparr>], peer_conns := {''b''}\<rparr>"
  have p: "propose_push_batch demo_packages (demo_codec [demo_push_cmd]) 5 (\<lambda>_. True) [False] ''jobs''
       [(demo_id, [1, 2, 3], 0)] demo_leader =
       (Inl ''QUORUM_FAILED: Failed to replicate batch to majority quorum'',
        Some (ReqRaftAppend 0 ''a'' 0 0 [\<lparr>we_term = 0, we_index = 1, we_command = []\<rparr>] 0), ?n)"
    by (simp add: propose_push_batch_def Let_def demo_resolve demo_append demo_leader_def become_leader_for_test_def
      with_threshold_def start_index_def append_request_def quorum_of_def sat_sub_def open_connections_def get_peer_conn_handle_def
      del: append_commands.simps resolve_items.simps)
  have e: "engine ?n = demo_engine" by (simp add: demo_leader_def become_leader_for_test_def with_threshold_def)
  have "hm_get (messages (shard_of demo_engine ''jobs'')) 7 = None" by (simp add: demo_engine_fields shard_new_def)
  moreover have "engine (recover_as_new_leader demo_packages (\<lambda>_. 9) ?n) =
      snd (push_with_ulid demo_packages 9 ''jobs'' 7 [1, 2, 3] 0 (clear_for_raft_recovery demo_engine))"
    using demo_packages_strings
    by (simp add: recover_as_new_leader_def Let_def demo_leader_def become_leader_for_test_def with_threshold_def
        acked_in_def replay_entry_def push_uuid_first_def ulid_strings_def demo_uuid)
  moreover have "hm_get (messages (shard_of (snd (push_with_ulid demo_packages 9 ''jobs'' 7 [1, 2, 3] 0 (clear_for_raft_recovery demo_engine))) ''jobs'')) 7 \<noteq> None"
    by (simp add: push_with_ulid_def Let_def clear_for_raft_recovery_def demo_engine_fields current_time_sec_def hm_contains_def
        demo_options_def HOT_DELAY_HORIZON_SEC_def admit_messages)
  ultimately show ?thesis using p e by auto
qed

text \<open>
  Two nodes can be leaders at the same time and in the same term: a node that has not
  found its peers yet elects itself, and so does, later, the node with the smallest id. Neither
  steps down when it receives the other's entries.
\<close>

theorem two_leaders:
  "\<exists>a b. a = election_tick P clock net (with_threshold ''a'' [''b''] ea threshold) \<and>
     b = election_tick P clock net (with_threshold ''b'' [] eb threshold) \<and>
     is_leader a \<and> is_leader b \<and> current_term a = current_term b \<and>
     is_leader (snd (handle_append_entries P C clock (current_term a) (node_id a) 0 0 entries (commit_index a) b)) \<and>
     is_leader (snd (handle_append_entries P C clock (current_term b) (node_id b) 0 0 entries (commit_index b) a))"
proof -
  let ?a = "election_tick P clock net (with_threshold ''a'' [''b''] ea threshold)"
  let ?b = "election_tick P clock net (with_threshold ''b'' [] eb threshold)"
  have "?a = recover_as_new_leader P clock (with_threshold ''a'' [''b''] ea threshold)"
    "?b = recover_as_new_leader P clock (with_threshold ''b'' [] eb threshold)"
    by (simp_all add: election_tick_def with_threshold_def)
  then have "role ?a = Leader" "role ?b = Leader" "current_term ?a = current_term ?b"
    by (simp_all add: recover_office with_threshold_def)
  moreover from this have "role (snd (handle_append_entries P C clock (current_term ?a) (node_id ?a) 0 0 entries (commit_index ?a) ?b)) = Leader"
    "role (snd (handle_append_entries P C clock (current_term ?b) (node_id ?b) 0 0 entries (commit_index ?b) ?a)) = Leader"
    using handle_append_office(1) [of ?b P C clock "current_term ?a" "node_id ?a" 0 0 entries "commit_index ?a"]
      handle_append_office(1) [of ?a P C clock "current_term ?b" "node_id ?b" 0 0 entries "commit_index ?b"]
    by (simp_all add: same_office_def)
  ultimately show ?thesis by (auto simp: is_leader_def)
qed

lemma ack_follower_removes:
  assumes "length (shards e) = NUM_SHARDS" "parse_id_fast P mid = Some i"
  shows "hm_get (messages (shard_of (snd (ack_follower P q mid e)) q)) i = None"
proof -
  obtain b st where f: "forget_msg q i (shard_of e q) = (b, st)" by (metis prod.exhaust)
  then have "hm_get (messages st) i = None"
    using forget_msg_messages [of q i "shard_of e q"] by (auto simp: hm_contains_def split: if_splits)
  with assms f show ?thesis by (simp add: ack_follower_def Let_def)
qed

lemma ack_two:
  assumes "shard_ok s {} st" "hm_get (messages st) i \<noteq> None" "i \<noteq> j"
    and "tw_leases (tw st) i = Some it" "if_receipt it = r" "\<nexists>jt. tw_leases (tw st) j = Some jt \<and> if_receipt jt = rj"
  shows "\<exists>st' d'. fold (ack_batch_item q) [(i, r), (j, rj)] (st, d, 0) = (st', d', 1) \<and>
    (\<forall>k. hm_get (messages st') k = (if k = i then None else hm_get (messages st) k))"
proof -
  obtain v w where rm: "remove_if_valid i r (tw st) = (v, w)" by (metis prod.exhaust)
  from remove_if_valid_ok [OF shard_okD(3) [OF assms(1)] rm] assms(4,5) have v: "v" and wok: "wheel_ok w"
    and tl: "tw_leases w = (tw_leases (tw st))(i := None)" by auto
  obtain b st1 where am: "ack_msg q i (st\<lparr>tw := w\<rparr>) = (b, st1)" by (metis prod.exhaust)
  have b: "b" and st1: "messages st1 = hm_remove i (messages st)" "tw st1 = w"
    using am assms(2) by (auto simp: ack_msg_def split: option.splits)
  have "remove_if_valid j rj w = (False, w)"
    by (rule remove_if_valid_refused [OF wok]) (use tl assms(3,6) in auto)
  then have "fold (ack_batch_item q) [(i, r), (j, rj)] (st, d, 0) = (st1\<lparr>tw := w\<rparr>, append_ack_async i q d, 1)"
    using rm v am b st1(2) by (simp add: ack_batch_item_def)
  then show ?thesis using st1(1) by (intro exI conjI allI) auto
qed

text \<open>
  C39. A batch of acknowledgements with one good and one stale receipt: the leader
  removes the first message and rightly keeps the second, and reports one acknowledgement. But the
  entries it sends cover both, and followers do not check receipts: the second message is gone on
  every follower, and from the cluster when one of them takes over.
\<close>

theorem stale_ack_replicated:
  assumes "role n = Leader" "peers n \<noteq> []" "engine_ok t (engine n)" "fs_create_ok P" "postcard_ok C" "i \<noteq> j"
    and "parse_id_fast P mi = Some i" "parse_id_fast P mj = Some j"
    and "hm_get (messages (shard_of (engine n) q)) i \<noteq> None" "hm_get (messages (shard_of (engine n) q)) j = Some m"
    and "tw_leases (tw (shard_of (engine n) q)) i = Some it" "if_receipt it = r"
    and "\<nexists>jt. tw_leases (tw (shard_of (engine n) q)) j = Some jt \<and> if_receipt jt = rj"
    and "to_allocvec C (CmdRaftAck q mi r) \<noteq> None" "to_allocvec C (CmdRaftAck q mj rj) \<noteq> None"
    and "propose_ack_batch P C cc replies q [(mi, r), (mj, rj)] n = (res, req, n')"
    and "current_term f \<le> current_term n" "engine_ok t' (engine f)"
  shows "res = Inr 1 \<and> hm_get (messages (shard_of (engine n') q)) j = Some m \<and>
    (\<exists>pi ws. req = Some (ReqRaftAppend (current_term n) (node_id n) pi (current_term n) ws (commit_index n)) \<and>
      hm_get (messages (shard_of (engine (snd (handle_append_entries P C clock (current_term n) (node_id n) pi (current_term n)
        ws (commit_index n) f))) q)) j = None)"
proof -
  have st: "shard_ok (shard_idx q) {} (shard_of (engine n) q)" and len: "length (shards (engine n)) = NUM_SHARDS"
    using assms(3) shards_okD by (simp_all add: engine_ok_def shards_ok_def)
  from ack_two [OF st assms(9,6,11,12,13), of q "disk (engine n)"] obtain st' d' where
    two: "fold (ack_batch_item q) [(i, r), (j, rj)] (shard_of (engine n) q, disk (engine n), 0) = (st', d', 1)"
      "\<forall>k. hm_get (messages st') k = (if k = i then None else hm_get (messages (shard_of (engine n) q)) k)" by blast
  obtain ares e where ab: "ack_batch P q [(mi, r), (mj, rj)] (engine n) = (ares, e)" by (metis prod.exhaust)
  let ?e2 = "(set_shard (shard_idx q) st' (engine n))\<lparr>total_messages_in_ram := total_messages_in_ram (engine n) - 1, disk := flush P d'\<rparr>"
  have e2: "compact_then P 1 ?e2 = (ares, e)"
    using ab two(1) assms(7,8) by (simp add: ack_batch_def Let_def del: fold_simps)
  have ares: "ares = Inr 1" using compact_then_result [OF assms(4), of "1 :: usize" ?e2] by (simp add: e2)
  have "shards e = (shards (engine n))[shard_idx q := st']" using compact_then_options(3) [of P "1 :: usize" ?e2] by (simp add: e2)
  then have ej: "hm_get (messages (shard_of e q)) j = Some m" using len two(2) assms(6,10) by simp
  from assms(16) ab refl show ?thesis
  proof (cases rule: propose_ack_cases)
    case (unserializable l)
    with assms(14,15) show ?thesis by (auto split: option.splits)
  next
    case (committed ws l c k)
    from committed(5) assms(2) have req: "req = Some (ReqRaftAppend (current_term n) (node_id n) (sat_sub (start_index n) 1)
        (current_term n) ws (commit_index n))" by (simp add: append_request_def)
    have w: "map (\<lambda>w. from_bytes C (we_command w)) ws = [Some (CmdRaftAck q mi r), Some (CmdRaftAck q mj rj)]"
      using append_commands_wire [OF assms(5) committed(4)] by simp
    then obtain w1 w2 where ws: "ws = [w1, w2]" "from_bytes C (we_command w1) = Some (CmdRaftAck q mi r)"
      "from_bytes C (we_command w2) = Some (CmdRaftAck q mj rj)" by (auto simp: map_eq_Cons_conv)
    let ?e1 = "snd (ack_follower P q mi (engine f))"
    have ok1: "engine_ok t' ?e1" using ack_follower_ok [OF assms(18)] by simp
    have gone: "hm_get (messages (shard_of (snd (ack_follower P q mj ?e1)) q)) j = None"
      using ack_follower_removes [OF _ assms(8)] ok1 by (simp add: engine_ok_def shards_ok_def)
    have eng: "engine (snd (handle_append_entries P C clock (current_term n) (node_id n) pi (current_term n) ws (commit_index n) f)) =
        snd (ack_follower P q mj ?e1)" for pi
      using assms(17) ws by (simp add: handle_append_entries_def not_less apply_entry_def)
    have r: "res = Inr 1" "engine n' = e" using committed(6,8) ares by simp_all
    show ?thesis
      by (intro conjI exI [of _ "sat_sub (start_index n) 1"] exI [of _ ws]) (simp_all add: r ej req gone eng)
  qed (use assms(1) ares in auto)
qed

definition demo_two :: queue_engine where
  "demo_two = snd (push_with_ulid demo_packages 20 ''jobs'' 8 [4] 0 demo_leased)"

abbreviation demo_receipt :: string where
  "demo_receipt \<equiv> if_receipt (new_lease demo_packages ''jobs'' 1600000040 7 (ulids_drawn demo_spilled))"

lemma demo_two_fields:
  "engine_ok 1600000010 demo_two"
  "hm_get (messages (shard_of demo_two ''jobs'')) 7 \<noteq> None" "\<exists>m. hm_get (messages (shard_of demo_two ''jobs'')) 8 = Some m"
  "tw_leases (tw (shard_of demo_two ''jobs'')) = [7 \<mapsto> new_lease demo_packages ''jobs'' 1600000040 7 (ulids_drawn demo_spilled)]"
proof -
  have ok: "engine_ok 1600000010 demo_leased" using engine_reach_ok [OF demo_leased_reach] by simp
  then have len: "length (shards demo_leased) = NUM_SHARDS" by (simp add: engine_ok_def shards_ok_def)
  show "engine_ok 1600000010 demo_two" unfolding demo_two_def by (rule push_with_ulid_ok [OF ok])
  obtain res where p: "push_with_ulid demo_packages 20 ''jobs'' 8 [4] 0 demo_leased = (res, demo_two)"
    by (metis demo_two_def prod.collapse)
  have f: "seen_ids (shard_of demo_leased ''jobs'') = {7}" "total_messages_in_ram demo_leased = 1"
    "options demo_leased = demo_options" "base_epoch_sec demo_leased = 1600000000"
  proof -
    from demo_polled obtain e' pm where e: "poll demo_packages 10 ''jobs'' 0 5 demo_spilled = (pm, e')"
      "seen_ids (shard_of e' ''jobs'') = {7}" "total_messages_in_ram e' = 1" "options e' = demo_options"
      "base_epoch_sec e' = 1600000000" by blast
    have "demo_leased = e'" by (simp add: demo_leased_def e(1))
    with e show "seen_ids (shard_of demo_leased ''jobs'') = {7}" "total_messages_in_ram demo_leased = 1"
      "options demo_leased = demo_options" "base_epoch_sec demo_leased = 1600000000" by simp_all
  qed
  have "8 \<notin> seen_ids (shard_of demo_leased ''jobs'')" "1600000020 = current_time_sec 20 demo_leased + 0"
    "1600000020 \<le> current_time_sec 20 demo_leased + HOT_DELAY_HORIZON_SEC"
    "total_messages_in_ram demo_leased < max_hot_messages_in_ram (options demo_leased)"
    by (simp_all add: f demo_options_def current_time_sec_def HOT_DELAY_HORIZON_SEC_def)
  note A = push_admitted(1) [OF ok this p]
  show "hm_get (messages (shard_of demo_two ''jobs'')) 7 \<noteq> None" "\<exists>m. hm_get (messages (shard_of demo_two ''jobs'')) 8 = Some m"
    "tw_leases (tw (shard_of demo_two ''jobs'')) = [7 \<mapsto> new_lease demo_packages ''jobs'' 1600000040 7 (ulids_drawn demo_spilled)]"
    using len by (simp_all add: A admit_messages demo_leased_shard)
qed

theorem stale_ack_replicated_witness:
  "\<exists>n' pi ws. propose_ack_batch demo_packages
      (demo_codec [CmdRaftAck ''jobs'' demo_id demo_receipt, CmdRaftAck ''jobs'' (ulid_to_string demo_packages 8) ''old''])
      (\<lambda>_. True) [True] ''jobs'' [(demo_id, demo_receipt), (ulid_to_string demo_packages 8, ''old'')] (demo_leader\<lparr>engine := demo_two\<rparr>) =
      (Inr 1, Some (ReqRaftAppend 0 ''a'' pi 0 ws 0), n') \<and>
    hm_get (messages (shard_of (engine n') ''jobs'')) 8 \<noteq> None \<and>
    hm_get (messages (shard_of (engine (snd (handle_append_entries demo_packages
      (demo_codec [CmdRaftAck ''jobs'' demo_id demo_receipt, CmdRaftAck ''jobs'' (ulid_to_string demo_packages 8) ''old''])
      (\<lambda>_. 30) 0 ''a'' pi 0 ws 0 (demo_follower\<lparr>engine := demo_two\<rparr>)))) ''jobs'')) 8 = None"
proof -
  let ?n = "demo_leader\<lparr>engine := demo_two\<rparr>" and ?f = "demo_follower\<lparr>engine := demo_two\<rparr>"
  let ?a = "CmdRaftAck ''jobs'' demo_id demo_receipt" and ?b = "CmdRaftAck ''jobs'' (ulid_to_string demo_packages 8) ''old''"
  obtain res req n' where p: "propose_ack_batch demo_packages (demo_codec [?a, ?b]) (\<lambda>_. True) [True] ''jobs''
      [(demo_id, demo_receipt), (ulid_to_string demo_packages 8, ''old'')] ?n = (res, req, n')" by (metis prod.exhaust)
  have n: "role ?n = Leader" "peers ?n \<noteq> []" "engine_ok 1600000010 (engine ?n)" "node_id ?n = ''a''" "current_term ?n = 0"
    "commit_index ?n = 0" "current_term ?f \<le> current_term ?n" "engine_ok 1600000010 (engine ?f)"
    using demo_two_fields(1)
    by (simp_all add: demo_leader_def demo_follower_def become_leader_for_test_def with_threshold_def)
  obtain m where m: "hm_get (messages (shard_of (engine ?n) ''jobs'')) 8 = Some m" using demo_two_fields(3) by auto
  have l: "hm_get (messages (shard_of (engine ?n) ''jobs'')) 7 \<noteq> None"
    "tw_leases (tw (shard_of (engine ?n) ''jobs'')) 7 = Some (new_lease demo_packages ''jobs'' 1600000040 7 (ulids_drawn demo_spilled))"
    "\<nexists>jt. tw_leases (tw (shard_of (engine ?n) ''jobs'')) 8 = Some jt \<and> if_receipt jt = ''old''"
    using demo_two_fields by simp_all
  have parse: "parse_id_fast demo_packages (ulid_to_string demo_packages i) = Some i" for i
    using demo_packages_strings by (simp add: parse_id_fast_def ulid_strings_def)
  have c: "to_allocvec (demo_codec [?a, ?b]) ?a \<noteq> None" "to_allocvec (demo_codec [?a, ?b]) ?b \<noteq> None" by (simp_all add: demo_codec_def)
  have "fs_create_ok demo_packages" "(7 :: ulid) \<noteq> 8" by (simp_all add: demo_packages_def)
  from stale_ack_replicated [where clock = "\<lambda>_. 30", OF n(1-3) this(1) demo_codec_ok this(2) parse parse l(1) m l(2) refl l(3) c p n(7,8)]
  show ?thesis using p m by (auto simp: n)
qed

end
