(* ===== verification/Tcp_Service.thy ===== *)
theory Tcp_Service
  imports Raft_Replication
begin

text \<open>
  The server (\<open>tcp_service.rs\<close>) and its counters (\<open>metrics.rs\<close>): the dispatch of a request to the raft
  node and the engine, the loop that serves a connection, the connection limit and the shutdown.
  The engine of the server is the one of its raft node. What the outside decides in one request,
  the clock, the answers of the peers and the fate of the written response, is one argument.
\<close>

section \<open>Metrics\<close>

record walr_metrics =
  messages_pushed_total :: u64
  messages_acked_total :: u64
  messages_polled_total :: u64
  in_flight_messages :: "64 word"
  wal_compaction_count :: u64

definition metrics_default :: walr_metrics where
  "metrics_default = \<lparr>messages_pushed_total = 0, messages_acked_total = 0, messages_polled_total = 0,
     in_flight_messages = 0, wal_compaction_count = 0\<rparr>"

definition record_push :: "u64 \<Rightarrow> walr_metrics \<Rightarrow> walr_metrics" where
  "record_push n m = m\<lparr>messages_pushed_total := messages_pushed_total m + n\<rparr>"

definition record_ack :: "u64 \<Rightarrow> walr_metrics \<Rightarrow> walr_metrics" where
  "record_ack n m = m\<lparr>messages_acked_total := messages_acked_total m + n,
     in_flight_messages := in_flight_messages m - n\<rparr>"

definition record_poll :: "u64 \<Rightarrow> walr_metrics \<Rightarrow> walr_metrics" where
  "record_poll n m = m\<lparr>messages_polled_total := messages_polled_total m + n,
     in_flight_messages := in_flight_messages m + n\<rparr>"

definition record_wal_compact :: "walr_metrics \<Rightarrow> walr_metrics" where
  "record_wal_compact m = m\<lparr>wal_compaction_count := wal_compaction_count m + 1\<rparr>"

text \<open>\<open>Display\<close> of the integers.\<close>

fun show_nat :: "nat \<Rightarrow> string" where
  "show_nat n = (if n < 10 then [char_of (48 + n)] else show_nat (n div 10) @ [char_of (48 + n mod 10)])"

declare show_nat.simps [simp del]

definition show_int :: "int \<Rightarrow> string" where
  "show_int i = (if i < 0 then CHR ''-'' # show_nat (nat (- i)) else show_nat (nat i))"

definition metric_lines :: "string \<Rightarrow> string \<Rightarrow> string \<Rightarrow> string \<Rightarrow> string" where
  "metric_lines name help kind val =
     ''# HELP '' @ name @ '' '' @ help @ [CHR 0x0A] @ ''# TYPE '' @ name @ '' '' @ kind @ [CHR 0x0A] @
     name @ '' '' @ val @ [CHR 0x0A]"

definition render_prometheus :: "usize \<Rightarrow> bool \<Rightarrow> walr_metrics \<Rightarrow> string" where
  "render_prometheus ram_messages leader m =
     metric_lines ''walrq_messages_pushed_total'' ''Total messages pushed to queue'' ''counter''
       (show_nat (unat (messages_pushed_total m))) @
     metric_lines ''walrq_messages_acked_total'' ''Total messages acknowledged'' ''counter''
       (show_nat (unat (messages_acked_total m))) @
     metric_lines ''walrq_messages_polled_total'' ''Total messages polled by consumers'' ''counter''
       (show_nat (unat (messages_polled_total m))) @
     metric_lines ''walrq_in_flight_messages'' ''Current active in-flight visibility leases'' ''gauge''
       (show_int (sint (in_flight_messages m))) @
     metric_lines ''walrq_wal_compaction_total'' ''Total WAL flip-flop compactions executed'' ''counter''
       (show_nat (unat (wal_compaction_count m))) @
     metric_lines ''walrq_hot_messages_in_ram'' ''Current messages residing in memory'' ''gauge''
       (show_nat (unat ram_messages)) @
     metric_lines ''walrq_is_leader'' ''Whether this node is the current Raft leader'' ''gauge''
       (show_nat (if leader then 1 else 0))"

section \<open>State\<close>

definition DEFAULT_MAX_CONNECTIONS :: nat where
  "DEFAULT_MAX_CONNECTIONS = 10000"

record walr_server =
  raft :: raft_node
  local_node_id :: string
  conn_limit :: nat
  enable_metrics :: bool
  metrics :: walr_metrics

definition new_raft_with_limits :: "raft_node \<Rightarrow> string \<Rightarrow> nat \<Rightarrow> bool \<Rightarrow> walr_server" where
  "new_raft_with_limits r nid max_connections em =
     \<lparr>raft = r, local_node_id = nid, conn_limit = max_connections, enable_metrics = em, metrics = metrics_default\<rparr>"

definition new_raft :: "raft_node \<Rightarrow> string \<Rightarrow> walr_server" where
  "new_raft r nid = new_raft_with_limits r nid DEFAULT_MAX_CONNECTIONS True"

text \<open>What the outside decides while one request is served.\<close>

record surroundings =
  io_elapsed :: u64
  io_clock :: "nat \<Rightarrow> u64"
  io_connect :: "string \<Rightarrow> bool"
  io_replies :: "bool list"
  io_ulid_error :: "string \<Rightarrow> string"
  io_error_text :: string
  io_write :: "nat option"

section \<open>Dispatch\<close>

definition redirect :: "walr_server \<Rightarrow> response" where
  "redirect s = RespRedirect (case current_leader (raft s) of Some l \<Rightarrow> l | None \<Rightarrow> [])"

definition bad_id :: "packages \<Rightarrow> string \<Rightarrow> bool" where
  "bad_id P message_id \<longleftrightarrow> message_id \<noteq> [] \<and> length message_id \<noteq> 26 \<and> ulid_from_string P message_id = None"

definition queue_error_text :: "surroundings \<Rightarrow> queue_error \<Rightarrow> string" where
  "queue_error_text io err =
     (case err of
        QIo _ \<Rightarrow> ''IO error: '' @ io_error_text io
      | QNotFound q \<Rightarrow> ''Queue not found: '' @ q
      | QRamLimitExceeded n \<Rightarrow>
          ''RAM limit exceeded: hot queue memory full ('' @ show_nat (unat n) @ '' messages)'')"

definition wire_message :: "polled_message \<Rightarrow> message" where
  "wire_message m = \<lparr>msg_message_id = pm_message_id m, msg_payload = pm_payload m,
     msg_receipt_handle = pm_receipt_handle m, msg_delivery_count = pm_delivery_count m\<rparr>"

text \<open>The response, and the entries sent to the peers when there are any.\<close>

fun dispatch :: "packages \<Rightarrow> raft_command postcard \<Rightarrow> surroundings \<Rightarrow> request \<Rightarrow>
    walr_server \<Rightarrow> response \<times> request option \<times> walr_server" where
  "dispatch P C io (ReqPush queue_name payload delay_seconds message_id) s =
     (if \<not> is_leader_fast (raft s) then (redirect s, None, s)
      else if bad_id P message_id
      then (RespError (''invalid ULID message_id: '' @ io_ulid_error io message_id), None, s)
      else
       (case propose_push_str P C (io_elapsed io) (io_connect io) (io_replies io) queue_name message_id
               payload delay_seconds (raft s) of
          (Inr i, r, n) \<Rightarrow> (RespPush i, r, s\<lparr>raft := n, metrics := record_push 1 (metrics s)\<rparr>)
        | (Inl e, r, n) \<Rightarrow> (RespError e, r, s\<lparr>raft := n\<rparr>)))"
| "dispatch P C io (ReqPushBatch queue_name items) s =
     (if \<not> is_leader_fast (raft s) then (redirect s, None, s)
      else
       (case find (\<lambda>i. bad_id P (bi_message_id i)) items of
          Some i \<Rightarrow> (RespError (''invalid ULID message_id: '' @ io_ulid_error io (bi_message_id i)), None, s)
        | None \<Rightarrow>
            (case propose_push_batch_items P C (io_elapsed io) (io_connect io) (io_replies io) queue_name
                    items (raft s) of
               (Inr ids, r, n) \<Rightarrow>
                 (RespPushBatch ids, r,
                  s\<lparr>raft := n, metrics := record_push (word_of_nat (length ids)) (metrics s)\<rparr>)
             | (Inl e, r, n) \<Rightarrow> (RespError e, r, s\<lparr>raft := n\<rparr>))))"
| "dispatch P C io (ReqPoll queue_name visibility_timeout_sec batch_size) s =
     (if \<not> is_leader_fast (raft s) then (redirect s, None, s)
      else
       let batch = (if batch_size = 0 then 1 else batch_size);
           (res, e) = poll P (io_elapsed io) queue_name visibility_timeout_sec batch (engine (raft s));
           s1 = s\<lparr>raft := (raft s)\<lparr>engine := e\<rparr>\<rparr>
       in (case res of
             Inr polled \<Rightarrow>
               (RespPoll (map wire_message polled), None,
                if polled \<noteq> []
                then s1\<lparr>metrics := record_poll (word_of_nat (length polled)) (metrics s1)\<rparr> else s1)
           | Inl err \<Rightarrow> (RespError (queue_error_text io err), None, s1)))"
| "dispatch P C io (ReqAck queue_name message_id receipt_handle) s =
     (if \<not> is_leader_fast (raft s) then (redirect s, None, s)
      else
       (case propose_ack_batch P C (io_connect io) (io_replies io) queue_name
               [(message_id, receipt_handle)] (raft s) of
          (Inr acked, r, n) \<Rightarrow>
            (RespAck (acked > 0), r,
             if acked > 0 then s\<lparr>raft := n, metrics := record_ack 1 (metrics s)\<rparr> else s\<lparr>raft := n\<rparr>)
        | (Inl e, r, n) \<Rightarrow> (RespError e, r, s\<lparr>raft := n\<rparr>)))"
| "dispatch P C io (ReqAckBatch queue_name items) s =
     (if \<not> is_leader_fast (raft s) then (redirect s, None, s)
      else
       (case propose_ack_batch_items P C (io_connect io) (io_replies io) queue_name items (raft s) of
          (Inr acked, r, n) \<Rightarrow>
            (RespAckBatch (ucast acked), r,
             if acked > 0 then s\<lparr>raft := n, metrics := record_ack acked (metrics s)\<rparr> else s\<lparr>raft := n\<rparr>)
        | (Inl e, r, n) \<Rightarrow> (RespError e, r, s\<lparr>raft := n\<rparr>)))"
| "dispatch P C io (ReqRaftVote t candidate_id last_log_index last_log_term) s =
     (let (vote_granted, n) = handle_vote t candidate_id last_log_index last_log_term (raft s)
      in (RespRaftVote (current_term n) vote_granted, None, s\<lparr>raft := n\<rparr>))"
| "dispatch P C io (ReqRaftAppend t leader_id prev_log_index prev_log_term entries leader_commit) s =
     (let (success, n) = handle_append_entries P C (io_clock io) t leader_id prev_log_index prev_log_term
                          entries leader_commit (raft s)
      in (RespRaftAppend (current_term n) success, None, s\<lparr>raft := n\<rparr>))"
| "dispatch P C io (ReqRaftInstallSnapshot t lid li lt items) s =
     (let (success, n) = handle_install_snapshot P (io_clock io) (ReqRaftInstallSnapshot t lid li lt items) (raft s)
      in (RespRaftInstallSnapshot t success, None, s\<lparr>raft := n\<rparr>))"
| "dispatch P C io (ReqJoinCluster peer_addr) s =
     (if \<not> is_leader_fast (raft s) then (redirect s, None, s)
      else let n = add_peer peer_addr (raft s) in (RespClusterMembership True (get_peers n), None, s\<lparr>raft := n\<rparr>))"
| "dispatch P C io (ReqLeaveCluster peer_addr) s =
     (if \<not> is_leader_fast (raft s) then (redirect s, None, s)
      else let n = remove_peer peer_addr (raft s) in (RespClusterMembership True (get_peers n), None, s\<lparr>raft := n\<rparr>))"
| "dispatch P C io ReqMetrics s =
     (if \<not> enable_metrics s then (RespError ''metrics endpoint is disabled on this server'', None, s)
      else (RespMetrics (render_prometheus (total_messages_in_ram (engine (raft s))) (is_leader_fast (raft s)) (metrics s)),
           None, s))"

declare dispatch.simps [simp del]

section \<open>Connections\<close>

lemma read_with_buf_shorter:
  "(Inr x, s', buf') = read_message_with_buf Q s buf \<Longrightarrow> length s' < length s"
proof -
  assume "(Inr x, s', buf') = read_message_with_buf Q s buf"
  then have "read_message_with_buf Q s buf = (Inr x, s', buf')" by simp
  with buffer_reuse_safe [of Q s buf] have "read_message Q s = (Inr x, s')" by simp
  then show ?thesis using next_message_shorter [of Q s x s'] by (simp add: next_message_def)
qed

text \<open>Serve the requests of a connection one after the other, until one cannot be read or an answer
  cannot be written.\<close>

function handle_connection :: "packages \<Rightarrow> raft_command postcard \<Rightarrow> request postcard \<Rightarrow>
    response postcard \<Rightarrow> (nat \<Rightarrow> surroundings) \<Rightarrow> nat \<Rightarrow> bytes \<Rightarrow> bytes \<Rightarrow> bytes \<Rightarrow> walr_server \<Rightarrow> bytes \<times> walr_server" where
  "handle_connection P C Q R io k s buf out srv =
     (case read_message_with_buf Q s buf of
        (Inl _, _, _) \<Rightarrow> (out, srv)
      | (Inr req, s1, buf1) \<Rightarrow>
          let (resp, _, srv1) = dispatch P C (io k) req srv;
              (written, out1) = write_message R (io_write (io k)) resp out
          in (case written of
                Inl _ \<Rightarrow> (out1, srv1)
              | Inr _ \<Rightarrow> handle_connection P C Q R io (Suc k) s1 buf1 out1 srv1))"
  by pat_completeness auto
termination
  by (relation "measure (\<lambda>(P, C, Q, R, io, k, s, buf, out, srv). length s)") (auto simp: read_with_buf_shorter)

declare handle_connection.simps [simp del]

text \<open>The connection limit: a new connection takes a permit or is dropped; a finished one returns it.\<close>

definition accept_connection :: "walr_server \<Rightarrow> bool \<times> walr_server" where
  "accept_connection s = (if conn_limit s = 0 then (False, s) else (True, s\<lparr>conn_limit := conn_limit s - 1\<rparr>))"

definition close_connection :: "walr_server \<Rightarrow> walr_server" where
  "close_connection s = s\<lparr>conn_limit := Suc (conn_limit s)\<rparr>"

definition drain_and_flush :: "packages \<Rightarrow> walr_server \<Rightarrow> walr_server" where
  "drain_and_flush P s =
     (let n = raft s;
          n1 = n\<lparr>engine := (engine n)\<lparr>disk := flush P (disk (engine n))\<rparr>\<rparr>
      in s\<lparr>raft := compact_log_snapshot n1\<rparr>)"

section \<open>Followers\<close>

text \<open>The requests of clients, as opposed to those of peers and monitoring.\<close>

fun client_request :: "request \<Rightarrow> bool" where
  "client_request (ReqRaftVote _ _ _ _) = False"
| "client_request (ReqRaftAppend _ _ _ _ _ _) = False"
| "client_request (ReqRaftInstallSnapshot _ _ _ _ _) = False"
| "client_request ReqMetrics = False"
| "client_request _ = True"

lemma follower_dispatch:
  "\<not> is_leader_fast (raft s) \<Longrightarrow> client_request req \<Longrightarrow> dispatch P C io req s = (redirect s, None, s)"
  by (cases req) (simp_all add: dispatch.simps)

text \<open>What a dispatch does to the node: nothing, or one step of the replication layer.\<close>

lemma dispatch_push_node:
  assumes "p = propose_push_batch P C (io_elapsed io) (io_connect io) (io_replies io) q [(mid, pl, dl)] (raft s)"
  shows "raft (snd (snd (dispatch P C io (ReqPush q pl dl mid) s))) \<in> {raft s, snd (snd p)}"
  using assms [symmetric] by (cases p) (simp add: dispatch.simps propose_push_str_def split: sum.split)

lemma dispatch_push_batch_node:
  assumes "p = propose_push_batch_items P C (io_elapsed io) (io_connect io) (io_replies io) q items (raft s)"
  shows "raft (snd (snd (dispatch P C io (ReqPushBatch q items) s))) \<in> {raft s, snd (snd p)}"
  using assms [symmetric] by (cases p) (simp add: dispatch.simps split: sum.split option.split)

lemma dispatch_poll_node:
  assumes "p = poll P (io_elapsed io) q vis (if k = 0 then 1 else k) (engine (raft s))"
  shows "raft (snd (snd (dispatch P C io (ReqPoll q vis k) s))) \<in> {raft s, (raft s)\<lparr>engine := snd p\<rparr>}"
  using assms [symmetric] by (cases p) (simp add: dispatch.simps Let_def split: sum.split)

lemma dispatch_ack_node:
  assumes "p = propose_ack_batch P C (io_connect io) (io_replies io) q [(mid, rh)] (raft s)"
  shows "raft (snd (snd (dispatch P C io (ReqAck q mid rh) s))) \<in> {raft s, snd (snd p)}"
  using assms [symmetric] by (cases p) (simp add: dispatch.simps split: sum.split)

lemma dispatch_ack_batch_node:
  assumes "p = propose_ack_batch_items P C (io_connect io) (io_replies io) q items (raft s)"
  shows "raft (snd (snd (dispatch P C io (ReqAckBatch q items) s))) \<in> {raft s, snd (snd p)}"
  using assms [symmetric] by (cases p) (simp add: dispatch.simps split: sum.split)

lemma dispatch_peer_node:
  "raft (snd (snd (dispatch P C io (ReqRaftVote tm cand li lt) s))) = snd (handle_vote tm cand li lt (raft s))"
  "raft (snd (snd (dispatch P C io (ReqRaftAppend tm lid pi pt entries lc) s))) =
     snd (handle_append_entries P C (io_clock io) tm lid pi pt entries lc (raft s))"
  "raft (snd (snd (dispatch P C io (ReqRaftInstallSnapshot tm lid li lt items) s))) =
     snd (handle_install_snapshot P (io_clock io) (ReqRaftInstallSnapshot tm lid li lt items) (raft s))"
  "raft (snd (snd (dispatch P C io (ReqJoinCluster p) s))) \<in> {raft s, add_peer p (raft s)}"
  "raft (snd (snd (dispatch P C io (ReqLeaveCluster p) s))) \<in> {raft s, remove_peer p (raft s)}"
  "raft (snd (snd (dispatch P C io ReqMetrics s))) = raft s"
  by (simp_all add: dispatch.simps Let_def split: prod.split)

text \<open>The time after a request: the clock of a poll that the leader serves, as long as that poll is
  within the range of the timer arithmetic; otherwise the time before.\<close>

definition request_time :: "packages \<Rightarrow> surroundings \<Rightarrow> u64 \<Rightarrow> request \<Rightarrow> walr_server \<Rightarrow> u64 option" where
  "request_time P io t req s =
     (case req of
        ReqPoll q vis k \<Rightarrow>
          let now = current_time_sec (io_elapsed io) (engine (raft s))
          in if \<not> is_leader_fast (raft s) then Some t
             else if poll_time P t now vis (engine (raft s)) \<and> poll_clear now (shard_idx q) (shards (engine (raft s)))
             then Some now else None
      | _ \<Rightarrow> Some t)"

lemma reach_step: "raft_reach P C (t, n) \<Longrightarrow> n' \<in> {n, m} \<Longrightarrow> raft_step P C (t, n) (t, m) \<Longrightarrow> raft_reach P C (t, n')"
  by (auto intro: raft_next)

lemma rs_items:
  "raft_step P C (t, n) (t, snd (snd (propose_push_batch_items P C el cc replies q items n)))"
  "raft_step P C (t, n) (t, snd (snd (propose_ack_batch_items P C cc replies q acks n)))"
  by (simp_all add: propose_push_batch_items_def propose_ack_batch_items_def rs_push rs_ack)

lemma dispatch_reach:
  assumes "raft_reach P C (t, raft s)" "request_time P io t req s = Some t'"
  shows "raft_reach P C (t', raft (snd (snd (dispatch P C io req s))))"
proof (cases req)
  case (ReqPush q pl dl mid)
  with assms show ?thesis
    using reach_step [OF assms(1) dispatch_push_node [OF refl, where io = io and q = q and mid = mid and pl = pl and dl = dl] rs_push]
    by (simp add: request_time_def)
next
  case (ReqPushBatch q items)
  with assms show ?thesis
    using reach_step [OF assms(1) dispatch_push_batch_node [OF refl, where io = io and q = q and items = items]
        rs_items(1)]
    by (simp add: request_time_def)
next
  case (ReqPoll q vis k)
  let ?now = "current_time_sec (io_elapsed io) (engine (raft s))"
  let ?n = "(raft s)\<lparr>engine := snd (poll P (io_elapsed io) q vis (if k = 0 then 1 else k) (engine (raft s)))\<rparr>"
  show ?thesis
  proof (cases "is_leader_fast (raft s)")
    case True
    then have "raft (snd (snd (dispatch P C io (ReqPoll q vis k) s))) = ?n"
      by (simp add: dispatch.simps Let_def split: prod.split sum.split)
    moreover from True assms(2) ReqPoll have "t' = ?now" "raft_step P C (t, raft s) (?now, ?n)"
      by (auto simp: request_time_def Let_def simp del: if_split_asm split: if_split_asm intro: rs_poll)
    ultimately show ?thesis using raft_next [OF assms(1)] ReqPoll by simp
  next
    case False
    with ReqPoll assms show ?thesis by (simp add: follower_dispatch request_time_def)
  qed
next
  case (ReqAck q mid rh)
  with assms show ?thesis
    using reach_step [OF assms(1) dispatch_ack_node [OF refl, where io = io and q = q and mid = mid and rh = rh] rs_ack]
    by (simp add: request_time_def)
next
  case (ReqAckBatch q items)
  with assms show ?thesis
    using reach_step [OF assms(1) dispatch_ack_batch_node [OF refl, where io = io and q = q and items = items]
        rs_items(2)]
    by (simp add: request_time_def)
next
  case (ReqJoinCluster p)
  with assms show ?thesis
    using reach_step [OF assms(1) dispatch_peer_node(4) [of P C io p s] rs_add] by (simp add: request_time_def)
next
  case (ReqLeaveCluster p)
  with assms show ?thesis
    using reach_step [OF assms(1) dispatch_peer_node(5) [of P C io p s] rs_remove] by (simp add: request_time_def)
qed (use assms in \<open>auto simp: request_time_def dispatch_peer_node intro: raft_next [OF assms(1)] rs_vote rs_append rs_snapshot\<close>)

lemma leader_no_redirect:
  assumes "is_leader_fast (raft s)"
  shows "fst (dispatch P C io req s) \<noteq> RespRedirect l"
  using assms by (cases req)
    (auto simp: dispatch.simps Let_def split: prod.splits sum.splits option.splits)

text \<open>
  C20. On every reachable node, a client request is redirected exactly when the
  node is not the leader. A redirected request has no effect: the engine, the log, the peers and the
  counters are as before, and the answer names the leader the node knows of, or none.
\<close>

theorem follower_redirects:
  assumes "raft_reach P C (t, raft s)" "client_request req"
  shows "((\<exists>l. fst (dispatch P C io req s) = RespRedirect l) \<longleftrightarrow> role (raft s) \<noteq> Leader) \<and>
    (role (raft s) \<noteq> Leader \<longrightarrow>
       dispatch P C io req s = (RespRedirect (case current_leader (raft s) of Some l \<Rightarrow> l | None \<Rightarrow> []), None, s))"
proof -
  from raft_reach_ok [OF assms(1)] have "is_leader_fast (raft s) \<longleftrightarrow> role (raft s) = Leader"
    by (simp add: node_ok_def is_leader_fast_def)
  then show ?thesis
    using follower_dispatch [of s req P C io] leader_no_redirect [of s P C io req] assms(2)
    by (auto simp: redirect_def)
qed

definition demo_server :: walr_server where
  "demo_server = new_raft (with_threshold ''a'' [''b''] demo_engine 100) ''a''"

definition demo_io :: surroundings where
  "demo_io = \<lparr>io_elapsed = 5, io_clock = (\<lambda>_. 5), io_connect = (\<lambda>_. True), io_replies = [], io_ulid_error = (\<lambda>_. []),
     io_error_text = [], io_write = None\<rparr>"

lemma demo_server_reach: "raft_reach demo_packages C (0, raft demo_server)"
proof -
  have "raft_reach demo_packages C (0, with_threshold ''a'' [''b''] demo_engine 100)"
    by (rule raft_start [OF demo_reach]) simp_all
  then show ?thesis by (simp add: demo_server_def new_raft_def new_raft_with_limits_def)
qed

theorem follower_redirects_witness:
  "dispatch demo_packages (demo_codec []) demo_io (ReqPoll ''jobs'' 30 1) demo_server = (RespRedirect [], None, demo_server)"
proof -
  have "role (raft demo_server) \<noteq> Leader" "current_leader (raft demo_server) = None"
    by (simp_all add: demo_server_def new_raft_def new_raft_with_limits_def with_threshold_def)
  with follower_redirects [OF demo_server_reach, of "ReqPoll ''jobs'' 30 1" "demo_codec []" demo_io] show ?thesis by simp
qed

section \<open>A connection\<close>

text \<open>The requests of a connection, dispatched one after the other.\<close>

fun serve :: "packages \<Rightarrow> raft_command postcard \<Rightarrow> (nat \<Rightarrow> surroundings) \<Rightarrow> nat \<Rightarrow> request list \<Rightarrow> walr_server \<Rightarrow>
    response list \<times> walr_server" where
  "serve P C io k [] s = ([], s)"
| "serve P C io k (req # reqs) s =
     (let (resp, _, s1) = dispatch P C (io k) req s; (resps, s2) = serve P C io (Suc k) reqs s1 in (resp # resps, s2))"

text \<open>
  What any server of a sequence of requests offers: the answers of a prefix are a prefix of the answers,
  and what every single request keeps, the whole sequence keeps. The property may depend on what is
  known about the requests still to come.
\<close>

locale request_server =
  fixes handle :: "nat \<Rightarrow> 'req \<Rightarrow> 'st \<Rightarrow> 'resp \<times> 'st"
    and run :: "nat \<Rightarrow> 'req list \<Rightarrow> 'st \<Rightarrow> 'resp list \<times> 'st"
  assumes run_Nil: "run k [] s = ([], s)"
    and run_Cons: "run k (req # reqs) s =
      (fst (handle k req s) # fst (run (Suc k) reqs (snd (handle k req s))), snd (run (Suc k) reqs (snd (handle k req s))))"
begin

lemma run_length: "length (fst (run k reqs s)) = length reqs"
  by (induction reqs arbitrary: k s) (simp_all add: run_Nil run_Cons)

lemma run_take: "fst (run k (take m reqs) s) = take m (fst (run k reqs s))"
proof (induction reqs arbitrary: k m s)
  case Nil
  show ?case by (simp add: run_Nil)
next
  case (Cons req reqs)
  then show ?case by (cases m) (simp_all add: run_Nil run_Cons)
qed

lemma run_keeps:
  assumes "\<And>k req reqs s. I k (req # reqs) s \<Longrightarrow> I (Suc k) reqs (snd (handle k req s))"
  shows "I k reqs s \<Longrightarrow> I (k + length reqs) [] (snd (run k reqs s))"
proof (induction reqs arbitrary: k s)
  case Nil
  then show ?case by (simp add: run_Nil)
next
  case (Cons req reqs)
  from Cons.IH [OF assms [OF Cons.prems]] show ?case by (simp add: run_Cons)
qed

end

interpretation tcp: request_server
  "\<lambda>k req s. (fst (dispatch P C (io k) req s), snd (snd (dispatch P C (io k) req s)))" "serve P C io" for P C io
  by unfold_locales (simp_all add: split_beta Let_def)

lemma read_all_Nil [simp]: "read_all X [] = []"
  by (simp add: read_all.simps next_message_def read_message_def read_exact_def)

lemma handle_connection_serves:
  assumes "\<And>j. io_write (io j) = None"
  shows "\<forall>resp \<in> set (fst (serve P C io k (read_all Q s) srv)). sendable R resp \<Longrightarrow>
    handle_connection P C Q R io k s buf out srv =
      (out @ concat (map (sent R) (fst (serve P C io k (read_all Q s) srv))), snd (serve P C io k (read_all Q s) srv))"
proof (induction "length s" arbitrary: k s buf out srv rule: less_induct)
  case less
  obtain r s1 buf1 where b: "read_message_with_buf Q s buf = (r, s1, buf1)" by (metis prod.exhaust)
  with buffer_reuse_safe [of Q s buf] have m: "read_message Q s = (r, s1)" by simp
  show ?case
  proof (cases r)
    case (Inl e)
    with b m show ?thesis by (simp add: handle_connection.simps read_all.simps next_message_def)
  next
    case (Inr req)
    obtain resp rq srv1 where d: "dispatch P C (io k) req srv = (resp, rq, srv1)" by (metis prod.exhaust)
    obtain resps srv2 where v: "serve P C io (Suc k) (read_all Q s1) srv1 = (resps, srv2)" by (metis prod.exhaust)
    from m Inr have ra: "read_all Q s = req # read_all Q s1" by (simp add: read_all.simps [of Q s] next_message_def)
    with d v have sv: "serve P C io k (read_all Q s) srv = (resp # resps, srv2)" by simp
    from less.prems sv have good: "sendable R resp" "\<forall>x \<in> set resps. sendable R x" by simp_all
    from good(1) have w: "write_message R (io_write (io k)) resp out = (Inr (), out @ sent R resp)"
      by (auto simp: assms write_message_def sendable_def sent_def)
    from b Inr have "length s1 < length s" by (metis read_with_buf_shorter)
    from less.hyps [OF this, of "Suc k" srv1 buf1 "out @ sent R resp"] good(2) v b Inr d w sv show ?thesis
      by (simp add: handle_connection.simps [of P C Q R io k s])
  qed
qed

text \<open>
  C19. A client that sends requests on one connection, pipelined or not, gets
  exactly one answer per request and in the order of the requests: reading the bytes the server
  wrote gives the answers of dispatching the requests one after the other, and the server ends in
  that state. If the connection is cut at any byte, the requests that arrived whole are served like
  that and the torn one is not served at all.
\<close>

theorem connection_in_order:
  assumes "\<forall>req \<in> set reqs. sendable Q req" "\<forall>j. io_write (io j) = None"
    and "\<forall>resp \<in> set (fst (serve P C io 0 reqs srv)). sendable R resp"
  shows "\<exists>m \<le> length reqs. length (send_all Q (take m reqs) []) \<le> n \<and>
    (m < length reqs \<longrightarrow> n < length (send_all Q (take (Suc m) reqs) [])) \<and>
    (\<exists>out. handle_connection P C Q R io 0 (take n (send_all Q reqs [])) buf [] srv =
       (out, snd (serve P C io 0 (take m reqs) srv)) \<and> read_all R out = fst (serve P C io 0 (take m reqs) srv))"
proof -
  have se: "send_all Q (take k reqs) [] = concat (map (sent Q) (take k reqs))" for k
    using send_all_eq [of "take k reqs" Q "[]"] assms(1) by (metis append_Nil in_set_takeD)
  obtain m where m: "m \<le> length reqs" "read_all Q (take n (send_all Q reqs [])) = take m reqs"
    "length (send_all Q (take m reqs) []) \<le> n" "m < length reqs \<longrightarrow> n < length (send_all Q (take (Suc m) reqs) [])"
  proof (cases "reqs = []")
    case True
    with se [of 0] that [of 0] show thesis by simp
  next
    case False
    from wire.rd_truncated [OF assms(1) False, of n] se se [of "length reqs"] that show thesis by auto
  qed
  let ?v = "serve P C io 0 (take m reqs) srv"
  from assms(3) have good: "\<forall>resp \<in> set (fst ?v). sendable R resp" by (auto simp: tcp.run_take dest: in_set_takeD)
  from handle_connection_serves [of io P C 0 Q "take n (send_all Q reqs [])" srv R buf "[]"] assms(2) m(2) good
  have "handle_connection P C Q R io 0 (take n (send_all Q reqs [])) buf [] srv = (concat (map (sent R) (fst ?v)), snd ?v)"
    by simp
  moreover from wire.rd_concat [OF good, of "[]"] have "read_all R (concat (map (sent R) (fst ?v))) = fst ?v" by simp
  ultimately show ?thesis using m(1,3,4) by blast
qed

lemma demo_codec_sendable: "c \<in> set cs \<Longrightarrow> length cs < 2 ^ 32 \<Longrightarrow> sendable (demo_codec cs) c"
  using demo_codec_ok [of cs] length_takeWhile_le [of "\<lambda>x. x \<noteq> c" cs] by (simp add: sendable_def demo_codec_def)

definition demo_requests :: "request list" where
  "demo_requests = [ReqPoll ''jobs'' 30 1, ReqPoll ''jobs'' 30 1]"

lemma demo_serve:
  "serve demo_packages (demo_codec []) (\<lambda>_. demo_io) 0 demo_requests demo_server = ([RespRedirect [], RespRedirect []], demo_server)"
proof -
  have "dispatch demo_packages (demo_codec []) demo_io (ReqPoll ''jobs'' 30 1) demo_server = (RespRedirect [], None, demo_server)"
    by (simp add: follower_dispatch redirect_def is_leader_fast_def demo_server_def new_raft_def new_raft_with_limits_def with_threshold_def)
  then show ?thesis by (simp add: demo_requests_def)
qed

theorem connection_in_order_witness:
  "\<exists>out. handle_connection demo_packages (demo_codec []) (demo_codec demo_requests) (demo_codec [RespRedirect []])
     (\<lambda>_. demo_io) 0 (send_all (demo_codec demo_requests) demo_requests []) [] [] demo_server = (out, demo_server) \<and>
   read_all (demo_codec [RespRedirect []]) out = [RespRedirect [], RespRedirect []]"
proof -
  let ?Q = "demo_codec demo_requests" and ?R = "demo_codec [RespRedirect []]"
  have q: "\<forall>req \<in> set demo_requests. sendable ?Q req" by (simp add: demo_codec_sendable demo_requests_def)
  have w: "\<forall>j :: nat. io_write demo_io = None" by (simp add: demo_io_def)
  have r: "\<forall>resp \<in> set (fst (serve demo_packages (demo_codec []) (\<lambda>_. demo_io) 0 demo_requests demo_server)). sendable ?R resp"
    by (simp add: demo_serve demo_codec_sendable)
  obtain m where m: "m \<le> length demo_requests"
    "m < length demo_requests \<longrightarrow> length (send_all ?Q demo_requests []) < length (send_all ?Q (take (Suc m) demo_requests) [])"
    "\<exists>out. handle_connection demo_packages (demo_codec []) ?Q ?R (\<lambda>_. demo_io) 0
        (take (length (send_all ?Q demo_requests [])) (send_all ?Q demo_requests [])) [] [] demo_server =
       (out, snd (serve demo_packages (demo_codec []) (\<lambda>_. demo_io) 0 (take m demo_requests) demo_server)) \<and>
     read_all ?R out = fst (serve demo_packages (demo_codec []) (\<lambda>_. demo_io) 0 (take m demo_requests) demo_server)"
    using connection_in_order [OF q w r, of "length (send_all ?Q demo_requests [])" "[]"] by blast
  have "m = length demo_requests"
  proof (rule ccontr)
    assume "m \<noteq> length demo_requests"
    with m(1) consider "m = 0" | "m = 1" by (fastforce simp: demo_requests_def)
    then show False using m(2)
      by cases (simp_all add: send_all_def write_message_def demo_codec_def frame_of_def demo_requests_def)
  qed
  with m(3) show ?thesis by (simp add: demo_serve)
qed

section \<open>The server as a node\<close>

text \<open>The time at the end of a sequence of requests.\<close>

fun serve_time :: "packages \<Rightarrow> raft_command postcard \<Rightarrow> (nat \<Rightarrow> surroundings) \<Rightarrow> nat \<Rightarrow> u64 \<Rightarrow> request list \<Rightarrow> walr_server \<Rightarrow>
    u64 option" where
  "serve_time P C io k t [] s = Some t"
| "serve_time P C io k t (req # reqs) s =
     (case request_time P (io k) t req s of
        None \<Rightarrow> None
      | Some t1 \<Rightarrow> serve_time P C io (Suc k) t1 reqs (snd (snd (dispatch P C (io k) req s))))"

lemma writer_drain_chan: "chan (writer_drain P d) = []"
proof (induction P d rule: writer_drain.induct)
  case (1 P d)
  then show ?case by (cases "chan d = []") (simp_all add: writer_drain.simps [of P d])
qed

lemma serve_reach:
  assumes "raft_reach P C (t, raft s)" "serve_time P C io k t reqs s = Some t'"
  shows "raft_reach P C (t', raft (snd (serve P C io k reqs s)))"
proof -
  let ?I = "\<lambda>k reqs s. \<exists>t. raft_reach P C (t, raft s) \<and> serve_time P C io k t reqs s = Some t'"
  have "?I (k + length reqs) [] (snd (serve P C io k reqs s))"
    by (rule tcp.run_keeps [where I = ?I]) (use assms in \<open>auto split: option.splits intro: dispatch_reach\<close>)
  then show ?thesis by simp
qed

lemma drain_eq:
  "raft (drain_and_flush P s) = compact_log_snapshot ((raft s)\<lparr>engine := flush_wal P (engine (raft s))\<rparr>)"
  by (simp add: drain_and_flush_def flush_wal_def Let_def)

lemma drain_reach: "raft_reach P C (t, raft s) \<Longrightarrow> raft_reach P C (t, raft (drain_and_flush P s))"
  unfolding drain_eq by (intro raft_next [OF raft_next [OF _ rs_flush] rs_compact])

lemma drain_empties: "chan (disk (engine (raft (drain_and_flush P s)))) = []"
  by (simp add: drain_eq flush_wal_def flush_def writer_drain_chan)

text \<open>
  The server is a refinement of the replication layer: whatever requests
  clients and peers send it, and in whatever order, its node only goes through states that the
  layer can reach by its own steps. So everything proved of reachable nodes and engines, custody,
  the exact count, one vote per term, holds of a running server. The shutdown, which flushes the log and
  compacts, is no exception and leaves nothing queued for the disk.
\<close>

theorem server_refines_node:
  assumes "raft_reach P C (t, raft s)" "serve_time P C io k t reqs s = Some t'" "s' = snd (serve P C io k reqs s)"
  shows "raft_reach P C (t', raft s') \<and> raft_reach P C (t', raft (drain_and_flush P s')) \<and>
    chan (disk (engine (raft (drain_and_flush P s')))) = []"
  using serve_reach [OF assms(1,2)] drain_reach drain_empties assms(3) by simp

theorem server_refines_node_witness:
  "raft_reach demo_packages (demo_codec []) (0, raft (snd (serve demo_packages (demo_codec []) (\<lambda>_. demo_io) 0
     [ReqPoll ''jobs'' 30 1, ReqJoinCluster ''c'', ReqRaftVote 3 ''b'' 0 0] demo_server)))"
proof -
  have "\<not> is_leader_fast (raft demo_server)"
    by (simp add: demo_server_def new_raft_def new_raft_with_limits_def with_threshold_def is_leader_fast_def)
  then have "serve_time demo_packages (demo_codec []) (\<lambda>_. demo_io) 0 0
      [ReqPoll ''jobs'' 30 1, ReqJoinCluster ''c'', ReqRaftVote 3 ''b'' 0 0] demo_server = Some 0"
    by (simp add: request_time_def follower_dispatch)
  from server_refines_node [OF demo_server_reach this refl] show ?thesis by blast
qed

section \<open>The connection limit\<close>

inductive conn_reach :: "nat \<Rightarrow> nat \<times> walr_server \<Rightarrow> bool" for limit where
  conn_start: "conn_reach limit (0, new_raft_with_limits r nid limit em)"
| conn_accept: "conn_reach limit (k, s) \<Longrightarrow> accept_connection s = (True, s') \<Longrightarrow> conn_reach limit (Suc k, s')"
| conn_reject: "conn_reach limit (k, s) \<Longrightarrow> accept_connection s = (False, s') \<Longrightarrow> conn_reach limit (k, s')"
| conn_request: "conn_reach limit (k, s) \<Longrightarrow> dispatch P C io req s = (resp, r, s') \<Longrightarrow> conn_reach limit (k, s')"
| conn_close: "conn_reach limit (Suc k, s) \<Longrightarrow> conn_reach limit (k, close_connection s)"

lemma dispatch_conn_limit: "conn_limit (snd (snd (dispatch P C io req s))) = conn_limit s"
  by (cases req) (simp_all add: dispatch.simps Let_def split: prod.split sum.split option.split)

lemma conn_reach_sum: "conn_reach limit x \<Longrightarrow> fst x + conn_limit (snd x) = limit"
proof (induction rule: conn_reach.induct)
  case (conn_request k s P C io req resp r s')
  with dispatch_conn_limit [of P C io req s] show ?case by simp
qed (auto simp: new_raft_with_limits_def accept_connection_def close_connection_def split: if_splits)

text \<open>A connection is turned away exactly when the limit is reached, and there are never more.\<close>

theorem connection_limit:
  assumes "conn_reach limit (k, s)"
  shows "k \<le> limit \<and> (fst (accept_connection s) \<longleftrightarrow> k < limit)"
  using conn_reach_sum [OF assms] by (auto simp: accept_connection_def)

section \<open>The counters\<close>

definition gauge_ok :: "walr_metrics \<Rightarrow> bool" where
  "gauge_ok m \<longleftrightarrow> in_flight_messages m = messages_polled_total m - messages_acked_total m"

lemma gauge_record [simp]:
  "gauge_ok m \<Longrightarrow> gauge_ok (record_push k m)" "gauge_ok m \<Longrightarrow> gauge_ok (record_ack k m)" "gauge_ok m \<Longrightarrow> gauge_ok (record_poll k m)"
  by (simp_all add: gauge_ok_def record_push_def record_ack_def record_poll_def)

lemma dispatch_gauge: "gauge_ok (metrics s) \<Longrightarrow> gauge_ok (metrics (snd (snd (dispatch P C io req s))))"
  by (cases req) (simp_all add: dispatch.simps Let_def split: prod.split sum.split option.split)

lemma serve_gauge: "gauge_ok (metrics s) \<Longrightarrow> gauge_ok (metrics (snd (serve P C io k reqs s)))"
  using tcp.run_keeps [where I = "\<lambda>_ _ s. gauge_ok (metrics s)"] by (simp add: dispatch_gauge)

text \<open>The gauge of the messages in flight is the number of polled messages minus the number of
  acknowledged ones, whatever becomes of the leases in between: an expired lease is never subtracted.\<close>

theorem gauge_counts_deliveries:
  "m = metrics (snd (serve P C io k reqs (new_raft_with_limits r nid limit em))) \<Longrightarrow>
   in_flight_messages m = messages_polled_total m - messages_acked_total m"
  using serve_gauge [of "new_raft_with_limits r nid limit em" P C io k reqs]
  by (simp add: gauge_ok_def new_raft_with_limits_def metrics_default_def)

end
