(* ===== verification/Cluster_Discovery.thy ===== *)
theory Cluster_Discovery
  imports Tcp_Service
begin

text \<open>
  How a node finds its peers (\<open>cluster/discovery.rs\<close>) and how the server binary puts a node together
  (\<open>main.rs\<close>): the choice of the mode from the environment, the beacons, the name lookups, and the
  node that serves. The environment, the datagrams and the answers of the name service are arguments.
\<close>

section \<open>Parsing\<close>

text \<open>\<open>str::parse\<close> at an unsigned type: an optional plus sign, then decimal digits, within range.\<close>

definition digit :: "char \<Rightarrow> nat option" where
  "digit c = (let n = of_char c in if 48 \<le> n \<and> n \<le> 57 then Some (n - 48) else None)"

fun parse_digits :: "nat \<Rightarrow> string \<Rightarrow> nat option" where
  "parse_digits acc [] = Some acc"
| "parse_digits acc (c # cs) = (case digit c of None \<Rightarrow> None | Some d \<Rightarrow> parse_digits (acc * 10 + d) cs)"

definition parse_uint :: "nat \<Rightarrow> string \<Rightarrow> nat option" where
  "parse_uint bits s =
     (let ds = (case s of c # cs \<Rightarrow> if c = CHR ''+'' then cs else s | [] \<Rightarrow> [])
      in if ds = [] then None
         else (case parse_digits 0 ds of Some n \<Rightarrow> if n < 2 ^ bits then Some n else None | None \<Rightarrow> None))"

definition parse_u16 :: "string \<Rightarrow> u16 option" where
  "parse_u16 s = map_option word_of_nat (parse_uint 16 s)"

definition parse_u64 :: "string \<Rightarrow> u64 option" where
  "parse_u64 s = map_option word_of_nat (parse_uint 64 s)"

text \<open>\<open>str::split\<close> at a character.\<close>

fun split_at :: "char \<Rightarrow> string \<Rightarrow> string \<Rightarrow> string list" where
  "split_at d acc [] = [rev acc]"
| "split_at d acc (c # cs) = (if c = d then rev acc # split_at d [] cs else split_at d (c # acc) cs)"

definition strip_prefix :: "string \<Rightarrow> string \<Rightarrow> string option" where
  "strip_prefix p s = (if take (length p) s = p then Some (drop (length p) s) else None)"

section \<open>Modes\<close>

datatype discovery_mode =
  Broadcast u16
| HeadlessDns string u16 u64
| StaticSeeds "string list"

type_synonym environment = "string \<Rightarrow> string option"

definition from_env :: "environment \<Rightarrow> discovery_mode" where
  "from_env env =
     (case env ''DISCOVERY_HEADLESS_DNS'' of
        Some dns \<Rightarrow>
          let port_var = (case env ''SERVER_PORT'' of Some p \<Rightarrow> Some p | None \<Rightarrow> env ''TCP_PORT'');
              port = (case Option.bind port_var parse_u16 of Some p \<Rightarrow> p | None \<Rightarrow> 50051);
              poll_interval = (case Option.bind (env ''DISCOVERY_POLL_INTERVAL_SEC'') parse_u64 of Some p \<Rightarrow> p | None \<Rightarrow> 3)
          in HeadlessDns dns port poll_interval
      | None \<Rightarrow>
          (case Option.bind (env ''DISCOVERY_BROADCAST_PORT'') parse_u16 of
             Some port \<Rightarrow> Broadcast port
           | None \<Rightarrow>
               let seeds = (case env ''SEEDS'' of
                              Some seeds_str \<Rightarrow> filter (\<lambda>s. s \<noteq> []) (split_at CHR '','' [] seeds_str)
                            | None \<Rightarrow> [])
               in if seeds \<noteq> [] then StaticSeeds seeds else Broadcast 7001))"

section \<open>Beacons\<close>

definition BEACON :: string where
  "BEACON = ''WALRQ_BEACON:''"

definition beacon_msg :: "string \<Rightarrow> bytes" where
  "beacon_msg self_node_id = as_bytes (BEACON @ self_node_id)"

text \<open>The listener reads a datagram into a buffer of 1024 bytes; the rest of a longer one is lost.\<close>

definition on_datagram :: "string \<Rightarrow> bytes \<Rightarrow> raft_node \<Rightarrow> raft_node" where
  "on_datagram self_id datagram n =
     (let buf = take 1024 datagram
      in if valid_utf8 buf then
           (case strip_prefix BEACON (of_bytes buf) of
              Some peer_addr \<Rightarrow> if peer_addr \<noteq> self_id then add_peer peer_addr n else n
            | None \<Rightarrow> n)
         else n)"

text \<open>The start waits for a first peer; a round is what arrives between two looks at the peers.\<close>

fun await_peers :: "string \<Rightarrow> bytes list list \<Rightarrow> raft_node \<Rightarrow> string list \<times> raft_node" where
  "await_peers self_id [] n = ([], n)"
| "await_peers self_id (datagrams # rounds) n =
     (let n1 = fold (on_datagram self_id) datagrams n
      in if peers n1 \<noteq> [] then (peers n1, n1) else await_peers self_id rounds n1)"

definition spawn_broadcast_discovery :: "bool \<Rightarrow> bytes list list \<Rightarrow> string \<Rightarrow> raft_node \<Rightarrow> string list \<times> raft_node" where
  "spawn_broadcast_discovery bound rounds self_node_id n =
     (if \<not> bound then ([], n) else await_peers self_node_id rounds n)"

section \<open>Name lookups\<close>

definition dns_query :: "string \<Rightarrow> u16 \<Rightarrow> string" where
  "dns_query dns_host port = dns_host @ '':'' @ show_nat (unat port)"

definition spawn_headless_dns_discovery :: "(string \<Rightarrow> string list option) \<Rightarrow> string \<Rightarrow> u16 \<Rightarrow> string \<Rightarrow> raft_node \<Rightarrow>
    string list \<times> raft_node" where
  "spawn_headless_dns_discovery lookup_host dns_host port self_node_id n =
     (case lookup_host (dns_query dns_host port) of
        None \<Rightarrow> ([], n)
      | Some addrs \<Rightarrow>
          fold (\<lambda>node_endpoint (found, n).
                  if node_endpoint \<noteq> self_node_id then (found @ [node_endpoint], add_peer node_endpoint n) else (found, n))
            addrs ([], n))"

text \<open>A later lookup, at each tick of the interval.\<close>

definition dns_tick :: "(string \<Rightarrow> string list option) \<Rightarrow> string \<Rightarrow> u16 \<Rightarrow> string \<Rightarrow> raft_node \<Rightarrow> raft_node" where
  "dns_tick lookup_host dns_host port self_id n =
     (case lookup_host (dns_query dns_host port) of
        None \<Rightarrow> n
      | Some addrs \<Rightarrow> fold (\<lambda>node_endpoint n. if node_endpoint \<noteq> self_id then add_peer node_endpoint n else n) addrs n)"

section \<open>Start\<close>

record discovery_io =
  udp_bound :: bool
  udp_rounds :: "bytes list list"
  dns_lookup :: "string \<Rightarrow> string list option"

definition discovery_start :: "discovery_io \<Rightarrow> discovery_mode \<Rightarrow> string \<Rightarrow> raft_node \<Rightarrow> string list \<times> raft_node" where
  "discovery_start io mode self_node_id n =
     (case mode of
        StaticSeeds seeds \<Rightarrow>
          let filtered = filter (\<lambda>s. s \<noteq> self_node_id) seeds in (filtered, fold add_peer filtered n)
      | Broadcast broadcast_port \<Rightarrow> spawn_broadcast_discovery (udp_bound io) (udp_rounds io) self_node_id n
      | HeadlessDns dns_host port poll_interval_sec \<Rightarrow>
          spawn_headless_dns_discovery (dns_lookup io) dns_host port self_node_id n)"

section \<open>The server binary\<close>

definition to_lowercase :: "string \<Rightarrow> string" where
  "to_lowercase = map (\<lambda>c. let n = of_char c in if 65 \<le> n \<and> n \<le> 90 then char_of (n + 32 :: nat) else c)"

definition main_node_id :: "environment \<Rightarrow> string" where
  "main_node_id env = (case env ''NODE_ID'' of Some i \<Rightarrow> i | None \<Rightarrow> ''127.0.0.1:50051'')"

definition main_enable_metrics :: "environment \<Rightarrow> bool" where
  "main_enable_metrics env = (case env ''ENABLE_METRICS'' of Some v \<Rightarrow> v = ''1'' \<or> to_lowercase v = ''true'' | None \<Rightarrow> False)"

text \<open>The server that \<open>main\<close> runs, on the log files of the data directory.\<close>

definition main_server :: "packages \<Rightarrow> environment \<Rightarrow> discovery_io \<Rightarrow> bytes \<Rightarrow> bytes \<Rightarrow> bytes \<Rightarrow> u64 \<Rightarrow> walr_server" where
  "main_server P env io file_a file_b manifest_file base =
     (let node_id = main_node_id env;
          e = engine_open P file_a file_b manifest_file default_options base;
          n = raft_new node_id [] e;
          (_, n1) = discovery_start io (from_env env) node_id n
      in new_raft_with_limits n1 node_id DEFAULT_MAX_CONNECTIONS (main_enable_metrics env))"

section \<open>Numbers\<close>

lemma parse_digits_append: "parse_digits acc (xs @ ys) = Option.bind (parse_digits acc xs) (\<lambda>n. parse_digits n ys)"
  by (induction xs arbitrary: acc) (auto split: option.split)

lemma digit_char: "d < 10 \<Longrightarrow> digit (char_of (48 + d :: nat)) = Some d"
  by (simp add: digit_def of_char_of)

lemma parse_show: "parse_digits 0 (show_nat n) = Some n \<and> show_nat n \<noteq> [] \<and> hd (show_nat n) \<noteq> CHR ''+''"
proof (induction n rule: show_nat.induct)
  case (1 n)
  have plus: "char_of (48 + d :: nat) \<noteq> CHR ''+''" if "d < 10" for d
  proof
    assume "char_of (48 + d :: nat) = CHR ''+''"
    then have "of_char (char_of (48 + d :: nat)) = (of_char CHR ''+'' :: nat)" by (rule arg_cong)
    with that show False by (simp add: of_char_of)
  qed
  show ?case
  proof (cases "n < 10")
    case True
    with plus [of n] show ?thesis by (simp add: show_nat.simps [of n] digit_char)
  next
    case False
    with 1 have "parse_digits 0 (show_nat (n div 10)) = Some (n div 10)" "show_nat (n div 10) \<noteq> []"
      "hd (show_nat (n div 10)) \<noteq> CHR ''+''" by simp_all
    with False show ?thesis by (simp add: show_nat.simps [of n] parse_digits_append digit_char)
  qed
qed

text \<open>A number within range is read back from its text.\<close>

lemma parse_uint_show: "n < 2 ^ bits \<Longrightarrow> parse_uint bits (show_nat n) = Some n"
  using parse_show [of n] by (cases "show_nat n") (auto simp: parse_uint_def Let_def)

section \<open>Peers\<close>

text \<open>Every way of discovery comes down to adding addresses one by one.\<close>

lemma fold_add_peer:
  defines "n' \<equiv> \<lambda>ps n. fold add_peer ps n"
  shows "n' ps n = n\<lparr>peers := peers (n' ps n)\<rparr>" "prefix (peers n) (peers (n' ps n))"
    "set (peers (n' ps n)) = set (peers n) \<union> (set ps - {node_id n})"
    "raft_reach P C (t, n) \<Longrightarrow> raft_reach P C (t, n' ps n)"
proof -
  have "n' ps n = n\<lparr>peers := peers (n' ps n)\<rparr> \<and> prefix (peers n) (peers (n' ps n)) \<and>
      set (peers (n' ps n)) = set (peers n) \<union> (set ps - {node_id n}) \<and>
      (raft_reach P C (t, n) \<longrightarrow> raft_reach P C (t, n' ps n))"
  proof (induction ps arbitrary: n)
    case Nil
    show ?case by (simp add: n'_def)
  next
    case (Cons p ps)
    obtain qs where q: "add_peer p n = n\<lparr>peers := qs\<rparr>" "set qs = set (peers n) \<union> ({p} - {node_id n})" "prefix (peers n) qs"
      by (cases "p \<notin> set (peers n) \<and> p \<noteq> node_id n") (auto simp: add_peer_def intro: that [of "peers n"])
    have "raft_reach P C (t, n) \<longrightarrow> raft_reach P C (t, add_peer p n)" by (auto intro: raft_next rs_add)
    with Cons [of "add_peer p n"] q show ?case
      by (auto simp: n'_def intro: prefix_order.trans)
  qed
  then show "n' ps n = n\<lparr>peers := peers (n' ps n)\<rparr>" "prefix (peers n) (peers (n' ps n))"
    "set (peers (n' ps n)) = set (peers n) \<union> (set ps - {node_id n})"
    "raft_reach P C (t, n) \<Longrightarrow> raft_reach P C (t, n' ps n)" by blast+
qed

text \<open>The address a datagram announces, if it is a beacon.\<close>

definition announced :: "bytes \<Rightarrow> string set" where
  "announced d = (if valid_utf8 (take 1024 d) then set_option (strip_prefix BEACON (of_bytes (take 1024 d))) else {})"

lemma on_datagram_eq: "\<exists>ps. set ps \<subseteq> announced d \<and> on_datagram self_id d n = fold add_peer ps n"
proof (cases "valid_utf8 (take 1024 d)")
  case True
  show ?thesis
  proof (cases "strip_prefix BEACON (of_bytes (take 1024 d))")
    case None
    with True show ?thesis by (intro exI [of _ "[]"]) (simp add: on_datagram_def)
  next
    case (Some p)
    with True show ?thesis
      by (intro exI [of _ "if p \<noteq> self_id then [p] else []"]) (auto simp: on_datagram_def announced_def)
  qed
next
  case False
  then show ?thesis by (intro exI [of _ "[]"]) (simp add: on_datagram_def)
qed

lemma fold_datagrams_eq: "\<exists>ps. set ps \<subseteq> (\<Union>d \<in> set ds. announced d) \<and> fold (on_datagram self_id) ds n = fold add_peer ps n"
proof (induction ds arbitrary: n)
  case Nil
  show ?case by (intro exI [of _ "[]"]) simp
next
  case (Cons d ds)
  obtain ps where ps: "set ps \<subseteq> announced d" "on_datagram self_id d n = fold add_peer ps n" using on_datagram_eq by blast
  obtain qs where "set qs \<subseteq> (\<Union>d \<in> set ds. announced d)" "fold (on_datagram self_id) ds (fold add_peer ps n) = fold add_peer qs (fold add_peer ps n)"
    using Cons by blast
  with ps show ?case by (intro exI [of _ "ps @ qs"]) auto
qed

lemma await_peers_eq:
  "\<exists>ps. set ps \<subseteq> (\<Union>ds \<in> set rounds. \<Union>d \<in> set ds. announced d) \<and> snd (await_peers self_id rounds n) = fold add_peer ps n \<and>
     fst (await_peers self_id rounds n) \<in> {[], peers (fold add_peer ps n)}"
proof (induction rounds arbitrary: n)
  case Nil
  show ?case by (intro exI [of _ "[]"]) simp
next
  case (Cons ds rounds)
  let ?A = "\<lambda>rs. \<Union>ds \<in> set rs. \<Union>d \<in> set ds. announced d"
  obtain ps where ps: "set ps \<subseteq> (\<Union>d \<in> set ds. announced d)" "fold (on_datagram self_id) ds n = fold add_peer ps n"
    using fold_datagrams_eq [of ds self_id n] by blast
  then have p: "set ps \<subseteq> ?A (ds # rounds)" by (simp add: le_supI1)
  show ?case
  proof (cases "peers (fold add_peer ps n) = []")
    case True
    from Cons [of "fold add_peer ps n"] obtain qs where qs: "set qs \<subseteq> ?A rounds"
      "snd (await_peers self_id rounds (fold add_peer ps n)) = fold add_peer (ps @ qs) n"
      "fst (await_peers self_id rounds (fold add_peer ps n)) \<in> {[], peers (fold add_peer (ps @ qs) n)}"
      by (metis comp_apply fold_append)
    have "set (ps @ qs) \<subseteq> ?A (ds # rounds)" using p qs(1) by (simp add: le_supI2)
    moreover have "await_peers self_id (ds # rounds) n = await_peers self_id rounds (fold add_peer ps n)"
      using True ps(2) by (simp add: Let_def)
    ultimately show ?thesis using qs(2,3) by (intro exI [of _ "ps @ qs"]) (simp only: simp_thms)
  next
    case False
    then have "await_peers self_id (ds # rounds) n = (peers (fold add_peer ps n), fold add_peer ps n)"
      using ps(2) by (simp add: Let_def)
    with p show ?thesis by (intro exI [of _ ps]) (simp only: fst_conv snd_conv insert_iff simp_thms)
  qed
qed

lemma dns_fold_eq:
  "fold (\<lambda>e (found, n). if e \<noteq> self_id then (found @ [e], add_peer e n) else (found, n)) addrs (found, n) =
     (found @ filter (\<lambda>e. e \<noteq> self_id) addrs, fold add_peer (filter (\<lambda>e. e \<noteq> self_id) addrs) n)"
  by (induction addrs arbitrary: found n) auto

text \<open>The addresses a mode can learn at the start.\<close>

definition candidates :: "discovery_io \<Rightarrow> discovery_mode \<Rightarrow> string set" where
  "candidates io mode =
     (case mode of
        StaticSeeds seeds \<Rightarrow> set seeds
      | HeadlessDns h p _ \<Rightarrow> (case dns_lookup io (dns_query h p) of Some addrs \<Rightarrow> set addrs | None \<Rightarrow> {})
      | Broadcast _ \<Rightarrow> (\<Union>ds \<in> set (udp_rounds io). \<Union>d \<in> set ds. announced d))"

lemma discovery_start_eq:
  assumes "discovery_start io mode self_id n = (found, n')"
  shows "\<exists>ps. set ps \<subseteq> candidates io mode \<and> n' = fold add_peer ps n \<and>
    (set found \<subseteq> set ps - {self_id} \<or> found = peers n') \<and>
    ((\<forall>port. mode \<noteq> Broadcast port) \<longrightarrow> candidates io mode - {self_id} \<subseteq> set ps)"
proof (cases mode)
  case (Broadcast port)
  from await_peers_eq [of "udp_rounds io" self_id n] obtain ps where
    "set ps \<subseteq> candidates io mode" "snd (await_peers self_id (udp_rounds io) n) = fold add_peer ps n"
    "fst (await_peers self_id (udp_rounds io) n) \<in> {[], peers (fold add_peer ps n)}"
    unfolding candidates_def Broadcast by auto
  with assms Broadcast show ?thesis
    by (cases "udp_bound io")
      (auto simp: discovery_start_def spawn_broadcast_discovery_def intro: exI [of _ ps] exI [of _ "[]"])
next
  case (HeadlessDns h p i)
  show ?thesis
  proof (cases "dns_lookup io (dns_query h p)")
    case None
    with HeadlessDns assms show ?thesis
      by (intro exI [of _ "[]"]) (simp add: discovery_start_def spawn_headless_dns_discovery_def candidates_def)
  next
    case (Some addrs)
    with HeadlessDns assms show ?thesis
      by (intro exI [of _ "filter (\<lambda>e. e \<noteq> self_id) addrs"])
        (auto simp: discovery_start_def spawn_headless_dns_discovery_def candidates_def dns_fold_eq)
  qed
next
  case (StaticSeeds seeds)
  with assms show ?thesis
    by (auto simp: discovery_start_def candidates_def Let_def intro!: exI [of _ "filter (\<lambda>s. s \<noteq> self_id) seeds"])
qed

text \<open>
  C28. However a node looks for its peers, and whatever arrives, discovery only adds
  to the list of peers: those known before keep their places, no address is there twice, the node
  itself never is, and every new one was configured, resolved or announced by a beacon. Nothing else
  of the node changes. Configured and resolved addresses are all added, and what
  the start reports are peers.
\<close>

theorem discovery_wellformed:
  assumes "raft_reach P C (t, n)" "discovery_start io mode (node_id n) n = (found, n')"
  shows "raft_reach P C (t, n') \<and> n' = n\<lparr>peers := peers n'\<rparr> \<and> prefix (peers n) (peers n') \<and> distinct (get_peers n') \<and>
    set (peers n') \<subseteq> set (peers n) \<union> candidates io mode \<and> set found \<subseteq> set (peers n') \<and>
    ((\<forall>port. mode \<noteq> Broadcast port) \<longrightarrow> candidates io mode - {node_id n} \<subseteq> set (peers n'))"
proof -
  from discovery_start_eq [OF assms(2)] obtain ps where ps: "set ps \<subseteq> candidates io mode" "n' = fold add_peer ps n"
    "set found \<subseteq> set ps - {node_id n} \<or> found = peers n'"
    "(\<forall>port. mode \<noteq> Broadcast port) \<longrightarrow> candidates io mode - {node_id n} \<subseteq> set ps" by blast
  note f = fold_add_peer [where ps = ps and n = n, folded ps(2)]
  from f(4) [OF assms(1)] have r: "raft_reach P C (t, n')" .
  with raft_reach_ok [OF r] have "distinct (get_peers n')" by (simp add: node_ok_def get_peers_def)
  with r f ps show ?thesis by auto
qed

theorem discovery_wellformed_witness:
  "peers (snd (discovery_start \<lparr>udp_bound = True, udp_rounds = [], dns_lookup = (\<lambda>_. None)\<rparr>
     (StaticSeeds [''b'', ''a'', ''c'', ''b'']) ''a'' (raft demo_server))) = [''b'', ''c''] \<and>
   distinct (get_peers (snd (discovery_start \<lparr>udp_bound = True, udp_rounds = [], dns_lookup = (\<lambda>_. None)\<rparr>
     (StaticSeeds [''b'', ''a'', ''c'', ''b'']) ''a'' (raft demo_server))))"
proof -
  let ?io = "\<lparr>udp_bound = True, udp_rounds = [], dns_lookup = (\<lambda>_. None)\<rparr>" and ?m = "StaticSeeds [''b'', ''a'', ''c'', ''b'']"
  have n: "node_id (raft demo_server) = ''a''"
    by (simp add: demo_server_def new_raft_def new_raft_with_limits_def with_threshold_def)
  obtain found n' where d: "discovery_start ?io ?m ''a'' (raft demo_server) = (found, n')" by (metis prod.exhaust)
  from discovery_wellformed [OF demo_server_reach, of ?io ?m found n'] d n have "distinct (get_peers n')" by simp
  moreover have "peers n' = [''b'', ''c'']" using d
    by (auto simp: discovery_start_def add_peer_def demo_server_def new_raft_def new_raft_with_limits_def with_threshold_def)
  ultimately show ?thesis by (simp add: d)
qed

lemma utf8_ascii:
  "list_all (\<lambda>c. of_char c < (128 :: nat)) s \<Longrightarrow> valid_utf8 (as_bytes (s @ t)) = valid_utf8 (as_bytes t)"
proof (induction s)
  case Nil
  show ?case by simp
next
  case (Cons c s)
  then have "word_of_nat (of_char c) < (0x80 :: u8)" by (simp add: word_less_nat_alt unat_of_nat_lt)
  with Cons show ?case by (simp add: as_bytes_def valid_utf8_ascii)
qed

lemma utf8_beacon: "valid_utf8 (as_bytes (BEACON @ other)) = valid_utf8 (as_bytes other)"
  by (rule utf8_ascii) (simp add: BEACON_def)

text \<open>
  A node that hears the beacon of another adds exactly the address the other
  advertises, and a node that hears its own beacon ignores it, as long as the address fits the
  receive buffer.
\<close>

theorem beacon_heard:
  assumes "valid_utf8 (as_bytes other)" "length other \<le> 1011"
  shows "on_datagram self_id (beacon_msg other) n = (if other = self_id then n else add_peer other n)"
proof -
  have "length (beacon_msg other) \<le> 1024" using assms(2) by (simp add: beacon_msg_def BEACON_def)
  then have "take 1024 (beacon_msg other) = as_bytes (BEACON @ other)" by (simp add: beacon_msg_def)
  with assms(1) show ?thesis by (simp add: on_datagram_def utf8_beacon strip_prefix_def Let_def)
qed

theorem beacon_heard_witness:
  "on_datagram ''10.0.0.1:50051'' (beacon_msg ''10.0.0.2:50051'') (raft demo_server) =
     add_peer ''10.0.0.2:50051'' (raft demo_server)"
proof -
  have "valid_utf8 (as_bytes (''10.0.0.2:50051'' @ []))" by (subst utf8_ascii) (simp_all add: as_bytes_def valid_utf8.simps)
  with beacon_heard [of "''10.0.0.2:50051''" "''10.0.0.1:50051''"] show ?thesis by simp
qed

section \<open>The server at its start\<close>

lemma main_server_reach:
  assumes "distinct (push_keys (snd (disk_log_open P fa fb mf (max_wal_segment_size default_options))))"
  shows "raft_reach P C (0, raft (main_server P env io fa fb mf base))"
proof -
  let ?n = "raft_new (main_node_id env) [] (engine_open P fa fb mf default_options base)"
  have r: "raft_reach P C (0, ?n)"
    unfolding raft_new_def by (rule raft_start [OF reach_open [OF assms]]) simp_all
  obtain found n' where d: "discovery_start io (from_env env) (main_node_id env) ?n = (found, n')" by (metis prod.exhaust)
  from discovery_start_eq [OF d] fold_add_peer(4) [OF r] have "raft_reach P C (0, n')" by blast
  with d show ?thesis by (simp add: main_server_def new_raft_with_limits_def Let_def)
qed

end
