(* ===== verification/Server_Lifecycle.thy ===== *)
theory Server_Lifecycle
  imports Cluster_Discovery
begin

text \<open>
  A running server process: the accept loop (\<open>WalrServer::run\<close> in \<open>server/tcp_service.rs\<close>) and \<open>main\<close> in \<open>main.rs\<close>. The tasks
  of the process, connections, heartbeat and discovery, interleave as a list of events; a connection
  serves one request per turn. The server alone is a transition system, \<open>system_step\<close>, that the process refines.
\<close>

section \<open>The server as a transition system\<close>

text \<open>Everything that happens to a server after \<open>main\<close> has started it: requests of clients and peers, the
  election loop, beacons and lookups, connections, and the shutdown.\<close>

inductive system_step :: "packages \<Rightarrow> raft_command postcard \<Rightarrow> u64 \<times> walr_server \<Rightarrow> u64 \<times> walr_server \<Rightarrow> bool" for P C where
  sys_request: "request_time P io t req s = Some t' \<Longrightarrow>
    system_step P C (t, s) (t', snd (snd (dispatch P C io req s)))"
| sys_tick: "system_step P C (t, s) (t, s\<lparr>raft := election_tick P clock net (raft s)\<rparr>)"
| sys_datagram: "system_step P C (t, s) (t, s\<lparr>raft := on_datagram self_id d (raft s)\<rparr>)"
| sys_lookup: "system_step P C (t, s) (t, s\<lparr>raft := dns_tick lookup_host h p self_id (raft s)\<rparr>)"
| sys_accept: "system_step P C (t, s) (t, snd (accept_connection s))"
| sys_close: "system_step P C (t, s) (t, close_connection s)"
| sys_shutdown: "system_step P C (t, s) (t, drain_and_flush P s)"

inductive system_reach :: "packages \<Rightarrow> raft_command postcard \<Rightarrow> u64 \<times> walr_server \<Rightarrow> bool" for P C where
  sys_start: "distinct (push_keys (snd (disk_log_open P fa fb mf (max_wal_segment_size default_options)))) \<Longrightarrow>
    system_reach P C (0, main_server P env io fa fb mf base)"
| sys_next: "system_reach P C x \<Longrightarrow> system_step P C x y \<Longrightarrow> system_reach P C y"

lemma dns_tick_eq: "\<exists>ps. dns_tick lookup_host h p self_id n = fold add_peer ps n"
proof (cases "lookup_host (dns_query h p)")
  case None
  then show ?thesis by (intro exI [of _ "[]"]) (simp add: dns_tick_def)
next
  case (Some addrs)
  have "fold (\<lambda>e n. if e \<noteq> self_id then add_peer e n else n) addrs n = fold add_peer (filter (\<lambda>e. e \<noteq> self_id) addrs) n"
    by (induction addrs arbitrary: n) simp_all
  with Some show ?thesis by (simp add: dns_tick_def) blast
qed

lemma system_node: "system_reach P C x \<Longrightarrow> raft_reach P C (fst x, raft (snd x)) \<and> gauge_ok (metrics (snd x))"
proof (induction rule: system_reach.induct)
  case (sys_start fa fb mf env io base)
  from main_server_reach [OF this] show ?case
    by (auto simp: main_server_def new_raft_with_limits_def metrics_default_def gauge_ok_def Let_def split: prod.split)
next
  case (sys_next x y)
  from sys_next(2) sys_next.IH show ?case
  proof (induction rule: system_step.induct)
    case (sys_request io t req s t')
    then show ?case using dispatch_reach [of P C t s io req t'] dispatch_gauge by simp
  next
    case (sys_tick t s clock net)
    then show ?case by (auto intro: raft_next rs_tick)
  next
    case (sys_datagram t s self_id d)
    obtain ps where "on_datagram self_id d (raft s) = fold add_peer ps (raft s)" using on_datagram_eq by blast
    with sys_datagram fold_add_peer(4) [of P C t "raft s" ps] show ?case by simp
  next
    case (sys_lookup t s lookup_host h p self_id)
    obtain ps where "dns_tick lookup_host h p self_id (raft s) = fold add_peer ps (raft s)" using dns_tick_eq by blast
    with sys_lookup fold_add_peer(4) [of P C t "raft s" ps] show ?case by simp
  next
    case (sys_accept t s)
    then show ?case by (simp add: accept_connection_def)
  next
    case (sys_close t s)
    then show ?case by (simp add: close_connection_def)
  next
    case (sys_shutdown t s)
    from drain_reach [of P C t s] sys_shutdown show ?case by (simp add: drain_and_flush_def Let_def)
  qed
qed

section \<open>Connections\<close>

text \<open>A spawned connection: the bytes still to be read, the read buffer, and the bytes written.\<close>

record conn_task =
  ct_in :: bytes
  ct_buf :: bytes
  ct_out :: bytes

text \<open>One turn of the loop of \<open>handle_connection\<close>: whether the loop goes on.\<close>

definition connection_turn :: "packages \<Rightarrow> raft_command postcard \<Rightarrow> request postcard \<Rightarrow> response postcard \<Rightarrow> surroundings \<Rightarrow>
    conn_task \<Rightarrow> walr_server \<Rightarrow> bool \<times> conn_task \<times> walr_server" where
  "connection_turn P C Q R io c s =
     (case read_message_with_buf Q (ct_in c) (ct_buf c) of
        (Inl _, rest, buf) \<Rightarrow> (False, c\<lparr>ct_in := rest, ct_buf := buf\<rparr>, s)
      | (Inr req, rest, buf) \<Rightarrow>
          let (resp, _, s1) = dispatch P C io req s;
              (written, out) = write_message R (io_write io) resp (ct_out c)
          in (written = Inr (), \<lparr>ct_in = rest, ct_buf = buf, ct_out = out\<rparr>, s1))"

section \<open>The process\<close>

text \<open>The connections of a process by the order of their arrival; \<open>None\<close> is one that has ended.\<close>

record process =
  pr_server :: walr_server
  pr_tasks :: "conn_task option list"

datatype process_event =
  Incoming bytes
| AcceptError
| ConnectionTurn nat surroundings
| HeartbeatTick "nat \<Rightarrow> u64" "string \<Rightarrow> exchange \<times> exchange"
| Datagram bytes
| LookupTick "string \<Rightarrow> string list option"
| ShutdownSignal

text \<open>A connection that is accepted takes a permit, which is given back when its task ends.\<close>

definition on_incoming :: "bytes \<Rightarrow> process \<Rightarrow> process" where
  "on_incoming input p =
     (let (permit, s) = accept_connection (pr_server p)
      in if permit then \<lparr>pr_server = s, pr_tasks = pr_tasks p @ [Some \<lparr>ct_in = input, ct_buf = [], ct_out = []\<rparr>]\<rparr>
         else p\<lparr>pr_server := s\<rparr>)"

definition task_at :: "nat \<Rightarrow> process \<Rightarrow> conn_task option" where
  "task_at k p = (if k < length (pr_tasks p) then pr_tasks p ! k else None)"

definition on_turn :: "packages \<Rightarrow> raft_command postcard \<Rightarrow> request postcard \<Rightarrow> response postcard \<Rightarrow> nat \<Rightarrow> surroundings \<Rightarrow>
    process \<Rightarrow> process" where
  "on_turn P C Q R k io p =
     (case task_at k p of
        None \<Rightarrow> p
      | Some c \<Rightarrow>
          let (go_on, c1, s1) = connection_turn P C Q R io c (pr_server p)
          in if go_on then \<lparr>pr_server = s1, pr_tasks = (pr_tasks p)[k := Some c1]\<rparr>
             else \<lparr>pr_server = close_connection s1, pr_tasks = (pr_tasks p)[k := None]\<rparr>)"

definition on_node :: "(raft_node \<Rightarrow> raft_node) \<Rightarrow> process \<Rightarrow> process" where
  "on_node f p = p\<lparr>pr_server := (pr_server p)\<lparr>raft := f (raft (pr_server p))\<rparr>\<rparr>"

text \<open>Datagrams and lookups reach the node in the mode that listens for them.\<close>

fun process_step :: "packages \<Rightarrow> raft_command postcard \<Rightarrow> request postcard \<Rightarrow> response postcard \<Rightarrow> discovery_mode \<Rightarrow> bool \<Rightarrow> string \<Rightarrow>
    process_event \<Rightarrow> process \<Rightarrow> process" where
  "process_step P C Q R mode bound self_id (Incoming input) p = on_incoming input p"
| "process_step P C Q R mode bound self_id AcceptError p = p"
| "process_step P C Q R mode bound self_id (ConnectionTurn k io) p = on_turn P C Q R k io p"
| "process_step P C Q R mode bound self_id (HeartbeatTick clock net) p = on_node (election_tick P clock net) p"
| "process_step P C Q R mode bound self_id (Datagram d) p =
     (case mode of Broadcast _ \<Rightarrow> if bound then on_node (on_datagram self_id d) p else p | _ \<Rightarrow> p)"
| "process_step P C Q R mode bound self_id (LookupTick lookup_host) p =
     (case mode of HeadlessDns dns_host port _ \<Rightarrow> on_node (dns_tick lookup_host dns_host port self_id) p | _ \<Rightarrow> p)"
| "process_step P C Q R mode bound self_id ShutdownSignal p = p\<lparr>pr_server := drain_and_flush P (pr_server p)\<rparr>"

text \<open>The accept loop with the other tasks of the process around it: whether it has ended, and the process then.\<close>

fun run :: "packages \<Rightarrow> raft_command postcard \<Rightarrow> request postcard \<Rightarrow> response postcard \<Rightarrow> discovery_mode \<Rightarrow> bool \<Rightarrow> string \<Rightarrow>
    process_event list \<Rightarrow> process \<Rightarrow> bool \<times> process" where
  "run P C Q R mode bound self_id [] p = (False, p)"
| "run P C Q R mode bound self_id (ev # evs) p =
     (let p1 = process_step P C Q R mode bound self_id ev p
      in case ev of ShutdownSignal \<Rightarrow> (True, p1) | _ \<Rightarrow> run P C Q R mode bound self_id evs p1)"

datatype main_error = OpenFailed | BindFailed string

definition main_server_addr :: "environment \<Rightarrow> string" where
  "main_server_addr env = (case env ''SERVER_ADDR'' of Some a \<Rightarrow> a | None \<Rightarrow> main_node_id env)"

text \<open>\<open>opened\<close> and \<open>listening\<close> tell whether the data directory and the address could be opened.\<close>

definition main :: "packages \<Rightarrow> raft_command postcard \<Rightarrow> request postcard \<Rightarrow> response postcard \<Rightarrow> environment \<Rightarrow> discovery_io \<Rightarrow>
    bool \<Rightarrow> bool \<Rightarrow> bytes \<Rightarrow> bytes \<Rightarrow> bytes \<Rightarrow> u64 \<Rightarrow> process_event list \<Rightarrow> main_error + bool \<times> process" where
  "main P C Q R env io opened listening file_a file_b manifest_file base evs =
     (if \<not> opened then Inl OpenFailed
      else
        let server = main_server P env io file_a file_b manifest_file base
        in if \<not> listening then Inl (BindFailed (main_server_addr env))
           else Inr (run P C Q R (from_env env) (udp_bound io) (main_node_id env) evs \<lparr>pr_server = server, pr_tasks = []\<rparr>))"

section \<open>The process keeps to the transition system\<close>

text \<open>The loop of a connection is the repetition of its turn.\<close>

lemma handle_connection_turns:
  "handle_connection P C Q R io k (ct_in c) (ct_buf c) (ct_out c) s =
     (let (go_on, c1, s1) = connection_turn P C Q R (io k) c s
      in if go_on then handle_connection P C Q R io (Suc k) (ct_in c1) (ct_buf c1) (ct_out c1) s1 else (ct_out c1, s1))"
  by (simp add: handle_connection.simps [of P C Q R io k "ct_in c"] connection_turn_def Let_def split: prod.split sum.split)

text \<open>The time after an event: a turn that serves a poll moves it.\<close>

fun event_time :: "packages \<Rightarrow> request postcard \<Rightarrow> process_event \<Rightarrow> u64 \<Rightarrow> process \<Rightarrow> u64 option" where
  "event_time P Q (ConnectionTurn k io) t p =
     (case task_at k p of
        None \<Rightarrow> Some t
      | Some c \<Rightarrow>
          (case fst (read_message_with_buf Q (ct_in c) (ct_buf c)) of
             Inl _ \<Rightarrow> Some t
           | Inr req \<Rightarrow> request_time P io t req (pr_server p)))"
| "event_time P Q _ t p = Some t"

fun run_time :: "packages \<Rightarrow> raft_command postcard \<Rightarrow> request postcard \<Rightarrow> response postcard \<Rightarrow> discovery_mode \<Rightarrow> bool \<Rightarrow> string \<Rightarrow>
    u64 \<Rightarrow> process_event list \<Rightarrow> process \<Rightarrow> u64 option" where
  "run_time P C Q R mode bound self_id t [] p = Some t"
| "run_time P C Q R mode bound self_id t (ev # evs) p =
     (case event_time P Q ev t p of
        None \<Rightarrow> None
      | Some t1 \<Rightarrow>
          (case ev of
             ShutdownSignal \<Rightarrow> Some t1
           | _ \<Rightarrow> run_time P C Q R mode bound self_id t1 evs (process_step P C Q R mode bound self_id ev p)))"

definition live_tasks :: "process \<Rightarrow> nat" where
  "live_tasks p = length (filter (\<lambda>c. c \<noteq> None) (pr_tasks p))"

lemma live_update:
  assumes "k < length xs"
  shows "length (filter f (xs[k := y])) + (if f (xs ! k) then 1 else 0) = length (filter f xs) + (if f y then 1 else 0)"
proof -
  have "filter f xs = filter f (take k xs @ xs ! k # drop (Suc k) xs)" by (metis id_take_nth_drop [OF assms])
  then show ?thesis by (simp add: upd_conv_take_nth_drop [OF assms])
qed

lemma turn_server:
  assumes "connection_turn P C Q R io c s = (go_on, c1, s1)"
  shows "conn_limit s1 = conn_limit s"
    "fst (read_message_with_buf Q (ct_in c) (ct_buf c)) = Inl e \<Longrightarrow> s1 = s"
    "fst (read_message_with_buf Q (ct_in c) (ct_buf c)) = Inr req \<Longrightarrow> s1 = snd (snd (dispatch P C io req s))"
  using assms dispatch_conn_limit [of P C io _ s]
  by (auto simp: connection_turn_def Let_def split: prod.splits sum.splits) (metis snd_conv)+

lemma on_turn_reach:
  assumes "system_reach P C (t, pr_server p)" "event_time P Q (ConnectionTurn k io) t p = Some t'"
  shows "system_reach P C (t', pr_server (on_turn P C Q R k io p))"
proof (cases "task_at k p")
  case None
  with assms show ?thesis by (simp add: on_turn_def)
next
  case (Some c)
  obtain go_on c1 s1 where t: "connection_turn P C Q R io c (pr_server p) = (go_on, c1, s1)" by (metis prod.exhaust)
  have "system_reach P C (t', s1)"
  proof (cases "fst (read_message_with_buf Q (ct_in c) (ct_buf c))")
    case (Inl e)
    with assms Some turn_server(2) [OF t Inl] show ?thesis by simp
  next
    case (Inr req)
    with assms Some have "request_time P io t req (pr_server p) = Some t'" by simp
    from sys_next [OF assms(1) sys_request [OF this]] turn_server(3) [OF t Inr] show ?thesis by simp
  qed
  with t Some sys_next [OF this sys_close] show ?thesis by (simp add: on_turn_def)
qed

lemma process_step_reach:
  assumes "system_reach P C (t, pr_server p)" "event_time P Q ev t p = Some t'"
  shows "system_reach P C (t', pr_server (process_step P C Q R mode bound self_id ev p))"
proof (cases ev)
  case (Incoming input)
  from sys_next [OF assms(1) sys_accept] assms Incoming show ?thesis by (simp add: on_incoming_def split_beta)
next
  case (ConnectionTurn k io)
  with on_turn_reach assms show ?thesis by simp
next
  case (HeartbeatTick clock net)
  with assms sys_next [OF assms(1) sys_tick] show ?thesis by (simp add: on_node_def)
next
  case (Datagram d)
  with assms sys_next [OF assms(1) sys_datagram] show ?thesis by (auto simp: on_node_def split: discovery_mode.split)
next
  case (LookupTick l)
  with assms sys_next [OF assms(1) sys_lookup] show ?thesis by (auto simp: on_node_def split: discovery_mode.split)
next
  case ShutdownSignal
  with assms sys_next [OF assms(1) sys_shutdown] show ?thesis by simp
qed (use assms in simp)

lemma process_step_permits:
  "live_tasks (process_step P C Q R mode bound self_id ev p) + conn_limit (pr_server (process_step P C Q R mode bound self_id ev p)) =
   live_tasks p + conn_limit (pr_server p)"
proof (cases ev)
  case (ConnectionTurn k io)
  show ?thesis
  proof (cases "task_at k p")
    case None
    with ConnectionTurn show ?thesis by (simp add: on_turn_def)
  next
    case (Some c)
    obtain go_on c1 s1 where t: "connection_turn P C Q R io c (pr_server p) = (go_on, c1, s1)" by (metis prod.exhaust)
    from Some have k: "k < length (pr_tasks p)" "pr_tasks p ! k = Some c" by (auto simp: task_at_def split: if_splits)
    note u = live_update [OF k(1), of "\<lambda>c. c \<noteq> None"]
    from u [of "Some c1"] u [of None] k(2) t turn_server(1) [OF t] Some ConnectionTurn show ?thesis
      by (auto simp: on_turn_def live_tasks_def close_connection_def)
  qed
qed (auto simp: on_incoming_def accept_connection_def on_node_def live_tasks_def drain_and_flush_def Let_def split: discovery_mode.split)

lemma run_Cons:
  "run P C Q R mode bound self_id (ShutdownSignal # evs) p = (True, p\<lparr>pr_server := drain_and_flush P (pr_server p)\<rparr>)"
  "ev \<noteq> ShutdownSignal \<Longrightarrow>
     run P C Q R mode bound self_id (ev # evs) p = run P C Q R mode bound self_id evs (process_step P C Q R mode bound self_id ev p)"
  by (simp, cases ev) (simp_all add: Let_def)

lemma run_permits:
  "live_tasks (snd (run P C Q R mode bound self_id evs p)) + conn_limit (pr_server (snd (run P C Q R mode bound self_id evs p))) =
     live_tasks p + conn_limit (pr_server p)"
proof (induction evs arbitrary: p)
  case (Cons ev evs)
  have step: "live_tasks (process_step P C Q R mode bound self_id ev p) + conn_limit (pr_server (process_step P C Q R mode bound self_id ev p)) =
      live_tasks p + conn_limit (pr_server p)" by (rule process_step_permits)
  show ?case
  proof (cases "ev = ShutdownSignal")
    case True
    with step show ?thesis by (simp add: run_Cons del: run.simps)
  next
    case False
    show ?thesis unfolding run_Cons(2) [OF False] Cons.IH by (rule step)
  qed
qed simp

lemma run_ends:
  "fst (run P C Q R mode bound self_id evs p) \<longleftrightarrow> ShutdownSignal \<in> set evs"
  "fst (run P C Q R mode bound self_id evs p) \<Longrightarrow>
     chan (disk (engine (raft (pr_server (snd (run P C Q R mode bound self_id evs p)))))) = []"
proof (induction evs arbitrary: p)
  case (Cons ev evs)
  case 1
  show ?case using Cons.IH(1) by (cases "ev = ShutdownSignal") (auto simp: run_Cons simp del: run.simps)
  case 2
  then show ?case using Cons.IH(2) by (cases "ev = ShutdownSignal") (auto simp: run_Cons drain_empties simp del: run.simps)
qed simp_all

lemma run_reach:
  assumes "run_time P C Q R mode bound self_id t evs p = Some t'" "system_reach P C (t, pr_server p)"
  shows "system_reach P C (t', pr_server (snd (run P C Q R mode bound self_id evs p)))"
  using assms
proof (induction evs arbitrary: t p)
  case (Cons ev evs)
  let ?p = "process_step P C Q R mode bound self_id ev p"
  from Cons.prems(1) obtain t1 where t1: "event_time P Q ev t p = Some t1" by (auto split: option.splits)
  from process_step_reach [OF Cons.prems(2) t1] have r: "system_reach P C (t1, pr_server ?p)" .
  show ?case
  proof (cases "ev = ShutdownSignal")
    case True
    with Cons.prems(1) t1 r show ?thesis by (simp add: run_Cons del: run.simps)
  next
    case False
    have "run_time P C Q R mode bound self_id t1 evs ?p = Some t'"
      using Cons.prems(1) t1 False by (cases ev) (simp_all del: process_step.simps event_time.simps)
    from Cons.IH [OF this r] show ?thesis unfolding run_Cons(2) [OF False] .
  qed
qed simp


lemma follower_event_time:
  assumes "\<not> is_leader_fast (raft (pr_server p))"
  shows "event_time P Q ev t p = Some t"
proof (cases ev)
  case (ConnectionTurn k io)
  with assms show ?thesis
    by (auto simp: request_time_def Let_def split: option.split sum.split request.split)
qed simp_all


text \<open>The shutdown does not wait for connections: a request that has arrived on an accepted connection
  before the signal is still unread when the process ends.\<close>

theorem shutdown_cuts_connections:
  assumes "0 < conn_limit (pr_server p)"
  shows "\<exists>p'. run P C Q R mode bound self_id [Incoming input, ShutdownSignal] p = (True, p') \<and>
    pr_tasks p' = pr_tasks p @ [Some \<lparr>ct_in = input, ct_buf = [], ct_out = []\<rparr>]"
  using assms by (simp add: on_incoming_def accept_connection_def)

end
