(* ===== verification/Walr_Client.thy ===== *)
theory Walr_Client
  imports Queue_Engine Wire_Protocol
begin

text \<open>
  The client (\<open>walrq-client/src/lib.rs\<close>): the payload framing, the routing of a request with
  redirects and retries, the calls of the interface, and the worker that buffers pushes into
  batches. The network is a parameter, one answer per attempt. The retry loop is a partial function,
  since with the largest possible retry count it need not end.
\<close>

section \<open>State\<close>

datatype client_error =
  CIo
| CPostcard string
| CServerError string
| CUnavailable
| CInvalidTarget string
| CChannelClosed

record client_config =
  buffer_window_ms :: u64
  max_batch_size :: usize
  max_redirects :: usize

definition client_config_default :: client_config where
  "client_config_default = \<lparr>buffer_window_ms = 300, max_batch_size = 500, max_redirects = 10\<rparr>"

text \<open>A pooled connection is known by a number.\<close>

record client_inner =
  seed_nodes :: "string list"
  routes :: "(string, string) hmap"
  connections :: "(string, nat list) hmap"
  config :: client_config
  conn_counter :: usize

definition client_new :: "string list \<Rightarrow> client_config \<Rightarrow> client_inner" where
  "client_new seeds cfg = \<lparr>seed_nodes = seeds, routes = [], connections = [], config = cfg, conn_counter = 0\<rparr>"

definition update_seeds :: "string list \<Rightarrow> client_inner \<Rightarrow> client_inner" where
  "update_seeds seeds c = c\<lparr>seed_nodes := seeds\<rparr>"

section \<open>Payloads\<close>

definition compress_wire_payload :: "packages \<Rightarrow> bytes \<Rightarrow> bytes" where
  "compress_wire_payload P payload =
     (if length payload > 1024 then
        (case zstd_encode_all P payload of
           Some packed \<Rightarrow> if length packed + 1 < length payload then 0x01 # packed else 0x00 # payload
         | None \<Rightarrow> 0x00 # payload)
      else 0x00 # payload)"

definition decompress_wire_payload :: "packages \<Rightarrow> bytes \<Rightarrow> bytes" where
  "decompress_wire_payload P raw =
     (case raw of
        [] \<Rightarrow> raw
      | tag # rest \<Rightarrow>
          if tag = 0x01 then (case zstd_decode_all P rest of Some decomp \<Rightarrow> decomp | None \<Rightarrow> rest) else rest)"

section \<open>Routing\<close>

definition client_hash :: "string \<Rightarrow> u64" where
  "client_hash queue = fnv1a (as_bytes queue) 0xcbf29ce484222325"

definition resolve_initial_target :: "string \<Rightarrow> client_inner \<Rightarrow> client_error + string" where
  "resolve_initial_target queue c =
     (case hm_get (routes c) queue of
        Some target \<Rightarrow> Inr target
      | None \<Rightarrow>
          if seed_nodes c = [] then Inl CUnavailable
          else Inr (seed_nodes c ! (unat (client_hash queue) mod length (seed_nodes c))))"

definition update_route :: "string \<Rightarrow> string \<Rightarrow> client_inner \<Rightarrow> client_inner" where
  "update_route queue target c = c\<lparr>routes := hm_insert queue target (routes c)\<rparr>"

definition invalidate_route :: "string \<Rightarrow> string \<Rightarrow> client_inner \<Rightarrow> client_inner" where
  "invalidate_route queue target c =
     (case hm_get (routes c) queue of
        Some current \<Rightarrow> if current = target then c\<lparr>routes := hm_remove queue (routes c)\<rparr> else c
      | None \<Rightarrow> c)"

definition POOL_SIZE_PER_HOST :: nat where
  "POOL_SIZE_PER_HOST = 4"

definition next_pooled :: "nat list \<Rightarrow> client_inner \<Rightarrow> (client_error + nat) \<times> client_inner" where
  "next_pooled pool c = (Inr (pool ! (unat (conn_counter c) mod length pool)), c\<lparr>conn_counter := conn_counter c + 1\<rparr>)"

text \<open>\<open>opened\<close> is the connection that \<open>TcpStream::connect\<close> opens, if it does.\<close>

definition get_connection :: "nat option \<Rightarrow> string \<Rightarrow> client_inner \<Rightarrow> (client_error + nat) \<times> client_inner" where
  "get_connection opened target c =
     (case hm_get (connections c) target of
        Some (h # hs) \<Rightarrow> next_pooled (h # hs) c
      | _ \<Rightarrow>
          let pool = (case hm_get (connections c) target of Some p \<Rightarrow> p | None \<Rightarrow> []);
              c1 = c\<lparr>connections := hm_insert target pool (connections c)\<rparr>
          in if length pool < POOL_SIZE_PER_HOST then
               (case opened of
                  None \<Rightarrow> (Inl CIo, c1)
                | Some h \<Rightarrow> (Inr h, c1\<lparr>connections := hm_insert target (pool @ [h]) (connections c1)\<rparr>))
             else next_pooled pool c1)"

definition remove_connection :: "string \<Rightarrow> client_inner \<Rightarrow> client_inner" where
  "remove_connection target c = c\<lparr>connections := hm_remove target (connections c)\<rparr>"

text \<open>What the network does in one attempt: the connection it opens when one is needed, whether the
  request is written, and what is read back.\<close>

record attempt =
  at_connect :: "nat option"
  at_write :: bool
  at_reply :: "codec_error + response"

type_synonym network = "nat \<Rightarrow> string \<Rightarrow> request \<Rightarrow> attempt"

definition forget_target :: "string \<Rightarrow> string \<Rightarrow> client_inner \<Rightarrow> client_inner" where
  "forget_target queue target c = remove_connection target (invalidate_route queue target c)"

partial_function (option) send_attempts :: "network \<Rightarrow> string \<Rightarrow> request \<Rightarrow> nat \<Rightarrow> string \<Rightarrow> usize \<Rightarrow> client_inner \<Rightarrow>
    ((client_error + response) \<times> client_inner) option" where
  "send_attempts net queue req k target attempts c =
     (if \<not> attempts \<le> max_redirects (config c) then Some (Inl CUnavailable, c)
      else
        (case get_connection (at_connect (net k target req)) target c of
           (Inl _, c1) \<Rightarrow>
             let c2 = forget_target queue target c1
             in (case find (\<lambda>s. s \<noteq> target) (seed_nodes c2) of
                   Some next_seed \<Rightarrow> send_attempts net queue req (Suc k) next_seed (attempts + 1) c2
                 | None \<Rightarrow> Some (Inl CUnavailable, c2))
         | (Inr _, c1) \<Rightarrow>
             if \<not> at_write (net k target req)
             then send_attempts net queue req (Suc k) target (attempts + 1) (forget_target queue target c1)
             else
               (case at_reply (net k target req) of
                  Inr resp \<Rightarrow>
                    (case resp of
                       RespRedirect leader \<Rightarrow>
                         send_attempts net queue req (Suc k)
                           (if leader \<noteq> [] then leader
                            else (case find (\<lambda>s. s \<noteq> target) (seed_nodes c1) of Some next_seed \<Rightarrow> next_seed | None \<Rightarrow> target))
                           (attempts + 1) c1
                     | _ \<Rightarrow> Some (Inr resp, update_route queue target c1))
                | Inl _ \<Rightarrow> send_attempts net queue req (Suc k) target (attempts + 1) (forget_target queue target c1))))"

definition send_with_redirect :: "network \<Rightarrow> string \<Rightarrow> request \<Rightarrow> client_inner \<Rightarrow>
    ((client_error + response) \<times> client_inner) option" where
  "send_with_redirect net queue req c =
     (case resolve_initial_target queue c of
        Inl e \<Rightarrow> Some (Inl e, c)
      | Inr target \<Rightarrow> send_attempts net queue req 0 target 0 c)"

section \<open>Calls\<close>

text \<open>The tail the calls share: the answer they expect, a server error, or anything else, which is
  reported with its debug text.\<close>

definition expect :: "(response \<Rightarrow> string) \<Rightarrow> (response \<Rightarrow> 'a option) \<Rightarrow> client_error + response \<Rightarrow> client_error + 'a" where
  "expect debug want res =
     (case res of
        Inl e \<Rightarrow> Inl e
      | Inr resp \<Rightarrow>
          (case want resp of
             Some x \<Rightarrow> Inr x
           | None \<Rightarrow>
               (case resp of
                  RespError message \<Rightarrow> Inl (CServerError message)
                | other \<Rightarrow> Inl (CServerError (''Unexpected response: '' @ debug other)))))"

definition call :: "network \<Rightarrow> (response \<Rightarrow> string) \<Rightarrow> (response \<Rightarrow> 'a option) \<Rightarrow> string \<Rightarrow> request \<Rightarrow> client_inner \<Rightarrow>
    ((client_error + 'a) \<times> client_inner) option" where
  "call net debug want queue req c =
     map_option (\<lambda>(res, c'). (expect debug want res, c')) (send_with_redirect net queue req c)"

text \<open>\<open>new_id\<close> is the text of the id that \<open>Ulid::new\<close> gives.\<close>

definition push_immediate_opt :: "packages \<Rightarrow> network \<Rightarrow> (response \<Rightarrow> string) \<Rightarrow> string \<Rightarrow> string \<Rightarrow> bytes \<Rightarrow> u64 \<Rightarrow>
    string option \<Rightarrow> client_inner \<Rightarrow> ((client_error + string) \<times> client_inner) option" where
  "push_immediate_opt P net debug new_id queue payload delay_seconds message_id =
     call net debug (\<lambda>resp. case resp of RespPush i \<Rightarrow> Some i | _ \<Rightarrow> None) queue
       (ReqPush queue (compress_wire_payload P payload) delay_seconds
          (case message_id of Some i \<Rightarrow> i | None \<Rightarrow> new_id))"

definition push_immediate :: "packages \<Rightarrow> network \<Rightarrow> (response \<Rightarrow> string) \<Rightarrow> string \<Rightarrow> string \<Rightarrow> bytes \<Rightarrow> u64 \<Rightarrow>
    client_inner \<Rightarrow> ((client_error + string) \<times> client_inner) option" where
  "push_immediate P net debug new_id queue payload delay_seconds =
     push_immediate_opt P net debug new_id queue payload delay_seconds None"

definition push_immediate_with_id :: "packages \<Rightarrow> network \<Rightarrow> (response \<Rightarrow> string) \<Rightarrow> string \<Rightarrow> string \<Rightarrow> bytes \<Rightarrow> u64 \<Rightarrow>
    string \<Rightarrow> client_inner \<Rightarrow> ((client_error + string) \<times> client_inner) option" where
  "push_immediate_with_id P net debug new_id queue payload delay_seconds message_id =
     push_immediate_opt P net debug new_id queue payload delay_seconds (Some message_id)"

definition push_batch_internal :: "network \<Rightarrow> (response \<Rightarrow> string) \<Rightarrow> string \<Rightarrow> batch_push_item list \<Rightarrow>
    client_inner \<Rightarrow> ((client_error + string list) \<times> client_inner) option" where
  "push_batch_internal net debug queue items =
     call net debug (\<lambda>resp. case resp of RespPushBatch ids \<Rightarrow> Some ids | _ \<Rightarrow> None) queue (ReqPushBatch queue items)"

definition client_push_batch_with_delay :: "packages \<Rightarrow> network \<Rightarrow> (response \<Rightarrow> string) \<Rightarrow> (nat \<Rightarrow> string) \<Rightarrow> string \<Rightarrow>
    bytes list \<Rightarrow> u64 \<Rightarrow> client_inner \<Rightarrow> ((client_error + string list) \<times> client_inner) option" where
  "client_push_batch_with_delay P net debug new_ids queue payloads delay_seconds =
     push_batch_internal net debug queue
       (map (\<lambda>(k, p). \<lparr>bi_payload = compress_wire_payload P p, bi_delay_seconds = delay_seconds, bi_message_id = new_ids k\<rparr>)
          (enumerate 0 payloads))"

definition client_push_batch :: "packages \<Rightarrow> network \<Rightarrow> (response \<Rightarrow> string) \<Rightarrow> (nat \<Rightarrow> string) \<Rightarrow> string \<Rightarrow>
    bytes list \<Rightarrow> client_inner \<Rightarrow> ((client_error + string list) \<times> client_inner) option" where
  "client_push_batch P net debug new_ids queue payloads =
     push_batch_internal net debug queue
       (map (\<lambda>(k, p). \<lparr>bi_payload = compress_wire_payload P p, bi_delay_seconds = 0, bi_message_id = new_ids k\<rparr>)
          (enumerate 0 payloads))"

definition push_batch_with_ids :: "packages \<Rightarrow> network \<Rightarrow> (response \<Rightarrow> string) \<Rightarrow> (nat \<Rightarrow> string) \<Rightarrow> string \<Rightarrow>
    (bytes \<times> string option) list \<Rightarrow> client_inner \<Rightarrow> ((client_error + string list) \<times> client_inner) option" where
  "push_batch_with_ids P net debug new_ids queue items =
     push_batch_internal net debug queue
       (map (\<lambda>(k, p, i). \<lparr>bi_payload = compress_wire_payload P p, bi_delay_seconds = 0,
                          bi_message_id = (case i of Some x \<Rightarrow> x | None \<Rightarrow> new_ids k)\<rparr>)
          (enumerate 0 items))"

definition client_poll :: "packages \<Rightarrow> network \<Rightarrow> (response \<Rightarrow> string) \<Rightarrow> string \<Rightarrow> u32 \<Rightarrow> u32 \<Rightarrow>
    client_inner \<Rightarrow> ((client_error + message list) \<times> client_inner) option" where
  "client_poll P net debug queue visibility_timeout_sec batch_size =
     call net debug
       (\<lambda>resp. case resp of
          RespPoll ms \<Rightarrow> Some (map (\<lambda>m. m\<lparr>msg_payload := decompress_wire_payload P (msg_payload m)\<rparr>) ms)
        | _ \<Rightarrow> None)
       queue (ReqPoll queue visibility_timeout_sec (if batch_size = 0 then 1 else batch_size))"

definition client_ack :: "network \<Rightarrow> (response \<Rightarrow> string) \<Rightarrow> string \<Rightarrow> string \<Rightarrow> string \<Rightarrow>
    client_inner \<Rightarrow> ((client_error + bool) \<times> client_inner) option" where
  "client_ack net debug queue message_id receipt_handle =
     call net debug (\<lambda>resp. case resp of RespAck success \<Rightarrow> Some success | _ \<Rightarrow> None) queue
       (ReqAck queue message_id receipt_handle)"

definition client_ack_batch_items :: "network \<Rightarrow> (response \<Rightarrow> string) \<Rightarrow> string \<Rightarrow> ack_item list \<Rightarrow>
    client_inner \<Rightarrow> ((client_error + u32) \<times> client_inner) option" where
  "client_ack_batch_items net debug queue items =
     call net debug (\<lambda>resp. case resp of RespAckBatch acked_count \<Rightarrow> Some acked_count | _ \<Rightarrow> None) queue
       (ReqAckBatch queue items)"

definition client_ack_batch :: "network \<Rightarrow> (response \<Rightarrow> string) \<Rightarrow> string \<Rightarrow> (string \<times> string) list \<Rightarrow>
    client_inner \<Rightarrow> ((client_error + u32) \<times> client_inner) option" where
  "client_ack_batch net debug queue items =
     client_ack_batch_items net debug queue
       (map (\<lambda>(message_id, receipt_handle). \<lparr>ai_message_id = message_id, ai_receipt_handle = receipt_handle\<rparr>) items)"

definition get_metrics :: "network \<Rightarrow> (response \<Rightarrow> string) \<Rightarrow> client_inner \<Rightarrow>
    ((client_error + string) \<times> client_inner) option" where
  "get_metrics net debug =
     call net debug (\<lambda>resp. case resp of RespMetrics prometheus_text \<Rightarrow> Some prometheus_text | _ \<Rightarrow> None) [] ReqMetrics"

definition join_cluster :: "network \<Rightarrow> (response \<Rightarrow> string) \<Rightarrow> string \<Rightarrow> client_inner \<Rightarrow>
    ((client_error + string list) \<times> client_inner) option" where
  "join_cluster net debug new_peer_addr =
     call net debug (\<lambda>resp. case resp of RespClusterMembership True members \<Rightarrow> Some members | _ \<Rightarrow> None) []
       (ReqJoinCluster new_peer_addr)"

definition leave_cluster :: "network \<Rightarrow> (response \<Rightarrow> string) \<Rightarrow> string \<Rightarrow> client_inner \<Rightarrow>
    ((client_error + string list) \<times> client_inner) option" where
  "leave_cluster net debug peer_addr =
     call net debug (\<lambda>resp. case resp of RespClusterMembership True members \<Rightarrow> Some members | _ \<Rightarrow> None) []
       (ReqLeaveCluster peer_addr)"

section \<open>Buffered pushes\<close>

text \<open>A buffered push waits under the name of its queue; \<open>bp_tx\<close> is the sender of its answer.\<close>

record buffered_push_item =
  bp_queue :: string
  bp_message_id :: "string option"
  bp_payload :: bytes
  bp_delay_seconds :: u64
  bp_tx :: nat

type_synonym queues_map = "(string, buffered_push_item list) hmap"

definition CLIENT_SHARDS :: nat where
  "CLIENT_SHARDS = 32"

text \<open>The worker that gets a push, and the item it gets.\<close>

definition push_opt :: "string \<Rightarrow> string \<Rightarrow> bytes \<Rightarrow> u64 \<Rightarrow> string option \<Rightarrow> nat \<Rightarrow> nat \<times> buffered_push_item" where
  "push_opt new_id queue payload delay_seconds message_id tx =
     (unat (client_hash queue) mod CLIENT_SHARDS,
      \<lparr>bp_queue = queue, bp_message_id = Some (case message_id of Some i \<Rightarrow> i | None \<Rightarrow> new_id),
       bp_payload = payload, bp_delay_seconds = delay_seconds, bp_tx = tx\<rparr>)"

definition client_push :: "string \<Rightarrow> string \<Rightarrow> bytes \<Rightarrow> u64 \<Rightarrow> nat \<Rightarrow> nat \<times> buffered_push_item" where
  "client_push new_id queue payload delay_seconds = push_opt new_id queue payload delay_seconds None"

definition push_with_id_buffered :: "string \<Rightarrow> string \<Rightarrow> bytes \<Rightarrow> u64 \<Rightarrow> string \<Rightarrow> nat \<Rightarrow> nat \<times> buffered_push_item" where
  "push_with_id_buffered new_id queue payload delay_seconds message_id =
     push_opt new_id queue payload delay_seconds (Some message_id)"

text \<open>The two events of a worker, with the batches each of them hands to \<open>flush_queue_batch\<close>.\<close>

datatype worker_event = Recv buffered_push_item | Tick

definition worker_recv :: "usize \<Rightarrow> buffered_push_item \<Rightarrow> queues_map \<Rightarrow>
    (string \<times> buffered_push_item list) list \<times> queues_map" where
  "worker_recv max_batch item m =
     (let items = (case hm_get m (bp_queue item) of Some l \<Rightarrow> l | None \<Rightarrow> []) @ [item];
          m1 = hm_insert (bp_queue item) items m
      in if length items \<ge> unat max_batch then ([(bp_queue item, items)], hm_remove (bp_queue item) m1) else ([], m1))"

definition worker_tick :: "(string list \<Rightarrow> string list) \<Rightarrow> queues_map \<Rightarrow>
    (string \<times> buffered_push_item list) list \<times> queues_map" where
  "worker_tick order m =
     (filter (\<lambda>(q, items). items \<noteq> [])
        (map (\<lambda>q. (q, case hm_get m q of Some l \<Rightarrow> l | None \<Rightarrow> [])) (order (hm_keys m))), [])"

fun worker_run :: "usize \<Rightarrow> (string list \<Rightarrow> string list) \<Rightarrow> worker_event list \<Rightarrow> queues_map \<Rightarrow>
    (string \<times> buffered_push_item list) list \<times> queues_map" where
  "worker_run max_batch order [] m = ([], m)"
| "worker_run max_batch order (Recv item # evs) m =
     (let (bs, m1) = worker_recv max_batch item m; (bs', m2) = worker_run max_batch order evs m1 in (bs @ bs', m2))"
| "worker_run max_batch order (Tick # evs) m =
     (let (bs, m1) = worker_tick order m; (bs', m2) = worker_run max_batch order evs m1 in (bs @ bs', m2))"

text \<open>Send a batch and answer its senders: the list of the answers sent, by sender.\<close>

definition flush_queue_batch :: "packages \<Rightarrow> network \<Rightarrow> (nat \<Rightarrow> string) \<Rightarrow> string \<Rightarrow> buffered_push_item list \<Rightarrow>
    client_inner \<Rightarrow> ((nat \<times> (client_error + string)) list \<times> client_inner) option" where
  "flush_queue_batch P net new_ids queue items c =
     (let senders = map bp_tx items;
          proto_items = map (\<lambda>(k, i). \<lparr>bi_payload = compress_wire_payload P (bp_payload i),
             bi_delay_seconds = bp_delay_seconds i,
             bi_message_id = (case bp_message_id i of Some x \<Rightarrow> x | None \<Rightarrow> new_ids k)\<rparr>) (enumerate 0 items)
      in map_option (\<lambda>(res, c').
           (case res of
              Inr (RespPushBatch message_ids) \<Rightarrow> map (\<lambda>(tx, i). (tx, Inr i)) (zip senders message_ids)
            | Inr (RespError message) \<Rightarrow> map (\<lambda>tx. (tx, Inl (CServerError message))) senders
            | _ \<Rightarrow> map (\<lambda>tx. (tx, Inl CUnavailable)) senders, c'))
         (send_with_redirect net queue (ReqPushBatch queue proto_items) c))"

section \<open>The whole client\<close>

text \<open>The client is its shared part and one buffer per worker; the clones of a handle share both.\<close>

record walr_client =
  wc_inner :: client_inner
  wc_workers :: "queues_map list"

definition with_config :: "string list \<Rightarrow> client_config \<Rightarrow> walr_client" where
  "with_config seeds cfg = \<lparr>wc_inner = client_new seeds cfg, wc_workers = replicate CLIENT_SHARDS []\<rparr>"

definition walr_client_new :: "string list \<Rightarrow> walr_client" where
  "walr_client_new seeds = with_config seeds client_config_default"

text \<open>A push that a worker receives, and the window of a worker that ends.\<close>

datatype buffer_event =
  PushBuffered string string bytes u64 "string option" nat
| WindowTick nat

fun client_buffer :: "(string list \<Rightarrow> string list) \<Rightarrow> buffer_event \<Rightarrow> walr_client \<Rightarrow>
    (string \<times> buffered_push_item list) list \<times> walr_client" where
  "client_buffer order (PushBuffered new_id queue payload delay_seconds message_id tx) c =
     (let (w, item) = push_opt new_id queue payload delay_seconds message_id tx;
          (bs, m) = worker_recv (max_batch_size (config (wc_inner c))) item (wc_workers c ! w)
      in (bs, c\<lparr>wc_workers := (wc_workers c)[w := m]\<rparr>))"
| "client_buffer order (WindowTick w) c =
     (if w < length (wc_workers c) then
        (let (bs, m) = worker_tick order (wc_workers c ! w) in (bs, c\<lparr>wc_workers := (wc_workers c)[w := m]\<rparr>))
      else ([], c))"

fun client_buffers :: "(string list \<Rightarrow> string list) \<Rightarrow> buffer_event list \<Rightarrow> walr_client \<Rightarrow>
    (string \<times> buffered_push_item list) list \<times> walr_client" where
  "client_buffers order [] c = ([], c)"
| "client_buffers order (ev # evs) c =
     (let (bs, c1) = client_buffer order ev c; (bs', c2) = client_buffers order evs c1 in (bs @ bs', c2))"

end
