(* ===== verification/Walr_Client_Properties.thy ===== *)
theory Walr_Client_Properties
  imports Walr_Client
begin

text \<open>
  What the client guarantees: payloads survive the framing, a request ends within the configured
  number of attempts, one dead node does not hide the leader, and a buffered push is sent exactly once
  in a batch of bounded size. One theorem shows a seed node that is never tried.
\<close>

section \<open>Payloads\<close>

text \<open>The documented behaviour of \<open>zstd\<close>: what was compressed decompresses to the original.\<close>

definition zstd_inverse :: "packages \<Rightarrow> bool" where
  "zstd_inverse P \<longleftrightarrow> (\<forall>b c. zstd_encode_all P b = Some c \<longrightarrow> zstd_decode_all P c = Some b)"

lemma compress_roundtrip: "zstd_inverse P \<Longrightarrow> decompress_wire_payload P (compress_wire_payload P payload) = payload"
  by (auto simp: compress_wire_payload_def decompress_wire_payload_def zstd_inverse_def split: option.split)

lemma compress_length: "length (compress_wire_payload P payload) \<le> Suc (length payload)"
  by (auto simp: compress_wire_payload_def split: option.split)

text \<open>
  C30. A payload the client sends comes back as it was, whether or not it was
  compressed on the way, and framing it costs at most one byte. An uncompressed payload that happens to
  begin with the marker of a compressed one is no exception.
\<close>

theorem payload_roundtrip:
  assumes "zstd_inverse P"
  shows "decompress_wire_payload P (compress_wire_payload P payload) = payload \<and>
    length (compress_wire_payload P payload) \<le> length payload + 1"
  using compress_roundtrip [OF assms] compress_length by simp

definition demo_zstd :: packages where
  "demo_zstd = demo_packages\<lparr>zstd_encode_all := (\<lambda>b. if b = replicate 2000 7 then Some [9] else None),
     zstd_decode_all := (\<lambda>c. if c = [9] then Some (replicate 2000 7) else None)\<rparr>"

lemma demo_zstd_inverse: "zstd_inverse demo_zstd"
  by (simp add: zstd_inverse_def demo_zstd_def)

theorem payload_roundtrip_witness:
  "decompress_wire_payload demo_zstd (compress_wire_payload demo_zstd (replicate 2000 7)) = replicate 2000 7 \<and>
   compress_wire_payload demo_zstd (replicate 2000 7) = [1, 9]"
proof -
  have "compress_wire_payload demo_zstd (replicate 2000 7) = [1, 9]"
    by (simp add: compress_wire_payload_def demo_zstd_def)
  with payload_roundtrip [OF demo_zstd_inverse] show ?thesis by blast
qed

section \<open>What an attempt changes\<close>

lemma forget_target_frame [simp]:
  "seed_nodes (forget_target q t c) = seed_nodes c" "config (forget_target q t c) = config c"
  "connections (forget_target q t c) = hm_remove t (connections c)"
  by (simp_all add: forget_target_def remove_connection_def invalidate_route_def split: option.split)

lemma update_route_frame [simp]:
  "seed_nodes (update_route q t c) = seed_nodes c" "config (update_route q t c) = config c"
  by (simp_all add: update_route_def)

lemma get_connection_frame:
  "seed_nodes (snd (get_connection h t c)) = seed_nodes c" "config (snd (get_connection h t c)) = config c"
  "routes (snd (get_connection h t c)) = routes c"
  by (simp_all add: get_connection_def next_pooled_def Let_def split: option.split list.split)

text \<open>No connection to a host is pooled.\<close>

definition unpooled :: "string \<Rightarrow> client_inner \<Rightarrow> bool" where
  "unpooled t c \<longleftrightarrow> hm_get (connections c) t \<in> {None, Some []}"

lemma get_connection_unpooled:
  assumes "unpooled t c"
  shows "fst (get_connection None t c) = Inl CIo" "unpooled s c \<Longrightarrow> unpooled s (snd (get_connection None t c))"
  using assms by (auto simp: unpooled_def get_connection_def POOL_SIZE_PER_HOST_def Let_def split: if_splits)

lemma get_connection_up: "\<exists>h'. fst (get_connection (Some h) t c) = Inr h'"
  by (simp add: get_connection_def next_pooled_def POOL_SIZE_PER_HOST_def Let_def split: option.split list.split)

lemma forget_unpooled [simp]: "unpooled t (forget_target q t c)" "unpooled s c \<Longrightarrow> unpooled s (forget_target q t c)"
  by (auto simp: unpooled_def)

section \<open>Attempts\<close>

text \<open>One round of the loop: the call ends with a result, or goes on with a target and a state.\<close>

definition try_once :: "attempt \<Rightarrow> string \<Rightarrow> string \<Rightarrow> client_inner \<Rightarrow>
    ((client_error + response) \<times> client_inner) + (string \<times> client_inner)" where
  "try_once a queue target c =
     (case get_connection (at_connect a) target c of
        (Inl _, c1) \<Rightarrow>
          (case find (\<lambda>s. s \<noteq> target) (seed_nodes c) of
             Some next_seed \<Rightarrow> Inr (next_seed, forget_target queue target c1)
           | None \<Rightarrow> Inl (Inl CUnavailable, forget_target queue target c1))
      | (Inr _, c1) \<Rightarrow>
          if \<not> at_write a then Inr (target, forget_target queue target c1)
          else
            (case at_reply a of
               Inr (RespRedirect leader) \<Rightarrow>
                 Inr (if leader \<noteq> [] then leader
                      else (case find (\<lambda>s. s \<noteq> target) (seed_nodes c) of Some next_seed \<Rightarrow> next_seed | None \<Rightarrow> target), c1)
             | Inr resp \<Rightarrow> Inl (Inr resp, update_route queue target c1)
             | Inl _ \<Rightarrow> Inr (target, forget_target queue target c1)))"

lemma send_attempts_once:
  "send_attempts net queue req k target attempts c =
     (if \<not> attempts \<le> max_redirects (config c) then Some (Inl CUnavailable, c)
      else
        (case try_once (net k target req) queue target c of
           Inl r \<Rightarrow> Some r
         | Inr (target', c') \<Rightarrow> send_attempts net queue req (Suc k) target' (attempts + 1) c'))"
proof -
  obtain r c1 where g: "get_connection (at_connect (net k target req)) target c = (r, c1)" by (metis prod.exhaust)
  with get_connection_frame(1) [of "at_connect (net k target req)" target c] have "seed_nodes c1 = seed_nodes c" by simp
  with g show ?thesis
    by (subst send_attempts.simps) (simp add: try_once_def Let_def split: sum.split option.split response.split)
qed

lemma try_once_frame:
  "try_once a q t c = Inr (t', c') \<Longrightarrow> seed_nodes c' = seed_nodes c \<and> config c' = config c"
  "try_once a q t c = Inl (r, c') \<Longrightarrow> r = Inl CUnavailable \<or> (\<exists>resp. r = Inr resp \<and> (\<forall>l. resp \<noteq> RespRedirect l))"
  "try_once a q t c = Inl (r, c') \<Longrightarrow> config c' = config c"
  using get_connection_frame [of "at_connect a" t c]
  by (auto simp: try_once_def split: prod.splits sum.splits option.splits if_splits response.splits)

lemma attempts_left:
  fixes attempts limit :: usize
  assumes "attempts \<le> limit" "limit \<noteq> - 1"
  shows "unat (attempts + 1) = Suc (unat attempts)" "unat attempts \<le> unat limit"
proof -
  from assms have "attempts \<noteq> - 1" using word_order.extremum_unique by auto
  then have "1 + attempts \<noteq> 0" by (metis add.commute add.inverse_unique)
  from unatSuc [OF this] show "unat (attempts + 1) = Suc (unat attempts)" by (simp add: add.commute)
  show "unat attempts \<le> unat limit" using assms(1) by (simp add: word_le_nat_alt)
qed

lemma send_attempts_returns:
  assumes "max_redirects (config c) \<noteq> - 1" "k \<le> unat attempts"
  shows "\<exists>r c'. send_attempts net q req k t attempts c = Some (r, c') \<and> config c' = config c \<and>
    (r = Inl CUnavailable \<or> (\<exists>resp. r = Inr resp \<and> (\<forall>l. resp \<noteq> RespRedirect l))) \<and>
    (\<forall>net'. (\<forall>j \<le> unat (max_redirects (config c)). net' j = net j) \<longrightarrow>
       send_attempts net' q req k t attempts c = Some (r, c'))"
  using assms
proof (induction "Suc (unat (max_redirects (config c))) - unat attempts" arbitrary: k t attempts c rule: less_induct)
  case less
  show ?case
  proof (cases "attempts \<le> max_redirects (config c)")
    case False
    then show ?thesis by (simp add: send_attempts_once [where attempts = attempts])
  next
    case True
    note a = attempts_left [OF True less.prems(1)]
    from a(2) less.prems(2) have k: "k \<le> unat (max_redirects (config c))" by simp
    show ?thesis
    proof (cases "try_once (net k t req) q t c")
      case (Inl x)
      obtain r c' where x: "x = (r, c')" by (metis prod.exhaust)
      from try_once_frame(2,3) [OF Inl [unfolded x]] True Inl x k show ?thesis
        by (auto simp: send_attempts_once [where attempts = attempts])
    next
      case (Inr x)
      obtain t' c' where x: "x = (t', c')" by (metis prod.exhaust)
      with try_once_frame(1) [of "net k t req" q t c t' c'] Inr have cfg: "config c' = config c" by simp
      have "Suc (unat (max_redirects (config c'))) - unat (attempts + 1) < Suc (unat (max_redirects (config c))) - unat attempts"
        using a cfg by simp
      from less.hyps [OF this, of "Suc k" t'] less.prems cfg a(1) obtain r c'' where
        ih: "send_attempts net q req (Suc k) t' (attempts + 1) c' = Some (r, c'')" "config c'' = config c"
          "r = Inl CUnavailable \<or> (\<exists>resp. r = Inr resp \<and> (\<forall>l. resp \<noteq> RespRedirect l))"
          "\<forall>net'. (\<forall>j \<le> unat (max_redirects (config c)). net' j = net j) \<longrightarrow>
             send_attempts net' q req (Suc k) t' (attempts + 1) c' = Some (r, c'')"
        by auto
      from ih True Inr x k show ?thesis
        by (intro exI [of _ r] exI [of _ c'']) (simp add: send_attempts_once [where attempts = attempts])
    qed
  qed
qed

text \<open>
  C22. A request always ends, unless the limit on redirects is the largest number of
  its type: it returns an answer of a server, never a redirect, or reports that the cluster is
  unavailable. It does so within one more attempt than the limit says; what the network would do
  after that has no influence.
\<close>

theorem client_gives_up:
  assumes "max_redirects (config c) \<noteq> - 1"
  shows "\<exists>r c'. send_with_redirect net queue req c = Some (r, c') \<and>
    (r = Inl CUnavailable \<or> (\<exists>resp. r = Inr resp \<and> (\<forall>l. resp \<noteq> RespRedirect l))) \<and>
    (\<forall>net'. (\<forall>k \<le> unat (max_redirects (config c)). net' k = net k) \<longrightarrow>
       send_with_redirect net' queue req c = Some (r, c'))"
proof (cases "resolve_initial_target queue c")
  case (Inl e)
  then have "e = CUnavailable" by (auto simp: resolve_initial_target_def split: option.splits if_splits)
  with Inl show ?thesis by (simp add: send_with_redirect_def)
next
  case (Inr t)
  with send_attempts_returns [OF assms, of 0 0 net queue req t] show ?thesis by (auto simp: send_with_redirect_def)
qed

definition silent :: network where
  "silent _ _ _ = \<lparr>at_connect = Some 1, at_write = True, at_reply = Inl UnexpectedEof\<rparr>"

theorem client_gives_up_witness:
  "\<exists>r c'. send_with_redirect silent ''jobs'' ReqMetrics (client_new [''a'', ''b''] client_config_default) = Some (r, c')"
  using client_gives_up [of "client_new [''a'', ''b''] client_config_default" silent "''jobs''" ReqMetrics]
  by (auto simp: client_new_def client_config_default_def)

section \<open>Finding the leader\<close>

text \<open>A cluster in which every node except one knows the leader and answers, and that one is down: it
  takes no connection, and on an old one nothing comes back.\<close>

definition answers :: "attempt \<Rightarrow> response \<Rightarrow> bool" where
  "answers a resp \<longleftrightarrow> at_connect a \<noteq> None \<and> at_write a \<and> at_reply a = Inr resp"

definition down :: "attempt \<Rightarrow> bool" where
  "down a \<longleftrightarrow> at_connect a = None \<and> (at_write a \<longrightarrow> (\<exists>e. at_reply a = Inl e))"

definition one_dead :: "network \<Rightarrow> request \<Rightarrow> string \<Rightarrow> string \<Rightarrow> response \<Rightarrow> bool" where
  "one_dead net req dead leader resp \<longleftrightarrow>
     (\<forall>k. down (net k dead req) \<and> answers (net k leader req) resp \<and>
        (\<forall>t. t \<noteq> dead \<longrightarrow> t \<noteq> leader \<longrightarrow> answers (net k t req) (RespRedirect leader)))"

lemma try_answers:
  assumes "answers a resp"
  shows "(\<forall>l. resp \<noteq> RespRedirect l) \<Longrightarrow> \<exists>c'. try_once a q t c = Inl (Inr resp, c') \<and> hm_get (routes c') q = Some t"
    and "resp = RespRedirect l \<Longrightarrow> l \<noteq> [] \<Longrightarrow> \<exists>c'. try_once a q t c = Inr (l, c') \<and> config c' = config c"
proof -
  from assms get_connection_up obtain h c1 where g: "get_connection (at_connect a) t c = (Inr h, c1)"
    by (metis answers_def not_Some_eq prod.collapse)
  with get_connection_frame(2) [of "at_connect a" t c] have cfg: "config c1 = config c" by simp
  show "(\<forall>l. resp \<noteq> RespRedirect l) \<Longrightarrow> \<exists>c'. try_once a q t c = Inl (Inr resp, c') \<and> hm_get (routes c') q = Some t"
    using assms g by (cases resp) (simp_all add: try_once_def answers_def update_route_def)
  show "resp = RespRedirect l \<Longrightarrow> l \<noteq> [] \<Longrightarrow> \<exists>c'. try_once a q t c = Inr (l, c') \<and> config c' = config c"
    using assms g cfg by (simp add: try_once_def answers_def)
qed

lemma try_down:
  assumes "down a" "find (\<lambda>s. s \<noteq> t) (seed_nodes c) = Some s"
  shows "\<exists>t' c'. try_once a q t c = Inr (t', c') \<and> config c' = config c \<and> seed_nodes c' = seed_nodes c \<and> unpooled t c' \<and>
    (t' = t \<or> t' = s) \<and> (unpooled t c \<longrightarrow> t' = s)"
proof -
  obtain r c1 where g: "get_connection (at_connect a) t c = (r, c1)" by (metis prod.exhaust)
  with get_connection_frame [of "at_connect a" t c] have f: "seed_nodes c1 = seed_nodes c" "config c1 = config c" by simp_all
  show ?thesis
  proof (cases r)
    case (Inl e)
    with g f assms show ?thesis by (simp add: try_once_def)
  next
    case (Inr h)
    with g get_connection_unpooled(1) [of t c] assms(1) have "\<not> unpooled t c" by (auto simp: down_def)
    with Inr g f assms show ?thesis by (auto simp: try_once_def down_def split: sum.split)
  qed
qed

lemma resolve_some: "seed_nodes c \<noteq> [] \<Longrightarrow> \<exists>t. resolve_initial_target q c = Inr t"
  by (simp add: resolve_initial_target_def split: option.split)

lemma leader_found:
  assumes "one_dead net req dead leader resp" "\<forall>l. resp \<noteq> RespRedirect l" "leader \<noteq> []" "t \<noteq> dead"
    "unat attempts + 1 \<le> unat (max_redirects (config c))"
  shows "\<exists>c'. send_attempts net q req k t attempts c = Some (Inr resp, c') \<and> hm_get (routes c') q = Some leader"
proof -
  have last: "\<exists>c'. send_attempts net q req k leader a c = Some (Inr resp, c') \<and> hm_get (routes c') q = Some leader"
    if "a \<le> max_redirects (config c)" for k a c
    using try_answers(1) [OF _ assms(2), of "net k leader req" q leader c] assms(1) that
    by (auto simp: one_dead_def send_attempts_once [where attempts = a])
  from assms(5) have a: "attempts \<le> max_redirects (config c)" "attempts + 1 \<le> max_redirects (config c)"
    by (simp_all add: word_le_nat_alt unat_word_ariths mod_less unsigned_less)
  show ?thesis
  proof (cases "t = leader")
    case True
    with last a show ?thesis by blast
  next
    case False
    with assms(1,4) have "answers (net k t req) (RespRedirect leader)" by (simp add: one_dead_def)
    from try_answers(2) [OF this refl assms(3), of q t c] obtain c' where
      "try_once (net k t req) q t c = Inr (leader, c')" "config c' = config c" by blast
    with last [of "attempts + 1" c' "Suc k"] a show ?thesis by (simp add: send_attempts_once [where attempts = attempts])
  qed
qed

text \<open>
  C21. One dead node does not keep a client from the leader: if every
  other node redirects to the leader or is it, at least one seed is not the dead node and three redirects
  are allowed, then the request is answered by the leader, even when the cached route, a
  pooled connection or the seed tried first leads to the dead node. The leader is the
  route of the queue afterwards, so that the next request goes straight to it.
\<close>

theorem leader_found_despite_failure:
  assumes net: "one_dead net req dead leader resp" "leader \<noteq> dead" "leader \<noteq> []" "\<forall>l. resp \<noteq> RespRedirect l"
    and seeds: "\<exists>s \<in> set (seed_nodes c). s \<noteq> dead" and limit: "max_redirects (config c) \<ge> 3"
  shows "\<exists>c'. send_with_redirect net queue req c = Some (Inr resp, c') \<and> resolve_initial_target queue c' = Inr leader"
proof -
  let ?n = "unat (max_redirects (config c))"
  have n: "3 \<le> ?n" using limit by (simp add: word_le_nat_alt)
  from seeds obtain s where s: "find (\<lambda>s. s \<noteq> dead) (seed_nodes c) = Some s" "s \<noteq> dead"
    by (cases "find (\<lambda>s. s \<noteq> dead) (seed_nodes c)") (auto simp: find_None_iff find_Some_iff)
  have down: "down (net k dead req)" for k using net(1) by (simp add: one_dead_def)
  note go = leader_found [OF net(1,4,3)]
  have two: "\<exists>c'. send_attempts net queue req k dead a c1 = Some (Inr resp, c') \<and> hm_get (routes c') queue = Some leader"
    if "unpooled dead c1" "seed_nodes c1 = seed_nodes c" "config c1 = config c" "a \<in> {0, 1}" for k a c1
  proof -
    have a: "unat (a + 1) + 1 \<le> ?n" "a \<le> max_redirects (config c)" using n that(4) by (auto simp: word_le_nat_alt)
    from try_down [OF down [of k], where t = dead and c = c1 and s = s and q = queue] s that obtain c2 where
      "try_once (net k dead req) queue dead c1 = Inr (s, c2)" "config c2 = config c" by auto
    with go [OF s(2), of "a + 1" c2 queue "Suc k"] a that show ?thesis
      by (simp add: send_attempts_once [where attempts = a])
  qed
  obtain t where t: "resolve_initial_target queue c = Inr t"
    using seeds resolve_some [of c queue] by fastforce
  have "\<exists>c'. send_attempts net queue req 0 t 0 c = Some (Inr resp, c') \<and> hm_get (routes c') queue = Some leader"
  proof (cases "t = dead")
    case False
    with go [of t 0 c queue 0] n show ?thesis by simp
  next
    case True
    from try_down [OF down [of 0], where t = dead and c = c and s = s and q = queue] s obtain t' c1 where c1:
      "try_once (net 0 dead req) queue dead c = Inr (t', c1)" "config c1 = config c" "seed_nodes c1 = seed_nodes c"
      "unpooled dead c1" "t' = dead \<or> t' = s" by auto
    from c1(5) have "\<exists>c'. send_attempts net queue req (Suc 0) t' 1 c1 = Some (Inr resp, c') \<and> hm_get (routes c') queue = Some leader"
    proof
      assume "t' = dead"
      with two [OF c1(4,3,2), of 1 "Suc 0"] show ?thesis by simp
    next
      assume "t' = s"
      with go [of s 1 c1 queue "Suc 0"] s(2) c1(2) n show ?thesis by simp
    qed
    with c1(1) True show ?thesis by (simp add: send_attempts_once [where attempts = 0])
  qed
  with t show ?thesis by (auto simp: send_with_redirect_def resolve_initial_target_def)
qed

definition demo_net :: network where
  "demo_net _ t _ =
     (if t = ''a'' then \<lparr>at_connect = None, at_write = False, at_reply = Inl UnexpectedEof\<rparr>
      else if t = ''c'' then \<lparr>at_connect = Some 1, at_write = True, at_reply = Inr (RespAck True)\<rparr>
      else \<lparr>at_connect = Some 1, at_write = True, at_reply = Inr (RespRedirect ''c'')\<rparr>)"

theorem leader_found_despite_failure_witness:
  "\<exists>c'. send_with_redirect demo_net ''jobs'' ReqMetrics (client_new [''a'', ''b''] client_config_default) = Some (Inr (RespAck True), c') \<and>
     resolve_initial_target ''jobs'' c' = Inr ''c''"
  by (rule leader_found_despite_failure [where dead = "''a''"])
    (simp_all add: one_dead_def demo_net_def answers_def down_def client_new_def client_config_default_def)

section \<open>Seeds that are never tried\<close>

lemma two_seeds_loop:
  assumes dead: "\<forall>k. at_connect (net k a req) = None \<and> at_connect (net k b req) = None"
    and limit: "max_redirects (config c) \<noteq> - 1" and ab: "a \<noteq> b"
    and state: "seed_nodes c = a # b # others" "unpooled a c" "unpooled b c" and t: "t \<in> {a, b}"
  shows "\<exists>c'. send_attempts net q req k t attempts c = Some (Inl CUnavailable, c')"
  using limit state t
proof (induction "Suc (unat (max_redirects (config c))) - unat attempts" arbitrary: k t attempts c rule: less_induct)
  case less
  show ?case
  proof (cases "attempts \<le> max_redirects (config c)")
    case False
    then show ?thesis by (simp add: send_attempts_once [where attempts = attempts])
  next
    case True
    note al = attempts_left [OF True less.prems(1)]
    obtain r c1 where g: "get_connection None t c = (r, c1)" by (metis prod.exhaust)
    with get_connection_unpooled [of t c] less.prems have c1: "r = Inl CIo" "unpooled a c1" "unpooled b c1" by auto
    from g get_connection_frame [of None t c] less.prems have f: "seed_nodes c1 = a # b # others" "config c1 = config c" by simp_all
    let ?t = "if t = a then b else a"
    from less.prems dead ab g c1 have "try_once (net k t req) q t c = Inr (?t, forget_target q t c1)"
      by (auto simp: try_once_def)
    moreover have "\<exists>c'. send_attempts net q req (Suc k) ?t (attempts + 1) (forget_target q t c1) = Some (Inl CUnavailable, c')"
      by (rule less.hyps) (use al less.prems f c1 in auto)
    ultimately show ?thesis using True by (simp add: send_attempts_once [where attempts = attempts])
  qed
qed

text \<open>
  The fallback of the client only ever alternates between the first two
  seeds: when both refuse connections and the request starts at one of them, the cluster is reported
  unavailable, even if every other seed is up and would answer. The number of retries
  does not help.
\<close>

theorem third_seed_never_tried:
  assumes "\<forall>k. at_connect (net k a req) = None \<and> at_connect (net k b req) = None" "a \<noteq> b"
    and "c = client_new (a # b # others) cfg" "max_redirects cfg \<noteq> - 1"
    and "resolve_initial_target queue c \<in> {Inr a, Inr b}"
  shows "\<exists>c'. send_with_redirect net queue req c = Some (Inl CUnavailable, c')"
proof -
  from assms(5) obtain t where t: "resolve_initial_target queue c = Inr t" "t \<in> {a, b}" by auto
  have "unpooled s c" for s using assms(3) by (simp add: client_new_def unpooled_def)
  with two_seeds_loop [where net = net and req = req and a = a and b = b and t = t and c = c and others = others and q = queue and k = 0 and attempts = 0] assms t show ?thesis
    by (simp add: send_with_redirect_def client_new_def)
qed

text \<open>The hash of the queue name selects the second of three seeds.\<close>

theorem third_seed_never_tried_witness:
  "\<exists>c'. send_with_redirect (\<lambda>_ t _. if t = ''c'' then \<lparr>at_connect = Some 1, at_write = True, at_reply = Inr (RespAck True)\<rparr>
       else \<lparr>at_connect = None, at_write = False, at_reply = Inl UnexpectedEof\<rparr>)
     ''a'' ReqMetrics (client_new [''a'', ''b'', ''c''] client_config_default) = Some (Inl CUnavailable, c')"
proof (rule third_seed_never_tried [OF _ _ refl])
  show "resolve_initial_target ''a'' (client_new [''a'', ''b'', ''c''] client_config_default) \<in> {Inr ''a'', Inr ''b''}"
    by (simp add: resolve_initial_target_def client_new_def client_hash_def as_bytes_def)
qed (simp_all add: client_config_default_def)

section \<open>Buffered pushes\<close>

definition buffered :: "string \<Rightarrow> queues_map \<Rightarrow> buffered_push_item list" where
  "buffered q m = (case hm_get m q of Some l \<Rightarrow> l | None \<Rightarrow> [])"

definition flushed :: "string \<Rightarrow> (string \<times> buffered_push_item list) list \<Rightarrow> buffered_push_item list" where
  "flushed q bs = concat (map snd (filter (\<lambda>b. fst b = q) bs))"

fun received :: "string \<Rightarrow> worker_event list \<Rightarrow> buffered_push_item list" where
  "received q [] = []"
| "received q (Recv i # evs) = (if bp_queue i = q then i # received q evs else received q evs)"
| "received q (Tick # evs) = received q evs"

lemma flushed_simps [simp]:
  "flushed q [] = []" "flushed q (bs @ bs') = flushed q bs @ flushed q bs'"
  "flushed q (b # bs) = (if fst b = q then snd b @ flushed q bs else flushed q bs)"
  by (simp_all add: flushed_def)

text \<open>What waits in the buffer is less than a batch.\<close>

definition buffer_ok :: "usize \<Rightarrow> queues_map \<Rightarrow> bool" where
  "buffer_ok max_batch m \<longleftrightarrow> hm_wf m \<and>
     (\<forall>q l. hm_get m q = Some l \<longrightarrow> l \<noteq> [] \<and> length l < unat max_batch \<and> (\<forall>i \<in> set l. bp_queue i = q))"

definition flush_ok :: "usize \<Rightarrow> string \<times> buffered_push_item list \<Rightarrow> bool" where
  "flush_ok max_batch b \<longleftrightarrow> snd b \<noteq> [] \<and> length (snd b) \<le> max 1 (unat max_batch) \<and> (\<forall>i \<in> set (snd b). bp_queue i = fst b)"

lemma worker_recv_ok:
  assumes ok: "buffer_ok max_batch m" and r: "worker_recv max_batch i m = (bs, m')"
  shows "buffer_ok max_batch m'" "\<forall>b \<in> set bs. flush_ok max_batch b"
    "flushed q bs @ buffered q m' = buffered q m @ (if bp_queue i = q then [i] else [])"
proof -
  let ?l = "buffered (bp_queue i) m"
  have l: "?l = [] \<or> length ?l < unat max_batch" "\<forall>j \<in> set ?l. bp_queue j = bp_queue i"
    using ok by (auto simp: buffer_ok_def buffered_def split: option.split)
  have eq: "worker_recv max_batch i m =
      (if unat max_batch \<le> Suc (length ?l)
       then ([(bp_queue i, ?l @ [i])], hm_remove (bp_queue i) (hm_insert (bp_queue i) (?l @ [i]) m))
       else ([], hm_insert (bp_queue i) (?l @ [i]) m))"
    by (simp add: worker_recv_def buffered_def Let_def)
  have "buffer_ok max_batch m' \<and> (\<forall>b \<in> set bs. flush_ok max_batch b) \<and>
    flushed q bs @ buffered q m' = buffered q m @ (if bp_queue i = q then [i] else [])"
  proof (cases "unat max_batch \<le> Suc (length ?l)")
    case True
    with eq r have e: "bs = [(bp_queue i, ?l @ [i])]" "m' = hm_remove (bp_queue i) (hm_insert (bp_queue i) (?l @ [i]) m)" by simp_all
    from ok have "buffer_ok max_batch m'" by (auto simp: e buffer_ok_def)
    moreover have "flush_ok max_batch (bp_queue i, ?l @ [i])" using l by (auto simp: flush_ok_def)
    ultimately show ?thesis by (auto simp: e buffered_def)
  next
    case False
    with eq r have e: "bs = []" "m' = hm_insert (bp_queue i) (?l @ [i]) m" by simp_all
    from ok l False have "buffer_ok max_batch m'" by (auto simp: e buffer_ok_def split: if_splits)
    then show ?thesis by (auto simp: e buffered_def)
  qed
  then show "buffer_ok max_batch m'" "\<forall>b \<in> set bs. flush_ok max_batch b"
    "flushed q bs @ buffered q m' = buffered q m @ (if bp_queue i = q then [i] else [])" by blast+
qed

lemma flushed_drain:
  "distinct ks \<Longrightarrow> flushed q (filter (\<lambda>(q, items). items \<noteq> []) (map (\<lambda>q. (q, buffered q m)) ks)) =
     (if q \<in> set ks then buffered q m else [])"
  by (induction ks) auto

lemma worker_tick_ok:
  assumes ok: "buffer_ok max_batch m" and r: "worker_tick order m = (bs, m')" and order: "iter_order order"
  shows "m' = []" "\<forall>b \<in> set bs. flush_ok max_batch b" "flushed q bs = buffered q m"
proof -
  have bs: "bs = filter (\<lambda>(q, items). items \<noteq> []) (map (\<lambda>q. (q, buffered q m)) (order (hm_keys m)))"
    using r by (simp add: worker_tick_def buffered_def)
  from iter_orderD [OF order, of "hm_keys m"] ok have d: "distinct (order (hm_keys m))" "set (order (hm_keys m)) = set (hm_keys m)"
    by (simp_all add: buffer_ok_def)
  show "m' = []" using r by (simp add: worker_tick_def)
  show "\<forall>b \<in> set bs. flush_ok max_batch b"
    using ok by (auto simp: bs flush_ok_def buffer_ok_def buffered_def less_imp_le max.coboundedI2 split: option.splits)
  show "flushed q bs = buffered q m"
    using flushed_drain [OF d(1), of q m] d(2) hm_get_None [of m q] by (auto simp: bs buffered_def)
qed

lemma worker_run_ok:
  assumes "iter_order order"
  shows "buffer_ok max_batch m \<Longrightarrow> worker_run max_batch order evs m = (bs, m') \<Longrightarrow>
    (\<forall>b \<in> set bs. flush_ok max_batch b) \<and> flushed q bs @ buffered q m' = buffered q m @ received q evs \<and> buffer_ok max_batch m'"
proof (induction evs arbitrary: m bs)
  case Nil
  then show ?case by simp
next
  case (Cons e evs)
  show ?case
  proof (cases e)
    case (Recv i)
    obtain b1 m1 where s: "worker_recv max_batch i m = (b1, m1)" by (metis prod.exhaust)
    obtain b2 where t: "worker_run max_batch order evs m1 = (b2, m')" "bs = b1 @ b2"
      using Cons.prems(2) Recv s by (auto split: prod.splits)
    note w = worker_recv_ok [OF Cons.prems(1) s]
    from w(3) [where q = q] have "flushed q b1 @ buffered q m1 @ received q evs = buffered q m @ received q (e # evs)"
      using Recv by (simp flip: append_assoc)
    with w(2) Cons.IH [OF w(1) t(1)] t(2) show ?thesis by auto
  next
    case Tick
    obtain b1 m1 where s: "worker_tick order m = (b1, m1)" by (metis prod.exhaust)
    obtain b2 where t: "worker_run max_batch order evs m1 = (b2, m')" "bs = b1 @ b2"
      using Cons.prems(2) Tick s by (auto split: prod.splits)
    have "buffer_ok max_batch []" "buffered q [] = []" by (simp_all add: buffer_ok_def buffered_def)
    with worker_tick_ok [OF Cons.prems(1) s assms] Cons.IH [OF _ t(1)] t(2) Tick show ?thesis by auto
  qed
qed

lemma worker_run_tick: "snd (worker_run max_batch order (evs @ [Tick]) m) = []"
proof (induction evs arbitrary: m)
  case Nil
  show ?case by (simp add: worker_tick_def)
next
  case (Cons e evs)
  then show ?case by (cases e) (simp_all add: split_beta Let_def)
qed

text \<open>
  A worker of the client sends every buffered push exactly once: for each
  queue, the batches it hands over, one after the other, followed by what it still holds, are the pushes
  it received, in the order it received them. No batch is empty, mixes queues or exceeds the
  configured size, and a tick of the timer leaves nothing behind.
\<close>

theorem buffer_sends_once:
  assumes "iter_order order" "worker_run max_batch order evs [] = (bs, m)"
  shows "(\<forall>q. flushed q bs @ buffered q m = received q evs) \<and>
    (\<forall>(q, items) \<in> set bs. items \<noteq> [] \<and> length items \<le> max 1 (unat max_batch) \<and> (\<forall>i \<in> set items. bp_queue i = q)) \<and>
    (evs \<noteq> [] \<longrightarrow> last evs = Tick \<longrightarrow> m = [])"
proof -
  have ok: "buffer_ok max_batch []" by (simp add: buffer_ok_def)
  note run = worker_run_ok [OF assms(1) ok assms(2)]
  have "m = []" if "evs \<noteq> []" "last evs = Tick"
  proof -
    from that obtain es where es: "evs = es @ [Tick]" by (metis append_butlast_last_id)
    with worker_run_tick [of max_batch order es "[]"] assms(2) show ?thesis by simp
  qed
  moreover from run have "\<forall>(q, items) \<in> set bs. items \<noteq> [] \<and> length items \<le> max 1 (unat max_batch) \<and> (\<forall>i \<in> set items. bp_queue i = q)"
    by (fastforce simp: flush_ok_def)
  moreover from run have "flushed q bs @ buffered q m = received q evs" for q by (simp add: buffered_def)
  ultimately show ?thesis by blast
qed

definition demo_push :: "string \<Rightarrow> nat \<Rightarrow> buffered_push_item" where
  "demo_push q n = snd (push_opt ''x'' q [] 0 None n)"

theorem buffer_sends_once_witness:
  "worker_run 2 (\<lambda>ks. ks) [Recv (demo_push ''a'' 1), Recv (demo_push ''b'' 2), Recv (demo_push ''a'' 3), Tick] [] =
     ([(''a'', [demo_push ''a'' 1, demo_push ''a'' 3]), (''b'', [demo_push ''b'' 2])], []) \<and>
   flushed ''a'' [(''a'', [demo_push ''a'' 1, demo_push ''a'' 3]), (''b'', [demo_push ''b'' 2])] =
     received ''a'' [Recv (demo_push ''a'' 1), Recv (demo_push ''b'' 2), Recv (demo_push ''a'' 3), Tick]"
proof -
  have "worker_run 2 (\<lambda>ks. ks) [Recv (demo_push ''a'' 1), Recv (demo_push ''b'' 2), Recv (demo_push ''a'' 3), Tick] [] =
     ([(''a'', [demo_push ''a'' 1, demo_push ''a'' 3]), (''b'', [demo_push ''b'' 2])], [])"
    by (simp add: worker_recv_def worker_tick_def demo_push_def push_opt_def)
  with buffer_sends_once [OF iter_order_id this] show ?thesis by (simp add: buffered_def)
qed

text \<open>Every sender of a batch is answered once, in order, when the server returns an id per item, and
  also when it returns none.\<close>

lemma flush_answers:
  assumes "flush_queue_batch P net new_ids queue items c = Some (replies, c')"
    and "\<And>req ids c'. send_with_redirect net queue req c = Some (Inr (RespPushBatch ids), c') \<Longrightarrow> length ids = length items"
  shows "map fst replies = map bp_tx items"
proof -
  from assms(1) obtain req res where s: "send_with_redirect net queue req c = Some (res, c')"
    and r: "replies = (case res of
        Inr (RespPushBatch ids) \<Rightarrow> map (\<lambda>(tx, i). (tx, Inr i)) (zip (map bp_tx items) ids)
      | Inr (RespError message) \<Rightarrow> map (\<lambda>tx. (tx, Inl (CServerError message))) (map bp_tx items)
      | _ \<Rightarrow> map (\<lambda>tx. (tx, Inl CUnavailable)) (map bp_tx items))"
    by (auto simp: flush_queue_batch_def Let_def)
  show ?thesis
  proof (cases res)
    case (Inl e)
    with r show ?thesis by (simp add: comp_def)
  next
    case (Inr resp)
    show ?thesis
    proof (cases resp)
      case (RespPushBatch ids)
      with Inr s assms(2) have "length ids = length items" by blast
      with r Inr RespPushBatch show ?thesis by (simp add: comp_def split_beta flip: map_map [of fst])
    qed (simp_all add: r Inr comp_def)
  qed
qed

section \<open>The buffers of a client\<close>

definition worker_of :: "string \<Rightarrow> nat" where
  "worker_of q = unat (client_hash q) mod CLIENT_SHARDS"

fun pushes_to :: "string \<Rightarrow> buffer_event list \<Rightarrow> buffered_push_item list" where
  "pushes_to q [] = []"
| "pushes_to q (PushBuffered new_id queue payload delay_seconds message_id tx # evs) =
     (if queue = q then snd (push_opt new_id queue payload delay_seconds message_id tx) # pushes_to q evs else pushes_to q evs)"
| "pushes_to q (WindowTick w # evs) = pushes_to q evs"

text \<open>Every worker is in order and buffers only the queues that are routed to it.\<close>

definition client_ok :: "walr_client \<Rightarrow> bool" where
  "client_ok c \<longleftrightarrow> length (wc_workers c) = CLIENT_SHARDS \<and>
     (\<forall>w < CLIENT_SHARDS. buffer_ok (max_batch_size (config (wc_inner c))) (wc_workers c ! w) \<and>
        (\<forall>q. buffered q (wc_workers c ! w) \<noteq> [] \<longrightarrow> worker_of q = w))"

lemma worker_of_less: "worker_of q < CLIENT_SHARDS"
  by (simp add: worker_of_def CLIENT_SHARDS_def)

lemma with_config_ok: "client_ok (with_config seeds cfg)" "buffered q (wc_workers (with_config seeds cfg) ! worker_of q) = []"
  using worker_of_less [of q] by (simp_all add: client_ok_def with_config_def buffer_ok_def buffered_def)

lemma client_okD:
  assumes "client_ok c" "w < CLIENT_SHARDS"
  shows "buffer_ok (max_batch_size (config (wc_inner c))) (wc_workers c ! w)" "worker_of q \<noteq> w \<Longrightarrow> buffered q (wc_workers c ! w) = []"
  using assms by (auto simp: client_ok_def)

lemma client_ok_update:
  assumes "client_ok c" "buffer_ok (max_batch_size (config (wc_inner c))) m" "\<And>q. worker_of q \<noteq> w \<Longrightarrow> buffered q m = []"
  shows "client_ok (c\<lparr>wc_workers := (wc_workers c)[w := m]\<rparr>)"
proof -
  have "xs[w := m] ! v = (if v = w then m else xs ! v)" if "v < length xs" for v xs
    using that by (cases "v = w") simp_all
  with assms show ?thesis by (auto simp: client_ok_def)
qed

lemma client_buffer_ok:
  assumes ok: "client_ok c" and order: "iter_order order" and r: "client_buffer order ev c = (bs, c')"
  shows "client_ok c' \<and> wc_inner c' = wc_inner c \<and> (\<forall>b \<in> set bs. flush_ok (max_batch_size (config (wc_inner c))) b) \<and>
    (\<forall>q. flushed q bs @ buffered q (wc_workers c' ! worker_of q) = buffered q (wc_workers c ! worker_of q) @ pushes_to q [ev])"
proof (cases ev)
  case (PushBuffered new_id queue payload delay mid tx)
  obtain w item where o: "push_opt new_id queue payload delay mid tx = (w, item)" by (metis prod.exhaust)
  then have w: "w = worker_of queue" "bp_queue item = queue" by (auto simp: push_opt_def worker_of_def)
  from w(1) have less: "w < CLIENT_SHARDS" by (simp add: worker_of_less)
  with ok have len: "w < length (wc_workers c)" by (simp add: client_ok_def)
  note b = client_okD(1) [OF ok less]
  obtain m where m: "worker_recv (max_batch_size (config (wc_inner c))) item (wc_workers c ! w) = (bs, m)"
    and c': "c' = c\<lparr>wc_workers := (wc_workers c)[w := m]\<rparr>"
    using r PushBuffered o by (auto split: prod.splits)
  note k = worker_recv_ok [OF b m]
  have none: "flushed q bs = []" "buffered q m = []" if "worker_of q \<noteq> w" for q
    using k(3) [of q] client_okD(2) [OF ok less that] that w by (auto split: if_splits)
  have "client_ok c'" unfolding c' by (rule client_ok_update [OF ok k(1) none(2)])
  moreover have "flushed q bs @ buffered q (wc_workers c' ! worker_of q) = buffered q (wc_workers c ! worker_of q) @ pushes_to q [ev]" for q
  proof (cases "worker_of q = w")
    case True
    then have "wc_workers c' ! worker_of q = m" using len by (simp add: c')
    with k(3) [of q] True w(2) PushBuffered o show ?thesis by (cases "queue = q") simp_all
  next
    case False
    then have "wc_workers c' ! worker_of q = wc_workers c ! worker_of q" by (simp add: c')
    moreover have "pushes_to q [ev] = []" using False w PushBuffered by auto
    ultimately show ?thesis using none(1) [OF False] by simp
  qed
  ultimately show ?thesis using k(2) by (simp add: c')
next
  case (WindowTick w)
  show ?thesis
  proof (cases "w < length (wc_workers c)")
    case False
    with r WindowTick ok show ?thesis by simp
  next
    case True
    with ok have less: "w < CLIENT_SHARDS" by (simp add: client_ok_def)
    note b = client_okD(1) [OF ok less]
    obtain m where m: "worker_tick order (wc_workers c ! w) = (bs, m)" and c': "c' = c\<lparr>wc_workers := (wc_workers c)[w := m]\<rparr>"
      using r WindowTick True by (auto split: prod.splits)
    note k = worker_tick_ok [OF b m order]
    have nil: "buffered q m = []" "buffer_ok n m" for q n by (simp_all add: k(1) buffered_def buffer_ok_def)
    have none: "flushed q bs = []" if "worker_of q \<noteq> w" for q
      using k(3) [of q] client_okD(2) [OF ok less that] by simp
    have "client_ok c'" unfolding c' by (rule client_ok_update [OF ok nil(2) nil(1)])
    moreover have "flushed q bs @ buffered q (wc_workers c' ! worker_of q) = buffered q (wc_workers c ! worker_of q) @ pushes_to q [ev]" for q
    proof (cases "worker_of q = w")
      case same: True
      then have "wc_workers c' ! worker_of q = m" using True by (simp add: c')
      with k(3) [of q] same nil(1) WindowTick show ?thesis by simp
    next
      case False
      then have "wc_workers c' ! worker_of q = wc_workers c ! worker_of q" by (simp add: c')
      with none [OF False] WindowTick show ?thesis by simp
    qed
    ultimately show ?thesis using k(2) by (simp add: c')
  qed
qed

lemma pushes_to_Cons: "pushes_to q (ev # evs) = pushes_to q [ev] @ pushes_to q evs"
  by (cases ev) simp_all

lemma client_buffers_ok:
  assumes "iter_order order"
  shows "client_ok c \<Longrightarrow> client_buffers order evs c = (bs, c') \<Longrightarrow>
    client_ok c' \<and> wc_inner c' = wc_inner c \<and> (\<forall>b \<in> set bs. flush_ok (max_batch_size (config (wc_inner c))) b) \<and>
    (\<forall>q. flushed q bs @ buffered q (wc_workers c' ! worker_of q) = buffered q (wc_workers c ! worker_of q) @ pushes_to q evs)"
proof (induction evs arbitrary: c bs)
  case Nil
  then show ?case by simp
next
  case (Cons ev evs)
  obtain b1 c1 where s: "client_buffer order ev c = (b1, c1)" by (metis prod.exhaust)
  obtain b2 where t: "client_buffers order evs c1 = (b2, c')" "bs = b1 @ b2"
    using Cons.prems(2) s by (auto split: prod.splits)
  note w = client_buffer_ok [OF Cons.prems(1) assms s]
  from w have "client_ok c1" by blast
  note ih = Cons.IH [OF this t(1)]
  have "flushed q bs @ buffered q (wc_workers c' ! worker_of q) = buffered q (wc_workers c ! worker_of q) @ pushes_to q (ev # evs)" for q
  proof -
    from w have "flushed q b1 @ buffered q (wc_workers c1 ! worker_of q) @ pushes_to q evs =
        buffered q (wc_workers c ! worker_of q) @ pushes_to q [ev] @ pushes_to q evs"
      by (metis append_assoc)
    with ih t(2) show ?thesis by (simp add: pushes_to_Cons [of q ev evs])
  qed
  with w ih t(2) show ?case by auto
qed

text \<open>
  C31. Buffered pushes get through the 32 workers of a client exactly once and in order: for each queue,
  the batches handed over for it, one after the other, followed by what the worker of the queue still holds, are the pushes
  made to it, in the order they were made, however the pushes to other queues and the windows of
  the workers fall between them. No batch is empty, mixes queues or exceeds the configured size.
\<close>

theorem client_buffers_once:
  assumes "iter_order order" "client_buffers order evs (with_config seeds cfg) = (bs, c)"
  shows "flushed q bs @ buffered q (wc_workers c ! worker_of q) = pushes_to q evs \<and>
    (\<forall>(queue, items) \<in> set bs. items \<noteq> [] \<and> length items \<le> max 1 (unat (max_batch_size cfg)) \<and> (\<forall>i \<in> set items. bp_queue i = queue))"
proof -
  have "config (wc_inner (with_config seeds cfg)) = cfg" by (simp add: with_config_def client_new_def)
  with client_buffers_ok [OF assms(1) with_config_ok(1) assms(2)] have
    f: "\<forall>b \<in> set bs. flush_ok (max_batch_size cfg) b" "flushed q bs @ buffered q (wc_workers c ! worker_of q) = pushes_to q evs"
    by (simp_all add: with_config_ok(2))
  then show ?thesis by (fastforce simp: flush_ok_def)
qed

theorem client_buffers_once_witness:
  "flushed ''a'' (fst (client_buffers (\<lambda>ks. ks) [PushBuffered ''1'' ''a'' [] 0 None 1, PushBuffered ''2'' ''b'' [] 0 None 2,
      PushBuffered ''3'' ''a'' [] 0 None 3] (with_config [] \<lparr>buffer_window_ms = 5, max_batch_size = 2, max_redirects = 1\<rparr>)))
   = [snd (push_opt ''1'' ''a'' [] 0 None 1), snd (push_opt ''3'' ''a'' [] 0 None 3)]"
proof -
  let ?evs = "[PushBuffered ''1'' ''a'' [] 0 None 1, PushBuffered ''2'' ''b'' [] 0 None 2, PushBuffered ''3'' ''a'' [] 0 None 3]"
  let ?c = "with_config [] \<lparr>buffer_window_ms = 5, max_batch_size = 2, max_redirects = 1\<rparr>"
  obtain bs c where r: "client_buffers (\<lambda>ks. ks) ?evs ?c = (bs, c)" by (metis prod.exhaust)
  have "buffered ''a'' (wc_workers c ! worker_of ''a'') = []"
    using r worker_of_less [of "''a''"] worker_of_less [of "''b''"]
    by (auto simp: with_config_def client_new_def push_opt_def worker_recv_def Let_def nth_list_update buffered_def split: if_splits)
  with client_buffers_once [OF iter_order_id r, of "''a''"] r show ?thesis by simp
qed

end
