(* ===== verification/Flame_Runner.thy ===== *)
theory Flame_Runner
  imports Tcp_Service Walr_Client_Properties
begin

text \<open>
  The load generator (\<open>walrq-client/src/bin/flame_runner.rs\<close>): a cluster of three servers, one client, eight
  producers and eight consumers over two shared counters. Each task is a state machine with one
  step per access to shared state; a call of the client is one step. The tasks interleave freely.
\<close>

section \<open>The cluster\<close>

definition flame_addr1 :: string where
  "flame_addr1 = ''127.0.0.1:59951''"

definition flame_addr2 :: string where
  "flame_addr2 = ''127.0.0.1:59952''"

definition flame_addr3 :: string where
  "flame_addr3 = ''127.0.0.1:59953''"

definition flame_opts :: queue_options where
  "flame_opts = \<lparr>default_visibility_timeout_sec = 30, max_delivery_count = 3,
     max_hot_messages_in_ram = 1000000, max_wal_segment_size = 16 * 1024 * 1024\<rparr>"

text \<open>The temporary directories are empty; \<open>base\<close> is the time an engine is opened at.\<close>

definition flame_raft :: "packages \<Rightarrow> u64 \<Rightarrow> string \<Rightarrow> string list \<Rightarrow> raft_node" where
  "flame_raft P base addr others = with_threshold addr others (engine_open P [] [] [] flame_opts base) 5000"

definition flame_servers :: "packages \<Rightarrow> u64 \<Rightarrow> u64 \<Rightarrow> u64 \<Rightarrow> walr_server list" where
  "flame_servers P base1 base2 base3 =
     (let raft1 = flame_raft P base1 flame_addr1 [flame_addr2, flame_addr3];
          raft2 = flame_raft P base2 flame_addr2 [flame_addr1, flame_addr3];
          raft3 = flame_raft P base3 flame_addr3 [flame_addr1, flame_addr2];
          raft1' = become_leader_for_test raft1
      in [new_raft raft1' flame_addr1, new_raft raft2 flame_addr2, new_raft raft3 flame_addr3])"

definition flame_client :: client_inner where
  "flame_client = wc_inner (with_config [flame_addr1] \<lparr>buffer_window_ms = 5, max_batch_size = 500, max_redirects = 5\<rparr>)"

section \<open>Tasks\<close>

definition flame_batch :: "nat \<Rightarrow> bytes list" where
  "flame_batch p_id = map (\<lambda>i. as_bytes (''p'' @ show_nat p_id @ ''-soak-payload-data-'' @ show_nat i)) [0..<500]"

definition flame_queue :: "nat \<Rightarrow> string" where
  "flame_queue p_id = ''flame-q-'' @ show_nat p_id"

text \<open>Where a task is: at the loop condition, before loading a counter (holding what it has loaded), before the call, before
  adding to its counter, or finished.\<close>

datatype producer_pc = PCheck | PLoadPushed | PLoadAcked u64 | PPush | PAdd | PDone

datatype consumer_pc = CCheck | CPoll | CAck "ack_item list" | CAdd u32 | CDone

record flame =
  fl_running :: bool
  fl_pushed :: u64
  fl_acked :: u64
  fl_client :: client_inner
  fl_producers :: "producer_pc list"
  fl_consumers :: "consumer_pc list"

definition flame_start :: flame where
  "flame_start = \<lparr>fl_running = True, fl_pushed = 0, fl_acked = 0, fl_client = flame_client,
     fl_producers = replicate 8 PCheck, fl_consumers = replicate 8 CCheck\<rparr>"

abbreviation producer_at :: "nat \<Rightarrow> producer_pc \<Rightarrow> flame \<Rightarrow> flame" where
  "producer_at p pc f \<equiv> f\<lparr>fl_producers := (fl_producers f)[p := pc]\<rparr>"

abbreviation consumer_at :: "nat \<Rightarrow> consumer_pc \<Rightarrow> flame \<Rightarrow> flame" where
  "consumer_at p pc f \<equiv> f\<lparr>fl_consumers := (fl_consumers f)[p := pc]\<rparr>"

text \<open>A call that never returns leaves its task where it is.\<close>

definition producer_step :: "packages \<Rightarrow> network \<Rightarrow> (response \<Rightarrow> string) \<Rightarrow> (nat \<Rightarrow> string) \<Rightarrow> nat \<Rightarrow> flame \<Rightarrow> flame" where
  "producer_step P net debug new_ids p f =
     (case fl_producers f ! p of
        PCheck \<Rightarrow> producer_at p (if fl_running f then PLoadPushed else PDone) f
      | PLoadPushed \<Rightarrow> producer_at p (PLoadAcked (fl_pushed f)) f
      | PLoadAcked v \<Rightarrow> producer_at p (if sat_sub v (fl_acked f) > 50000 then PCheck else PPush) f
      | PPush \<Rightarrow>
          (case client_push_batch P net debug new_ids (flame_queue p) (flame_batch p) (fl_client f) of
             None \<Rightarrow> f
           | Some (res, c) \<Rightarrow> producer_at p (case res of Inr _ \<Rightarrow> PAdd | Inl _ \<Rightarrow> PCheck) (f\<lparr>fl_client := c\<rparr>))
      | PAdd \<Rightarrow> producer_at p PCheck (f\<lparr>fl_pushed := fl_pushed f + 500\<rparr>)
      | PDone \<Rightarrow> f)"

definition consumer_step :: "packages \<Rightarrow> network \<Rightarrow> (response \<Rightarrow> string) \<Rightarrow> nat \<Rightarrow> flame \<Rightarrow> flame" where
  "consumer_step P net debug p f =
     (case fl_consumers f ! p of
        CCheck \<Rightarrow> consumer_at p (if fl_running f then CPoll else CDone) f
      | CPoll \<Rightarrow>
          (case client_poll P net debug (flame_queue p) 30 500 (fl_client f) of
             None \<Rightarrow> f
           | Some (Inr (m # ms), c) \<Rightarrow>
               consumer_at p
                 (CAck (map (\<lambda>m. \<lparr>ai_message_id = msg_message_id m, ai_receipt_handle = msg_receipt_handle m\<rparr>) (m # ms)))
                 (f\<lparr>fl_client := c\<rparr>)
           | Some (_, c) \<Rightarrow> consumer_at p CCheck (f\<lparr>fl_client := c\<rparr>))
      | CAck items \<Rightarrow>
          (case client_ack_batch_items net debug (flame_queue p) items (fl_client f) of
             None \<Rightarrow> f
           | Some (res, c) \<Rightarrow> consumer_at p (case res of Inr k \<Rightarrow> CAdd k | Inl _ \<Rightarrow> CCheck) (f\<lparr>fl_client := c\<rparr>))
      | CAdd k \<Rightarrow> consumer_at p CCheck (f\<lparr>fl_acked := fl_acked f + ucast k\<rparr>)
      | CDone \<Rightarrow> f)"

text \<open>After ten seconds the main task clears the flag and waits for all tasks; then it reports the messages moved.\<close>

definition flame_stop :: "flame \<Rightarrow> flame" where
  "flame_stop f = f\<lparr>fl_running := False\<rparr>"

definition flame_finished :: "flame \<Rightarrow> bool" where
  "flame_finished f \<longleftrightarrow> list_all ((=) PDone) (fl_producers f) \<and> list_all ((=) CDone) (fl_consumers f)"

definition flame_report :: "flame \<Rightarrow> u64" where
  "flame_report f = fl_pushed f + fl_acked f"

inductive flame_step :: "packages \<Rightarrow> (response \<Rightarrow> string) \<Rightarrow> flame \<Rightarrow> flame \<Rightarrow> bool" for P debug where
  fs_producer: "p < 8 \<Longrightarrow> flame_step P debug f (producer_step P net debug new_ids p f)"
| fs_consumer: "p < 8 \<Longrightarrow> flame_step P debug f (consumer_step P net debug p f)"
| fs_stop: "flame_step P debug f (flame_stop f)"

text \<open>The states after a number of steps.\<close>

inductive flame_reach :: "packages \<Rightarrow> (response \<Rightarrow> string) \<Rightarrow> nat \<Rightarrow> flame \<Rightarrow> bool" for P debug where
  flame_init: "flame_reach P debug 0 flame_start"
| flame_next: "flame_reach P debug n f \<Longrightarrow> flame_step P debug f f' \<Longrightarrow> flame_reach P debug (Suc n) f'"

section \<open>Calls return\<close>

lemma call_returns:
  assumes "max_redirects (config c) \<noteq> - 1"
  obtains res c' where "call net debug want queue req c = Some (res, c')" "config c' = config c"
proof (cases "resolve_initial_target queue c")
  case (Inl e)
  with that show thesis by (simp add: call_def send_with_redirect_def)
next
  case (Inr t)
  from send_attempts_returns [OF assms, of 0 0 net queue req t] obtain r c' where
    "send_attempts net queue req 0 t 0 c = Some (r, c')" "config c' = config c" by auto
  with Inr that show thesis by (simp add: call_def send_with_redirect_def)
qed

section \<open>Back pressure\<close>

text \<open>The invariant speaks of the producers in the order in which they added to the counter: a producer
  that has loaded a value \<open>500 * k\<close> has not added since the first \<open>k\<close> additions.\<close>

definition quiet_since :: "nat list \<Rightarrow> nat \<Rightarrow> nat \<Rightarrow> bool" where
  "quiet_since adds p k \<longleftrightarrow> k \<le> length adds \<and> p \<notin> set (drop k adds)"

fun producer_ok :: "nat list \<Rightarrow> nat \<Rightarrow> nat \<Rightarrow> producer_pc \<Rightarrow> bool" where
  "producer_ok adds a p (PLoadAcked v) \<longleftrightarrow> (\<exists>k. quiet_since adds p k \<and> unat v = 500 * k)"
| "producer_ok adds a p PPush \<longleftrightarrow> (\<exists>k. quiet_since adds p k \<and> 500 * k \<le> a + 50000)"
| "producer_ok adds a p PAdd \<longleftrightarrow> (\<exists>k. quiet_since adds p k \<and> 500 * k \<le> a + 50000)"
| "producer_ok adds a p _ \<longleftrightarrow> True"

definition backlog_ok :: "nat list \<Rightarrow> flame \<Rightarrow> bool" where
  "backlog_ok adds f \<longleftrightarrow> length (fl_producers f) = 8 \<and> unat (fl_pushed f) = 500 * length adds \<and> set adds \<subseteq> {..<8} \<and>
     (\<exists>r \<le> length adds. 500 * r \<le> unat (fl_acked f) + 50000 \<and> distinct (drop r adds)) \<and>
     (\<forall>p < 8. producer_ok adds (unat (fl_acked f)) p (fl_producers f ! p))"

lemma quiet_other: "quiet_since adds p k \<Longrightarrow> q \<noteq> p \<Longrightarrow> quiet_since (adds @ [q]) p k"
  by (simp add: quiet_since_def)

lemma producer_ok_mono: "producer_ok adds a p pc \<Longrightarrow> a \<le> b \<Longrightarrow> producer_ok adds b p pc"
  by (cases pc) (auto intro: le_trans add_le_mono1)

lemma producer_ok_other: "producer_ok adds a p pc \<Longrightarrow> q \<noteq> p \<Longrightarrow> producer_ok (adds @ [q]) a p pc"
  by (cases pc) (auto intro: quiet_other)

text \<open>An addition by a producer that has not added since position \<open>k\<close>: the additions since \<open>r\<close>, or else
  those since \<open>k\<close>, are by distinct producers.\<close>

lemma distinct_add:
  assumes "r \<le> length adds" "distinct (drop r adds)" "quiet_since adds p k"
  shows "\<exists>j \<in> {r, k}. distinct (drop j (adds @ [p]))"
proof (cases "p \<in> set (drop r adds)")
  case False
  with assms show ?thesis by simp
next
  case True
  have "r \<le> k"
  proof (rule ccontr)
    assume "\<not> r \<le> k"
    then have "set (drop r adds) \<subseteq> set (drop k adds)" by (simp add: set_drop_subset_set_drop)
    with True assms(3) show False by (auto simp: quiet_since_def)
  qed
  then have "distinct (drop k adds)" using distinct_drop [OF assms(2), of "k - r"] by simp
  with assms show ?thesis by (simp add: quiet_since_def)
qed

lemma backlog_bound:
  assumes "backlog_ok adds f"
  shows "unat (fl_pushed f) \<le> unat (fl_acked f) + 54000"
proof -
  from assms obtain r where r: "r \<le> length adds" "500 * r \<le> unat (fl_acked f) + 50000" "distinct (drop r adds)"
    by (auto simp: backlog_ok_def)
  have "set (drop r adds) \<subseteq> {..<8}" using assms set_drop_subset [of r adds] by (auto simp: backlog_ok_def)
  then have "length (drop r adds) \<le> 8" using r(3) card_mono [of "{..<8 :: nat}" "set (drop r adds)"] by (simp add: distinct_card)
  with r assms show ?thesis by (simp add: backlog_ok_def)
qed

lemma backlog_move:
  assumes "backlog_ok adds f" "p < 8" "producer_ok adds (unat (fl_acked f)) p pc"
  shows "backlog_ok adds (producer_at p pc f)"
  using assms by (auto simp: backlog_ok_def nth_list_update)

lemma backlog_client [simp]: "backlog_ok adds (f\<lparr>fl_client := c\<rparr>) = backlog_ok adds f"
  by (simp add: backlog_ok_def)

lemma backlog_add:
  assumes ok: "backlog_ok adds f" and p: "p < 8" "fl_producers f ! p = PAdd" and small: "unat (fl_acked f) < 2 ^ 63"
  shows "backlog_ok (adds @ [p]) (producer_at p PCheck (f\<lparr>fl_pushed := fl_pushed f + 500\<rparr>))"
proof -
  from ok p have "producer_ok adds (unat (fl_acked f)) p PAdd" by (auto simp: backlog_ok_def)
  then obtain k where k: "quiet_since adds p k" "500 * k \<le> unat (fl_acked f) + 50000" by auto
  from ok obtain r where r: "r \<le> length adds" "500 * r \<le> unat (fl_acked f) + 50000" "distinct (drop r adds)"
    by (auto simp: backlog_ok_def)
  from distinct_add [OF r(1,3) k(1)] obtain j where "j \<in> {r, k}" "distinct (drop j (adds @ [p]))" by blast
  with r k have "j \<le> length adds" "500 * j \<le> unat (fl_acked f) + 50000" "distinct (drop j (adds @ [p]))"
    by (auto simp: quiet_since_def)
  then have "\<exists>r \<le> length (adds @ [p]). 500 * r \<le> unat (fl_acked f) + 50000 \<and> distinct (drop r (adds @ [p]))"
    by (intro exI [of _ j]) simp
  moreover have "unat (fl_pushed f + 500) = 500 * length (adds @ [p])"
    using backlog_bound [OF ok] small ok by (simp add: backlog_ok_def unat_word_ariths)
  ultimately show ?thesis using ok p(1) producer_ok_other [of adds "unat (fl_acked f)" _ _ p]
    by (auto simp: backlog_ok_def nth_list_update)
qed

lemma producer_step_backlog:
  assumes ok: "backlog_ok adds f" and p: "p < 8" and small: "unat (fl_acked f) < 2 ^ 63"
  shows "\<exists>adds'. backlog_ok adds' (producer_step P net debug new_ids p f)"
proof -
  have move: "backlog_ok adds (producer_at p pc (f\<lparr>fl_client := c\<rparr>))" "backlog_ok adds (producer_at p pc f)"
    if "producer_ok adds (unat (fl_acked f)) p pc" for pc c
    using backlog_move [OF ok p that] backlog_move [of adds "f\<lparr>fl_client := c\<rparr>" p pc] ok p that by simp_all
  have pc: "producer_ok adds (unat (fl_acked f)) p (fl_producers f ! p)" using ok p by (simp add: backlog_ok_def)
  show ?thesis
  proof (cases "fl_producers f ! p")
    case PCheck
    then show ?thesis by (intro exI [of _ adds]) (simp add: producer_step_def move)
  next
    case PLoadPushed
    have "producer_ok adds (unat (fl_acked f)) p (PLoadAcked (fl_pushed f))"
      using ok by (simp add: backlog_ok_def quiet_since_def)
    from move(2) [OF this] PLoadPushed show ?thesis by (intro exI [of _ adds]) (simp add: producer_step_def)
  next
    case (PLoadAcked v)
    with pc obtain k where k: "quiet_since adds p k" "unat v = 500 * k" by auto
    have "producer_ok adds (unat (fl_acked f)) p PPush" if "\<not> sat_sub v (fl_acked f) > 50000"
    proof -
      have "unat v \<le> unat (fl_acked f) + 50000"
        using that by (cases "fl_acked f \<le> v") (simp_all add: sat_sub_def word_le_nat_alt word_less_nat_alt unat_sub)
      with k show ?thesis by auto
    qed
    with PLoadAcked show ?thesis by (intro exI [of _ adds]) (simp add: producer_step_def move)
  next
    case PPush
    with pc have "producer_ok adds (unat (fl_acked f)) p PAdd" by simp
    note m = move(1) [OF this] move(1) [of PCheck]
    show ?thesis
    proof (cases "client_push_batch P net debug new_ids (flame_queue p) (flame_batch p) (fl_client f)")
      case None
      with PPush ok show ?thesis by (intro exI [of _ adds]) (simp add: producer_step_def)
    next
      case (Some y)
      with PPush m show ?thesis
        by (intro exI [of _ adds]) (cases y, cases "fst y", simp_all add: producer_step_def)
    qed
  next
    case PAdd
    then show ?thesis using backlog_add [OF ok p PAdd small] by (intro exI) (simp add: producer_step_def)
  next
    case PDone
    with ok show ?thesis by (intro exI [of _ adds]) (simp add: producer_step_def)
  qed
qed

lemma consumer_step_frame:
  "fl_running (consumer_step P net debug p f) = fl_running f" "fl_pushed (consumer_step P net debug p f) = fl_pushed f"
  "fl_producers (consumer_step P net debug p f) = fl_producers f"
  "length (fl_consumers (consumer_step P net debug p f)) = length (fl_consumers f)"
  by (simp_all add: consumer_step_def split: consumer_pc.split option.split sum.split list.split)

lemma consumer_step_acked: "\<exists>k :: u32. fl_acked (consumer_step P net debug p f) = fl_acked f + ucast k"
proof (cases "fl_consumers f ! p")
  case (CAdd k)
  then show ?thesis by (intro exI [of _ k]) (simp add: consumer_step_def)
qed (auto intro!: exI [of _ 0] simp: consumer_step_def split: option.split sum.split list.split)

lemma producer_step_frame:
  "fl_running (producer_step P net debug new_ids p f) = fl_running f" "fl_acked (producer_step P net debug new_ids p f) = fl_acked f"
  "fl_consumers (producer_step P net debug new_ids p f) = fl_consumers f"
  "length (fl_producers (producer_step P net debug new_ids p f)) = length (fl_producers f)"
  by (simp_all add: producer_step_def split: producer_pc.split option.split)

lemma unat_u32: "unat (ucast (k :: u32) :: u64) < 2 ^ 32"
proof -
  have "unat k < 2 ^ 32" using unsigned_less [of k] by simp
  then show ?thesis by (simp add: unsigned_ucast_eq take_bit_nat_eq_self)
qed

lemma unat_add_le: "unat (a + b) \<le> unat a + unat b"
  by (simp add: unat_word_ariths)

lemma consumer_step_backlog:
  assumes ok: "backlog_ok adds f" and small: "unat (fl_acked f) < 2 ^ 63"
  shows "backlog_ok adds (consumer_step P net debug p f)"
proof -
  let ?f = "consumer_step P net debug p f"
  obtain k :: u32 where k: "fl_acked ?f = fl_acked f + ucast k" using consumer_step_acked by blast
  have "unat (fl_acked f) \<le> unat (fl_acked ?f)" using k small unat_u32 [of k] by (simp add: unat_word_ariths)
  with ok producer_ok_mono [OF _ this] show ?thesis
    by (auto simp: backlog_ok_def consumer_step_frame intro: le_trans add_le_mono1)
qed

lemma flame_reach_backlog:
  "flame_reach P debug n f \<Longrightarrow> unat (fl_acked f) \<le> n * 2 ^ 32 \<and> (n < 2 ^ 31 \<longrightarrow> (\<exists>adds. backlog_ok adds f))"
proof (induction rule: flame_reach.induct)
  case flame_init
  have "backlog_ok [] flame_start" by (simp add: backlog_ok_def flame_start_def)
  then show ?case by (auto simp: flame_start_def)
next
  case (flame_next n f f')
  have small: "unat (fl_acked f) < 2 ^ 63" if "n < 2 ^ 31" using flame_next.IH that by simp
  from flame_next.hyps(2) show ?case
  proof cases
    case (fs_producer p net new_ids)
    from producer_step_backlog [OF _ fs_producer(2) small, of _ P net debug new_ids] flame_next.IH fs_producer(1)
    show ?thesis by (auto simp: producer_step_frame)
  next
    case (fs_consumer p net)
    obtain k :: u32 where k: "fl_acked f' = fl_acked f + ucast k" using consumer_step_acked fs_consumer(1) by blast
    have "unat (fl_acked f') \<le> Suc n * 2 ^ 32" 
      using k unat_u32 [of k] flame_next.IH unat_add_le [of "fl_acked f" "ucast k"] by simp
    moreover have "\<exists>adds. backlog_ok adds f'" if "Suc n < 2 ^ 31"
      using consumer_step_backlog [OF _ small, of _ P net debug p] flame_next.IH fs_consumer(1) that by fastforce
    ultimately show ?thesis by blast
  next
    case fs_stop
    with flame_next.IH show ?thesis by (auto simp: flame_stop_def backlog_ok_def)
  qed
qed

text \<open>
  C37. The back pressure of the load generator holds: in every state of a run of fewer than
  \<open>2 ^ 31\<close> steps, under every interleaving of the tasks and whatever the network does, the counted pushes exceed the
  counted acknowledgements by at most 54000: the threshold of 50000 and one batch of 500 for each of
  the eight producers, although each of them decides on counters that are out of date when it adds.
\<close>

theorem flame_backlog_bounded:
  assumes "flame_reach P debug n f" "n < 2 ^ 31"
  shows "unat (fl_pushed f) \<le> unat (fl_acked f) + 50000 + 8 * 500 \<and> 500 dvd unat (fl_pushed f)"
proof -
  from flame_reach_backlog [OF assms(1)] assms(2) obtain adds where ok: "backlog_ok adds f" by blast
  from backlog_bound [OF ok] ok show ?thesis by (simp add: backlog_ok_def)
qed

text \<open>A run of five steps: the first producer pushes a batch to a server that accepts it.\<close>

definition accept_net :: network where
  "accept_net = (\<lambda>k t req. \<lparr>at_connect = Some 0, at_write = True, at_reply = Inr (RespPushBatch [])\<rparr>)"

definition demo_producer :: "flame \<Rightarrow> flame" where
  "demo_producer = producer_step demo_packages accept_net (\<lambda>_. []) (\<lambda>_. []) 0"

lemma accepted_batch: "\<exists>c. client_push_batch demo_packages accept_net (\<lambda>_. []) (\<lambda>_. []) q batch flame_client = Some (Inr [], c)"
proof -
  have t: "resolve_initial_target q flame_client = Inr flame_addr1"
    by (simp add: resolve_initial_target_def flame_client_def with_config_def client_new_def)
  have "answers (accept_net 0 flame_addr1 req) (RespPushBatch [])" for req by (simp add: answers_def accept_net_def)
  then have "\<exists>c. send_attempts accept_net q req 0 flame_addr1 0 flame_client = Some (Inr (RespPushBatch []), c)" for req
    using try_answers(1) [of "accept_net 0 flame_addr1 req" "RespPushBatch []" q flame_addr1 flame_client]
    by (auto simp: send_attempts_once [where attempts = 0])
  then obtain c where "send_attempts accept_net q (ReqPushBatch q (map (\<lambda>(k, p). \<lparr>bi_payload = compress_wire_payload demo_packages p,
       bi_delay_seconds = 0, bi_message_id = []\<rparr>) (enumerate 0 batch))) 0 flame_addr1 0 flame_client = Some (Inr (RespPushBatch []), c)" by blast
  with t show ?thesis
    by (intro exI [of _ c]) (simp add: client_push_batch_def push_batch_internal_def call_def send_with_redirect_def expect_def)
qed

lemma demo_producer_run: "fl_pushed ((demo_producer ^^ 5) flame_start) = 500" "fl_acked ((demo_producer ^^ 5) flame_start) = 0"
proof -
  obtain c where "client_push_batch demo_packages accept_net (\<lambda>_. []) (\<lambda>_. []) (flame_queue 0) (flame_batch 0) flame_client = Some (Inr [], c)"
    using accepted_batch by blast
  then show "fl_pushed ((demo_producer ^^ 5) flame_start) = 500" "fl_acked ((demo_producer ^^ 5) flame_start) = 0"
    by (simp_all add: eval_nat_numeral demo_producer_def producer_step_def flame_start_def sat_sub_def)
qed

theorem flame_backlog_bounded_witness:
  "unat (fl_pushed ((demo_producer ^^ 5) flame_start)) = 500 \<and>
   unat (fl_pushed ((demo_producer ^^ 5) flame_start)) \<le> unat (fl_acked ((demo_producer ^^ 5) flame_start)) + 54000"
proof -
  have "flame_reach demo_packages (\<lambda>_. []) n ((demo_producer ^^ n) flame_start)" for n
  proof (induction n)
    case (Suc n)
    from flame_next [OF Suc fs_producer] show ?case by (simp add: demo_producer_def)
  qed (simp add: flame_init)
  from flame_backlog_bounded [OF this [of 5]] demo_producer_run show ?thesis by simp
qed

section \<open>The end of a run\<close>

fun producer_work :: "producer_pc \<Rightarrow> nat" where
  "producer_work PDone = 0"
| "producer_work PCheck = 1"
| "producer_work PAdd = 2"
| "producer_work PPush = 3"
| "producer_work (PLoadAcked _) = 4"
| "producer_work PLoadPushed = 5"

fun consumer_work :: "consumer_pc \<Rightarrow> nat" where
  "consumer_work CDone = 0"
| "consumer_work CCheck = 1"
| "consumer_work (CAdd _) = 2"
| "consumer_work (CAck _) = 3"
| "consumer_work CPoll = 4"

text \<open>An upper bound on the steps the tasks still take once the flag is cleared.\<close>

definition flame_work :: "flame \<Rightarrow> nat" where
  "flame_work f = sum_list (map producer_work (fl_producers f)) + sum_list (map consumer_work (fl_consumers f))"

definition flame_ok :: "flame \<Rightarrow> bool" where
  "flame_ok f \<longleftrightarrow> length (fl_producers f) = 8 \<and> length (fl_consumers f) = 8 \<and> config (fl_client f) = config flame_client"

text \<open>A step of an unfinished task.\<close>

inductive flame_task_step :: "packages \<Rightarrow> (response \<Rightarrow> string) \<Rightarrow> flame \<Rightarrow> flame \<Rightarrow> bool" for P debug where
  task_producer: "p < 8 \<Longrightarrow> fl_producers f ! p \<noteq> PDone \<Longrightarrow> flame_task_step P debug f (producer_step P net debug new_ids p f)"
| task_consumer: "p < 8 \<Longrightarrow> fl_consumers f ! p \<noteq> CDone \<Longrightarrow> flame_task_step P debug f (consumer_step P net debug p f)"

text \<open>The contract of a set of tasks that winds down: while they are not all finished some task can take a step, and every
  step leaves less work. Then every schedule is bounded and can be completed.\<close>

locale draining_tasks =
  fixes ok :: "'s \<Rightarrow> bool" and finished :: "'s \<Rightarrow> bool" and step :: "'s \<Rightarrow> 's \<Rightarrow> bool" and work :: "'s \<Rightarrow> nat"
  assumes step_works: "ok s \<Longrightarrow> step s s' \<Longrightarrow> ok s' \<and> work s' < work s"
    and progress: "ok s \<Longrightarrow> \<not> finished s \<Longrightarrow> \<exists>s'. step s s'"
begin

lemma steps_work: "(step ^^ k) s s' \<Longrightarrow> ok s \<Longrightarrow> ok s' \<and> work s' + k \<le> work s"
proof (induction k arbitrary: s')
  case (Suc k)
  then obtain u where u: "(step ^^ k) s u" "step u s'" by auto
  from Suc.IH [OF u(1) Suc.prems(2)] step_works [of u s'] u(2) show ?case by auto
qed simp

lemma completes: "ok s \<Longrightarrow> \<exists>j g. (step ^^ j) s g \<and> finished g"
proof (induction "work s" arbitrary: s rule: less_induct)
  case less
  show ?case
  proof (cases "finished s")
    case True
    then show ?thesis by (intro exI [of _ 0]) auto
  next
    case False
    from progress [OF less.prems False] obtain u where u: "step s u" by blast
    from step_works [OF less.prems u] less.hyps [of u] obtain j g where "(step ^^ j) u g" "finished g" by blast
    then show ?thesis using relpowp_Suc_I2 [of step, OF u] by blast
  qed
qed

end

lemma sum_list_less:
  fixes g :: "'a \<Rightarrow> nat"
  assumes "p < length xs" "g y < g (xs ! p)"
  shows "sum_list (map g (xs[p := y])) < sum_list (map g xs)"
proof -
  have "sum_list (map g (xs[p := y])) + g (xs ! p) = sum_list (map g xs) + g y"
    using assms(1) by (induction xs arbitrary: p) (auto split: nat.split simp: nth_Cons)
  with assms(2) show ?thesis by simp
qed

lemma flame_client_limit: "config (fl_client f) = config flame_client \<Longrightarrow> max_redirects (config (fl_client f)) \<noteq> - 1"
  by (simp add: flame_client_def with_config_def client_new_def)

lemma producer_step_ok:
  assumes ok: "flame_ok f" and p: "p < 8"
  shows "flame_ok (producer_step P net debug new_ids p f)"
    "\<not> fl_running f \<Longrightarrow> fl_producers f ! p \<noteq> PDone \<Longrightarrow> flame_work (producer_step P net debug new_ids p f) < flame_work f"
proof -
  have len: "p < length (fl_producers f)" and cfg: "config (fl_client f) = config flame_client" using ok p by (simp_all add: flame_ok_def)
  obtain res c where call: "client_push_batch P net debug new_ids (flame_queue p) (flame_batch p) (fl_client f) = Some (res, c)"
    "config c = config (fl_client f)"
    unfolding client_push_batch_def push_batch_internal_def by (rule call_returns [OF flame_client_limit [OF cfg]])
  show "flame_ok (producer_step P net debug new_ids p f)"
    using ok call by (simp add: producer_step_def flame_ok_def split: producer_pc.split)
  show "flame_work (producer_step P net debug new_ids p f) < flame_work f" if "\<not> fl_running f" "fl_producers f ! p \<noteq> PDone"
    using that call sum_list_less [OF len, of producer_work]
    by (cases "fl_producers f ! p") (auto simp: producer_step_def flame_work_def split: sum.split)
qed

lemma consumer_step_ok:
  assumes ok: "flame_ok f" and p: "p < 8"
  shows "flame_ok (consumer_step P net debug p f)"
    "\<not> fl_running f \<Longrightarrow> fl_consumers f ! p \<noteq> CDone \<Longrightarrow> flame_work (consumer_step P net debug p f) < flame_work f"
proof -
  have len: "p < length (fl_consumers f)" and cfg: "config (fl_client f) = config flame_client" using ok p by (simp_all add: flame_ok_def)
  note ret = call_returns [OF flame_client_limit [OF cfg]]
  obtain res c where poll: "client_poll P net debug (flame_queue p) 30 500 (fl_client f) = Some (res, c)" "config c = config (fl_client f)"
    unfolding client_poll_def by (rule ret)
  have ack: "\<exists>res c. client_ack_batch_items net debug (flame_queue p) items (fl_client f) = Some (res, c) \<and> config c = config (fl_client f)"
    for items unfolding client_ack_batch_items_def by (rule ret) blast
  have "flame_ok (consumer_step P net debug p f) \<and>
    (\<not> fl_running f \<longrightarrow> fl_consumers f ! p \<noteq> CDone \<longrightarrow> flame_work (consumer_step P net debug p f) < flame_work f)"
  proof (cases "fl_consumers f ! p")
    case (CAck items)
    obtain r d where "client_ack_batch_items net debug (flame_queue p) items (fl_client f) = Some (r, d)" "config d = config (fl_client f)"
      using ack by blast
    with CAck ok sum_list_less [OF len, of consumer_work] show ?thesis
      by (auto simp: consumer_step_def flame_ok_def flame_work_def split: sum.split)
  qed (use ok poll sum_list_less [OF len, of consumer_work] in
      \<open>auto simp: consumer_step_def flame_ok_def flame_work_def split: sum.split list.split\<close>)
  then show "flame_ok (consumer_step P net debug p f)"
    "\<not> fl_running f \<Longrightarrow> fl_consumers f ! p \<noteq> CDone \<Longrightarrow> flame_work (consumer_step P net debug p f) < flame_work f" by blast+
qed

lemma flame_reach_shape: "flame_reach P debug n f \<Longrightarrow> flame_ok f"
proof (induction rule: flame_reach.induct)
  case (flame_next n f f')
  from flame_next.hyps(2) flame_next.IH show ?case
    by cases (simp_all add: producer_step_ok consumer_step_ok, simp add: flame_ok_def flame_stop_def)
qed (simp add: flame_ok_def flame_start_def)

lemma flame_work_bound: "flame_ok f \<Longrightarrow> flame_work f \<le> 72"
proof -
  have "sum_list (map producer_work ps) \<le> 5 * length ps" for ps
  proof (induction ps)
    case (Cons pc ps)
    then show ?case by (cases pc) simp_all
  qed simp
  moreover have "sum_list (map consumer_work cs) \<le> 4 * length cs" for cs
  proof (induction cs)
    case (Cons pc cs)
    then show ?case by (cases pc) simp_all
  qed simp
  ultimately have "flame_work f \<le> 5 * length (fl_producers f) + 4 * length (fl_consumers f)"
    unfolding flame_work_def by (rule add_le_mono)
  then show "flame_work f \<le> 72" if "flame_ok f" using that by (simp add: flame_ok_def)
qed

lemma unfinished_task:
  assumes "flame_ok f" "\<not> flame_finished f"
  obtains p where "p < 8" "fl_producers f ! p \<noteq> PDone" | p where "p < 8" "fl_consumers f ! p \<noteq> CDone"
  using assms by (auto simp: flame_finished_def flame_ok_def list_all_length)

interpretation flame_tasks: draining_tasks "\<lambda>f. flame_ok f \<and> \<not> fl_running f" flame_finished "flame_task_step P debug" flame_work
  for P debug
proof
  fix f f'
  assume ok: "flame_ok f \<and> \<not> fl_running f" and step: "flame_task_step P debug f f'"
  from step show "(flame_ok f' \<and> \<not> fl_running f') \<and> flame_work f' < flame_work f"
  proof cases
    case (task_producer p net new_ids)
    with ok producer_step_ok [of f p P net debug new_ids] show ?thesis by (simp add: producer_step_frame)
  next
    case (task_consumer p net)
    with ok consumer_step_ok [of f p P net debug] show ?thesis by (simp add: consumer_step_frame)
  qed
next
  fix f
  assume "flame_ok f \<and> \<not> fl_running f" "\<not> flame_finished f"
  then show "\<exists>f'. flame_task_step P debug f f'" by (metis unfinished_task task_producer task_consumer)
qed

text \<open>
  C38. The load generator ends: once the flag is cleared, in whatever state the run is, the
  tasks take at most 72 more steps under every schedule and whatever the network does, and from
  every point of the schedule they can go on until all of them have finished, so that the main task, which waits for them, goes on.
\<close>

theorem flame_shutdown_ends:
  assumes "flame_reach P debug n f" "(flame_task_step P debug ^^ k) (flame_stop f) f'"
  shows "k \<le> 72 \<and> (\<exists>j g. (flame_task_step P debug ^^ j) f' g \<and> flame_finished g)"
proof -
  have ok: "flame_ok (flame_stop f) \<and> \<not> fl_running (flame_stop f)"
    using flame_reach_shape [OF assms(1)] by (simp add: flame_ok_def flame_stop_def)
  from flame_tasks.steps_work [OF assms(2) ok] flame_work_bound [of "flame_stop f"] ok flame_tasks.completes [of f' P debug]
  show ?thesis by auto
qed

theorem flame_shutdown_ends_witness:
  "\<exists>j g. (flame_task_step demo_packages (\<lambda>_. []) ^^ j) (demo_producer (flame_stop flame_start)) g \<and> flame_finished g"
proof -
  have "flame_task_step demo_packages (\<lambda>_. []) (flame_stop flame_start) (demo_producer (flame_stop flame_start))"
    unfolding demo_producer_def by (rule task_producer) (simp_all add: flame_stop_def flame_start_def)
  then have "(flame_task_step demo_packages (\<lambda>_. []) ^^ 1) (flame_stop flame_start) (demo_producer (flame_stop flame_start))" by auto
  from flame_shutdown_ends [OF flame_init this] show ?thesis by blast
qed

section \<open>The start of a run\<close>

text \<open>
  The cluster is ready for the load: every node is in a state the replication layer can be in, needs one follower for
  a majority, and the node the client is configured with is the only leader.
\<close>

theorem flame_cluster_ready:
  assumes "flame_servers P base1 base2 base3 = [s1, s2, s3]"
  shows "(\<forall>s \<in> {s1, s2, s3}. raft_reach P C (0, raft s) \<and> quorum_of (raft s) = 2 \<and>
      set (get_peers (raft s)) = {node_id (raft s1), node_id (raft s2), node_id (raft s3)}) \<and>
    is_leader_fast (raft s1) \<and> \<not> is_leader_fast (raft s2) \<and> \<not> is_leader_fast (raft s3) \<and>
    resolve_initial_target q flame_client = Inr (node_id (raft s1))"
proof -
  have empty: "distinct (push_keys (snd (disk_log_open P [] [] [] m)))" for m
    by (simp add: disk_log_open_def Let_def)
  have r: "raft_reach P C (0, flame_raft P base a ps)" if "distinct ps" "a \<notin> set ps" for base a ps
    unfolding flame_raft_def by (rule raft_start [OF reach_open [OF empty]]) (use that in simp_all)
  note d = flame_addr1_def flame_addr2_def flame_addr3_def
  have r1: "raft_reach P C (0, become_leader_for_test (flame_raft P base1 flame_addr1 [flame_addr2, flame_addr3]))"
    by (rule raft_next [OF r rs_lead]) (simp_all add: d)
  have r2: "raft_reach P C (0, flame_raft P base2 flame_addr2 [flame_addr1, flame_addr3])"
    and r3: "raft_reach P C (0, flame_raft P base3 flame_addr3 [flame_addr1, flame_addr2])"
    by (rule r, simp_all add: d)+
  have quorum: "quorum_of n = 2" if "length (peers n) = 2" for n using that by (simp add: quorum_of_def)
  from assms have s: "raft s1 = become_leader_for_test (flame_raft P base1 flame_addr1 [flame_addr2, flame_addr3])"
    "raft s2 = flame_raft P base2 flame_addr2 [flame_addr1, flame_addr3]"
    "raft s3 = flame_raft P base3 flame_addr3 [flame_addr1, flame_addr2]"
    by (auto simp: flame_servers_def Let_def new_raft_def new_raft_with_limits_def)
  then have "node_id (raft s1) = flame_addr1" "is_leader_fast (raft s1)" "\<not> is_leader_fast (raft s2)" "\<not> is_leader_fast (raft s3)"
    "peers (raft s1) = [flame_addr2, flame_addr3]" "node_id (raft s2) = flame_addr2" "peers (raft s2) = [flame_addr1, flame_addr3]"
    "node_id (raft s3) = flame_addr3" "peers (raft s3) = [flame_addr1, flame_addr2]"
    by (simp_all add: become_leader_for_test_def flame_raft_def with_threshold_def is_leader_fast_def)
  moreover from this have "quorum_of (raft s1) = 2" "quorum_of (raft s2) = 2" "quorum_of (raft s3) = 2"
    by (simp_all add: quorum)
  moreover have "resolve_initial_target q flame_client = Inr flame_addr1"
    by (simp add: resolve_initial_target_def flame_client_def with_config_def client_new_def)
  ultimately show ?thesis using r1 r2 r3 s by (auto simp: get_peers_def)
qed

end
