(* ===== verification/Spec2Isabelle.thy ===== *)
theory Spec2Isabelle
  imports Engine_Durability Server_Lifecycle Flame_Runner
begin

text \<open>
  \<^bold>\<open>walr-queue: a replicated message queue with leases, delays and a write-ahead log.\<close>

  The program is a server (\<open>walrq\<close>) and a client library (\<open>walrq-client\<close>). A server holds queues in memory,
  in 32 shards, over a log of two alternating segment files. A consumer polls messages under
  a lease with a receipt and acknowledges them; a lease that runs out makes the message visible again or
  moves it to a dead-letter queue. A leader replicates pushes and acknowledgements to its followers.
  Clients talk to any node and are redirected to the leader.

  \<^bold>\<open>Theories and sources.\<close> Definitions keep the names of the source where possible and follow it
  function by function.

  \<^item> \<open>Walr_Prelude\<close>: machine integers (\<open>u64\<close> and \<open>usize\<close> as 64-bit words that wrap), hash maps as association
    lists, \<open>swap_remove\<close>, big-endian integers, UTF-8, and the lemmas shared by all components.
  \<^item> \<open>Packages\<close>: third-party crates as a record of functions (\<open>bytes\<close>, \<open>zstd\<close>, \<open>ulid\<close>, \<open>uuid\<close>), hash iteration order
    and file creation, with their documented behaviour as named predicates.
  \<^item> \<open>Timer_Wheel\<close> (\<open>engine/timer_wheel.rs\<close>): leases. The locale \<open>lease_table\<close> is the contract of a table of leases;
    its interpretation \<open>wheel\<close> proves it of the wheel, in particular that a sweep collects exactly the expired ones.
  \<^item> \<open>Single_Queue\<close> (\<open>SingleQueue\<close> in \<open>engine/queue.rs\<close>): ready list, delay buckets, far-future items,
    tombstones. Contract \<open>delay_queue\<close>, interpretation \<open>sq\<close>.
  \<^item> \<open>Disk_Log\<close> (\<open>engine/disk_log.rs\<close>): registry and manifest, record format, group commit, recovery, compaction,
    paging. Contracts \<open>framed_log\<close> and \<open>paged_log\<close>, for streams that may be cut anywhere;
    interpretations \<open>manifest_log\<close>, \<open>wal\<close>, \<open>wal_pages\<close>.
  \<^item> \<open>Queue_Engine\<close> (\<open>QueueEngine\<close> in \<open>engine/queue.rs\<close>): open, push, batch push, poll with expiry and page-in, the
    acknowledgements, compaction. \<open>Engine_Invariant\<close> has the invariant and that every operation keeps it;
    \<open>Engine_Properties\<close> the reachable states, custody, polls and acknowledgements; \<open>Engine_Delivery\<close> expiry,
    redelivery, admission and the order of delivery; \<open>Engine_Recovery\<close> the meaning of a log, restarts and compaction;
    \<open>Engine_Durability\<close> what batches and polls leave on disk.
  \<^item> \<open>Wire_Protocol\<close> (\<open>protocol.rs\<close>): requests, responses and frames; interpretation \<open>wire\<close> of \<open>framed_log\<close>. The
    serialization (\<open>postcard\<close>) is a parameter.
  \<^item> \<open>Raft_Node\<close> (\<open>cluster/raft.rs\<close>): roles, proposals, votes, entries, snapshots, the election tick. \<open>Raft_Properties\<close>
    has the steps of a node, their invariant, votes, majorities and log indices; \<open>Raft_Replication\<close> a leader
    together with its followers.
  \<^item> \<open>Tcp_Service\<close> (\<open>server/tcp_service.rs\<close>, \<open>metrics.rs\<close>): dispatch, connections, the connection limit, shutdown,
    counters. Contract \<open>request_server\<close>, interpretation \<open>tcp\<close>.
  \<^item> \<open>Walr_Client\<close> (\<open>walrq-client/src/lib.rs\<close>): payload framing, routing and retries, the calls, the 32 buffering
    workers and the client that has them. \<open>Walr_Client_Properties\<close> has what it guarantees.
  \<^item> \<open>Cluster_Discovery\<close> (\<open>cluster/discovery.rs\<close>, \<open>main.rs\<close>): discovery modes, beacons, lookups, and the server that
    \<open>main\<close> assembles.
  \<^item> \<open>Server_Lifecycle\<close> (\<open>WalrServer::run\<close>, \<open>main.rs\<close>): the server as a transition system (\<open>system_step\<close>), and the process with
    its accept loop, connection tasks, heartbeat and discovery tasks as events, up to the signal.
  \<^item> \<open>Flame_Runner\<close> (\<open>walrq-client/src/bin/flame_runner.rs\<close>): the load generator, a cluster with eight producers and
    eight consumers that interleave at every access to shared state. Contract \<open>draining_tasks\<close>, interpretation
    \<open>flame_tasks\<close>: tasks that wind down end under every schedule.
  \<^item> This theory: a running server, and a consumer and a producer from the call of the client
    library down to the engine and back.

  \<^bold>\<open>State and effects.\<close> Every operation is a function from the state to a result and the new state; an error is
  a value. The clock is an argument: the seconds elapsed, or one reading per use. What the network does is an
  argument too: which connections open, what peers answer and in which order, how far a write gets, what a
  client attempt meets. Files are byte lists, and a crash is a truncated file. Operations are
  atomic, as under the locks of the source; what interleaves are whole operations, in any order
  (\<open>engine_step\<close>, \<open>raft_step\<close>, \<open>system_step\<close>, \<open>process_step\<close>); the tasks of the load generator interleave
  at each load and store (\<open>flame_step\<close>).

  \<^bold>\<open>What is proved.\<close> In every reachable state of engine, node and server each message in memory is in custody:
  leased or waiting, once, in the right shard, and counted (\<open>engine_custody\<close>, \<open>replica_custody\<close>, \<open>server_custody\<close>).
  Polls are exclusive and in queue order, receipts decide acknowledgements, expired leases are redelivered. A durable append, an
  answered push and an accepted acknowledgement survive a restart; a crash recovers a prefix. Entries
  of a leader keep a follower in agreement. A connection is answered in order, a follower never serves,
  a client request ends and finds the leader despite one dead node, buffered pushes are sent once and in order. The process
  keeps to the transition system and to its connection limit until a signal ends it (\<open>main_lifecycle\<close>). Put together, a
  batch the client got an answer for is in the log with the producer's payloads (\<open>produce_end_to_end\<close>), and a
  message polled through the client has its producer's payload and its acknowledgement goes
  through (\<open>consume_end_to_end\<close>). The load generator holds its back pressure and ends. Some theorems show where the code departs from what it means to do: early
  release of far-future messages, forgotten tombstones, duplicates that come back after a restart, acknowledgements
  replicated although refused, two leaders in one term, seeds that are never tried, dead-lettered messages
  that return to their queue after a restart, connections cut by the shutdown.

  \<^bold>\<open>Bounds and termination.\<close> Loops over data are functions with a termination proof. The client's retry loop is a partial
  function with \<open>None\<close> for a loop that does not end; \<open>client_gives_up\<close> proves that it ends unless
  the limit is the largest \<open>usize\<close>. Properties that rest on sums of times state that these do not
  overflow (\<open>poll_time\<close>), since the code would wrap; the counters of the load generator do not wrap in fewer
  than \<open>2 ^ 31\<close> steps.

  \<^bold>\<open>Not modelled.\<close> Sockets, sleeping and printing, which are process I/O: whether an address binds, what arrives and
  when a signal comes are arguments. The periodic sending of beacons; the interleaving of tasks inside one operation of
  the engine or the node; weak memory effects of atomics. Debug texts of unexpected responses and
  the texts of I/O and parse errors are parameters.
\<close>

section \<open>A running server\<close>



section \<open>Consuming a message\<close>

text \<open>A network with one server: a request is framed, handled on a connection of its own, and the answer
  is read back from the bytes the server wrote. Other addresses do not answer.\<close>

definition server_net :: "packages \<Rightarrow> raft_command postcard \<Rightarrow> request postcard \<Rightarrow> response postcard \<Rightarrow> surroundings \<Rightarrow>
    string \<Rightarrow> walr_server \<Rightarrow> network" where
  "server_net P C Q R io addr s = (\<lambda>k t req.
     if t = addr then
       \<lparr>at_connect = Some 0, at_write = (fst (write_message Q None req []) = Inr ()),
        at_reply = fst (read_message R (fst (handle_connection P C Q R (\<lambda>_. io) 0 (snd (write_message Q None req [])) [] [] s)))\<rparr>
     else \<lparr>at_connect = None, at_write = False, at_reply = Inl UnexpectedEof\<rparr>)"

lemma server_net_answers:
  assumes "sendable Q req" "sendable R resp" "io_write io = None" "dispatch P C io req s = (resp, r, s')"
  shows "answers (server_net P C Q R io addr s k addr req) resp"
proof -
  from assms(1) have w: "write_message Q None req [] = (Inr (), sent Q req)"
    by (auto simp: write_message_def sendable_def sent_def)
  have "read_all Q (sent Q req) = [req]" using wire.rd_concat [of "[req]" Q "[]"] assms(1) by simp
  then have v: "serve P C (\<lambda>_. io) 0 (read_all Q (sent Q req)) s = ([resp], s')" using assms(4) by simp
  from handle_connection_serves [of "\<lambda>_. io" P C 0 Q "sent Q req" s R "[]" "[]"] v assms(2,3)
  have h: "handle_connection P C Q R (\<lambda>_. io) 0 (sent Q req) [] [] s = (sent R resp, s')" by simp
  have "next_message R (sent R resp) = Some (resp, [])" using wire.dec_enc [OF assms(2), of "[]"] by simp
  then have "read_message R (sent R resp) = (Inr resp, [])"
    by (auto simp: next_message_def split: prod.splits sum.splits)
  with w h show ?thesis by (simp add: answers_def server_net_def)
qed

text \<open>A call to a server that answers gets the answer and remembers the server.\<close>

lemma send_to_server:
  assumes "sendable Q req" "sendable R resp" "io_write io = None" "dispatch P C io req s = (resp, r, s')"
    and "resolve_initial_target queue c = Inr addr" "\<forall>l. resp \<noteq> RespRedirect l"
  shows "\<exists>c'. send_with_redirect (server_net P C Q R io addr s) queue req c = Some (Inr resp, c') \<and>
    resolve_initial_target queue c' = Inr addr"
proof -
  let ?net = "server_net P C Q R io addr s"
  from try_answers(1) [OF server_net_answers [OF assms(1-4), of addr 0] assms(6), of queue addr c] obtain c' where
    c': "try_once (?net 0 addr req) queue addr c = Inl (Inr resp, c')" "hm_get (routes c') queue = Some addr" by blast
  then have "send_attempts ?net queue req 0 addr 0 c = Some (Inr resp, c')"
    by (simp add: send_attempts_once [where attempts = 0])
  with assms(5) c'(2) show ?thesis by (simp add: send_with_redirect_def resolve_initial_target_def)
qed

lemma ack_batch_one:
  assumes ok: "engine_ok t e" and pid: "parse_id_fast P mid = Some i"
    and it: "tw_leases (tw (shard_of e q)) i = Some it" "if_receipt it = r"
    and ram: "hm_get (messages (shard_of e q)) i \<noteq> None" and fs: "fs_create_ok P"
    and a: "ack_batch P q [(mid, r)] e = (res, e')"
  shows "res = Inr 1" "hm_get (messages (shard_of e' q)) i = None" "i \<in> acked_ids (shard_of e' q)"
proof -
  let ?s = "shard_idx q" and ?st = "shard_of e q"
  have st: "shard_ok ?s {} ?st" and len: "length (shards e) = NUM_SHARDS"
    using ok shards_okD by (simp_all add: engine_ok_def shards_ok_def)
  obtain v w where rm: "remove_if_valid i r (tw ?st) = (v, w)" by (metis prod.exhaust)
  from remove_if_valid_ok [OF shard_okD(3) [OF st] rm] it have v: v by auto
  obtain b st' where am: "ack_msg q i (?st\<lparr>tw := w\<rparr>) = (b, st')" by (metis prod.exhaust)
  note A = ack_msg_spec [OF st rm [unfolded eqTrueI [OF v]] am]
  from A(2) ram have b: b by simp
  have "ack_batch P q [(mid, r)] e = compact_then P 1 ((set_shard ?s st' e)
      \<lparr>total_messages_in_ram := total_messages_in_ram e - 1, disk := flush P (append_ack_async i q (disk e))\<rparr>)"
    using pid rm v am b by (simp add: ack_batch_def ack_batch_item_def Let_def)
  with a fs len have "res = Inr 1" "shards e' ! ?s = st'"
    using compact_then_result [OF fs] by (auto simp: prod_eq_iff)
  with A b show "res = Inr 1" "hm_get (messages (shard_of e' q)) i = None" "i \<in> acked_ids (shard_of e' q)" by simp_all
qed

lemma leader_poll:
  assumes "engine_ok t e" "now = current_time_sec el e" "poll_time P t now vis e" "poll_clear now (shard_idx q) (shards e)"
    and "poll P el q vis k e = (res, e')"
  obtains polled where "res = Inr polled" "engine_ok now e'" "length polled \<le> unat k"
    "\<And>pm. pm \<in> set polled \<Longrightarrow> \<exists>i sm it. pm_message_id pm = ulid_to_string P i \<and>
       hm_get (messages (shard_of e' q)) i = Some sm \<and> sm_queue sm = q \<and> pm_payload pm = sm_payload sm \<and>
       tw_leases (tw (shard_of e' q)) i = Some it \<and> if_receipt it = pm_receipt_handle pm"
proof (rule poll_spec [OF assms(1-4) refl refl assms(5)])
  fix ms and ids :: "ulid list"
  let ?f = "\<lambda>(n, i). handed_out P i (the (hm_get ms i)) n" and ?ns = "enumerate (ulids_drawn e) ids"
  let ?ex = "now + ucast (poll_timeout (options e) vis)"
  assume ok': "engine_ok now e'" and res: "res = Inr (map ?f ?ns)" and len: "length ids \<le> unat k"
    and ids: "\<And>i. i \<in> set ids \<Longrightarrow> tw_leases (snd (collect_expired now (tw (shard_of e q)))) i = None \<and>
       (\<exists>m. hm_get ms i = Some m \<and> sm_id m = i \<and> sm_queue m = q \<and>
            hm_get (messages (shard_of e' q)) i = Some (redelivered m))"
    and leases: "\<And>n i. (n, i) \<in> set ?ns \<Longrightarrow> tw_leases (tw (shard_of e' q)) i = Some (new_lease P q ?ex i n)"
  show thesis
  proof (rule that [OF res ok'])
    show "length (map ?f ?ns) \<le> unat k" using len by simp
    fix pm assume "pm \<in> set (map ?f ?ns)"
    then obtain n i where ni: "(n, i) \<in> set ?ns" and pm: "pm = handed_out P i (the (hm_get ms i)) n" by auto
    then have "i \<in> set ids" by (metis enumerate_eq_zip set_zip_rightD)
    from ids [OF this] obtain m where "hm_get ms i = Some m" "sm_queue m = q"
      "hm_get (messages (shard_of e' q)) i = Some (redelivered m)" by blast
    with leases [OF ni] pm show "\<exists>i sm it. pm_message_id pm = ulid_to_string P i \<and>
       hm_get (messages (shard_of e' q)) i = Some sm \<and> sm_queue sm = q \<and> pm_payload pm = sm_payload sm \<and>
       tw_leases (tw (shard_of e' q)) i = Some it \<and> if_receipt it = pm_receipt_handle pm"
      by (intro exI [of _ i] exI [of _ "redelivered m"] exI [of _ "new_lease P q ?ex i n"])
        (simp add: handed_out_def new_lease_def)
  qed
qed

lemma leader_ack:
  assumes ok: "node_ok t (raft s)" and lead: "role (raft s) = Leader" and e: "e = engine (raft s)"
    and pid: "parse_id_fast P mid = Some i" and it: "tw_leases (tw (shard_of e q)) i = Some it" "if_receipt it = r"
    and ram: "hm_get (messages (shard_of e q)) i \<noteq> None" and fs: "fs_create_ok P"
    and cmd: "to_allocvec C (CmdRaftAck q mid r) \<noteq> None"
  shows "\<exists>rq s'. dispatch P C io (ReqAck q mid r) s = (RespAck True, rq, s') \<and>
    hm_get (messages (shard_of (engine (raft s')) q)) i = None"
proof -
  obtain ares e' where ab: "ack_batch P q [(mid, r)] e = (ares, e')" by (metis prod.exhaust)
  from ok e have eok: "engine_ok t e" by (simp add: node_ok_def)
  note one = ack_batch_one [OF eok pid it ram fs ab]
  obtain res rq n' where p: "propose_ack_batch P C (io_connect io) (io_replies io) q [(mid, r)] (raft s) = (res, rq, n')"
    by (metis prod.exhaust)
  from propose_ack_cases [OF p ab [unfolded e] refl] lead one(1) cmd have "res = Inr 1 \<and> engine n' = e'"
    by cases (auto split: option.splits)
  moreover from ok lead have "is_leader_fast (raft s)" by (simp add: node_ok_def is_leader_fast_def)
  ultimately show ?thesis using p one(2) by (simp add: dispatch.simps)
qed

text \<open>An acknowledgement of the message \<open>m\<close>, whose id is \<open>i\<close>, goes through: if the request and the log
  entry it causes can be serialized, the call of the client returns success and the message is gone.\<close>

definition acks_through :: "packages \<Rightarrow> raft_command postcard \<Rightarrow> request postcard \<Rightarrow> response postcard \<Rightarrow> surroundings \<Rightarrow>
    string \<Rightarrow> (response \<Rightarrow> string) \<Rightarrow> walr_server \<Rightarrow> string \<Rightarrow> message \<Rightarrow> ulid \<Rightarrow> client_inner \<Rightarrow> bool" where
  "acks_through P C Q R io addr debug s q m i c \<longleftrightarrow>
     (let mid = msg_message_id m; receipt = msg_receipt_handle m
      in sendable Q (ReqAck q mid receipt) \<longrightarrow> to_allocvec C (CmdRaftAck q mid receipt) \<noteq> None \<longrightarrow>
         (\<exists>c'. client_ack (server_net P C Q R io addr s) debug q mid receipt c = Some (Inr True, c')) \<and>
         hm_get (messages (shard_of (engine (raft (snd (snd (dispatch P C io (ReqAck q mid receipt) s))))) q)) i = None)"

lemma leader_acks_through:
  assumes "node_ok t (raft s)" "role (raft s) = Leader" "e = engine (raft s)"
    and "ulid_strings P" "msg_message_id m = ulid_to_string P i"
    and "tw_leases (tw (shard_of e q)) i = Some it" "if_receipt it = msg_receipt_handle m"
    and "hm_get (messages (shard_of e q)) i \<noteq> None" "fs_create_ok P"
    and "sendable R (RespAck True)" "io_write io = None" "resolve_initial_target q c = Inr addr"
  shows "acks_through P C Q R io addr debug s q m i c"
proof -
  let ?mid = "msg_message_id m" and ?receipt = "msg_receipt_handle m"
  have pid: "parse_id_fast P ?mid = Some i" using assms(4,5) by (simp add: parse_id_fast_def ulid_strings_def)
  have "(\<exists>c'. client_ack (server_net P C Q R io addr s) debug q ?mid ?receipt c = Some (Inr True, c')) \<and>
      hm_get (messages (shard_of (engine (raft (snd (snd (dispatch P C io (ReqAck q ?mid ?receipt) s))))) q)) i = None"
    if a: "sendable Q (ReqAck q ?mid ?receipt)" "to_allocvec C (CmdRaftAck q ?mid ?receipt) \<noteq> None"
  proof -
    from leader_ack [OF assms(1-3) pid assms(6-9) a(2), of io] obtain rq s2 where
      d: "dispatch P C io (ReqAck q ?mid ?receipt) s = (RespAck True, rq, s2)" "hm_get (messages (shard_of (engine (raft s2)) q)) i = None"
      by blast
    from send_to_server [OF a(1) assms(10,11) d(1) assms(12)] obtain c' where
      "send_with_redirect (server_net P C Q R io addr s) q (ReqAck q ?mid ?receipt) c = Some (Inr (RespAck True), c')" by blast
    with d show ?thesis by (simp add: client_ack_def call_def expect_def)
  qed
  then show ?thesis by (simp add: acks_through_def Let_def)
qed

lemma dispatch_leader_poll:
  assumes "is_leader_fast (raft s)" "k \<noteq> 0" "poll P (io_elapsed io) q vis k (engine (raft s)) = (Inr polled, e')"
    "dispatch P C io (ReqPoll q vis k) s = (resp, r, s1)"
  shows "resp = RespPoll (map wire_message polled)" "raft s1 = (raft s)\<lparr>engine := e'\<rparr>"
  using assms by (auto simp: dispatch.simps Let_def)


definition work_server :: walr_server where
  "work_server = new_raft (become_leader_for_test (with_threshold ''a'' [] demo_spilled 100)) ''a''"

definition work_io :: surroundings where
  "work_io = demo_io\<lparr>io_elapsed := 10\<rparr>"

definition work_reply :: response where
  "work_reply = fst (dispatch demo_packages (demo_codec []) work_io (ReqPoll ''jobs'' 0 5) work_server)"

lemma work_server_node:
  "raft_reach demo_packages (demo_codec []) (0, raft work_server)" "role (raft work_server) = Leader"
  "engine (raft work_server) = demo_spilled" "is_leader_fast (raft work_server)"
proof -
  have "raft_reach demo_packages (demo_codec []) (0, with_threshold ''a'' [] demo_spilled 100)"
    by (rule raft_start [OF demo_spilled_reach]) simp_all
  then have "raft_reach demo_packages (demo_codec []) (0, become_leader_for_test (with_threshold ''a'' [] demo_spilled 100))"
    by (rule raft_next) (rule rs_lead)
  then show "raft_reach demo_packages (demo_codec []) (0, raft work_server)" "role (raft work_server) = Leader"
    "engine (raft work_server) = demo_spilled" "is_leader_fast (raft work_server)"
    by (simp_all add: work_server_def new_raft_def new_raft_with_limits_def become_leader_for_test_def with_threshold_def is_leader_fast_def)
qed


section \<open>Producing messages\<close>

text \<open>The items of a batch that the client sends for a list of payloads, and what they become in the engine.\<close>

definition client_items :: "packages \<Rightarrow> (nat \<Rightarrow> string) \<Rightarrow> bytes list \<Rightarrow> batch_push_item list" where
  "client_items P new_ids payloads =
     map (\<lambda>(k, p). \<lparr>bi_payload = compress_wire_payload P p, bi_delay_seconds = 0, bi_message_id = new_ids k\<rparr>) (enumerate 0 payloads)"

definition stored_items :: "packages \<Rightarrow> (nat \<Rightarrow> ulid) \<Rightarrow> bytes list \<Rightarrow> push_item list" where
  "stored_items P u payloads =
     map (\<lambda>(k, p). \<lparr>pi_id = Some (u k), pi_payload = compress_wire_payload P p, pi_delay_seconds = 0\<rparr>) (enumerate 0 payloads)"

lemma map_enumerate_fst: "map (\<lambda>x. f (fst x)) (enumerate n xs) = map f [n..<n + length xs]"
proof -
  have "map (\<lambda>x. f (fst x)) (enumerate n xs) = map f (map fst (enumerate n xs))" by (simp add: comp_def del: map_fst_enumerate)
  then show ?thesis by simp
qed

lemma resolve_given:
  "\<forall>(m, p, d) \<in> set items. length m = 26 \<and> ulid_from_string P m \<noteq> None \<Longrightarrow>
    resolve_items P q items drawn = (map (\<lambda>(m, p, d). (m, the (ulid_from_string P m), CmdRaftPush q m p d)) items, drawn)"
  by (induction P q items drawn rule: resolve_items.induct) (auto simp: resolve_id_def Let_def)

lemma resolved_push_items:
  "push_items_of (map (\<lambda>(m, p, d). (m, f m, CmdRaftPush q m p d)) items) =
     map (\<lambda>(m, p, d). \<lparr>pi_id = Some (f m), pi_payload = p, pi_delay_seconds = d\<rparr>) items"
  by (induction items) (auto simp: push_items_of_def)

text \<open>A batch that is answered was committed by the leader: its engine has taken the items.\<close>

lemma dispatch_batch_answered:
  assumes "dispatch P C io (ReqPushBatch q items) s = (RespPushBatch ids, r, s1)"
  shows "propose_push_batch_items P C (io_elapsed io) (io_connect io) (io_replies io) q items (raft s) = (Inr ids, r, raft s1)"
proof -
  obtain res rq n where p: "propose_push_batch_items P C (io_elapsed io) (io_connect io) (io_replies io) q items (raft s) = (res, rq, n)"
    by (metis prod.exhaust)
  show ?thesis
    using assms unfolding dispatch.simps(2) p
    by (cases "is_leader_fast (raft s)"; cases "find (\<lambda>i. bad_id P (bi_message_id i)) items"; cases res) (auto simp: redirect_def)
qed

lemma resolve_client_items:
  assumes "\<forall>k < length payloads. length (new_ids k) = 26 \<and> ulid_from_string P (new_ids k) = Some (u k)"
    and "items = map (\<lambda>(k, p). (new_ids k, compress_wire_payload P p, 0)) (enumerate 0 payloads)"
  shows "\<exists>resolved. resolve_items P q items drawn = (resolved, drawn) \<and> map fst resolved = map new_ids [0..<length payloads] \<and>
    push_items_of resolved = stored_items P u payloads"
proof -
  let ?f = "\<lambda>(m, p, d). (m, the (ulid_from_string P m), CmdRaftPush q m p d)"
  have k: "(k, p) \<in> set (enumerate 0 payloads) \<Longrightarrow> k < length payloads" for k p by (simp add: in_set_enumerate_eq)
  have "resolve_items P q items drawn = (map ?f items, drawn)"
    by (rule resolve_given) (use assms k in \<open>auto simp: assms(2)\<close>)
  moreover have "map fst (map ?f items) = map new_ids [0..<length payloads]"
    by (simp add: assms(2) comp_def split_beta map_enumerate_fst)
  moreover have "push_items_of (map ?f items) = stored_items P u payloads"
    unfolding resolved_push_items assms(2) stored_items_def using assms(1) k by (auto simp: comp_def)
  ultimately show ?thesis by blast
qed

lemma answered_batch:
  assumes d: "dispatch P C io (ReqPushBatch q (client_items P new_ids payloads)) s = (RespPushBatch ids, r, s1)"
    and ids: "\<forall>k < length payloads. length (new_ids k) = 26 \<and> ulid_from_string P (new_ids k) = Some (u k)" and ne: "payloads \<noteq> []"
  shows "ids = map new_ids [0..<length payloads] \<and>
    engine (raft s1) = snd (push_batch P (io_elapsed io) q (stored_items P u payloads) (engine (raft s)))"
proof -
  define items where "items = map (\<lambda>(k, p). (new_ids k, compress_wire_payload P p, 0 :: u64)) (enumerate 0 payloads)"
  from dispatch_batch_answered [OF d]
  have p: "propose_push_batch P C (io_elapsed io) (io_connect io) (io_replies io) q items (raft s) = (Inr ids, r, raft s1)"
    by (simp add: propose_push_batch_items_def client_items_def items_def comp_def case_prod_unfold)
  have "items \<noteq> []" using ne by (simp add: items_def enumerate_eq_zip)
  from resolve_client_items [OF ids items_def, of q "ulids_drawn (engine (raft s))"] obtain resolved where
    r: "resolve_items P q items (ulids_drawn (engine (raft s))) = (resolved, ulids_drawn (engine (raft s)))"
    "map fst resolved = map new_ids [0..<length payloads]" "push_items_of resolved = stored_items P u payloads" by blast
  have m: "engine (maybe_compact k n) = engine n" for k n using maybe_compact_frame [of k n] by auto
  from p show ?thesis
  proof (cases rule: propose_push_cases)
    case no_items
    with \<open>items \<noteq> []\<close> show ?thesis by simp
  next
    case (committed resolved' drawn ws l c k)
    from committed(3) r(1) have "resolved' = resolved" "drawn = ulids_drawn (engine (raft s))" by simp_all
    with committed(7,9) r(2,3) show ?thesis by (simp add: m)
  qed simp_all
qed

lemma stored_items_ids:
  "map (\<lambda>item. the (pi_id item)) (stored_items P u payloads) = map u [0..<length payloads]"
  "(\<lambda>item. the (pi_id item)) ` set (stored_items P u payloads) = u ` {..<length payloads}"
  "item \<in> set (stored_items P u payloads) \<Longrightarrow> \<exists>k < length payloads. pi_id item = Some (u k)"
proof -
  show pi: "map (\<lambda>item. the (pi_id item)) (stored_items P u payloads) = map u [0..<length payloads]"
    by (simp add: stored_items_def comp_def case_prod_unfold map_enumerate_fst)
  show "(\<lambda>item. the (pi_id item)) ` set (stored_items P u payloads) = u ` {..<length payloads}"
    using arg_cong [OF pi, of set] by (simp add: atLeast0LessThan)
  show "\<exists>k < length payloads. pi_id item = Some (u k)" if "item \<in> set (stored_items P u payloads)"
    using that by (auto simp: stored_items_def in_set_enumerate_eq)
qed

text \<open>The log of an engine holds the records \<open>rs\<close> and takes the items of a batch: its names fit the registry, the segment
  does not fill up, and an engine opened with \<open>opts\<close> can hold all the messages in memory.\<close>

definition log_takes :: "packages \<Rightarrow> queue_options \<Rightarrow> string \<Rightarrow> u64 \<Rightarrow> push_item list \<Rightarrow> wal_record list \<Rightarrow> queue_engine \<Rightarrow> bool" where
  "log_takes P opts q now items rs e \<longleftrightarrow> log_holds P (disk e) rs \<and>
     can_write (registry (disk e)) (map (batch_rec q now) items) \<and>
     length (push_keys rs) + length items \<le> unat (max_hot_messages_in_ram opts) \<and>
     \<not> should_compact (flush P ((disk e)\<lparr>chan := chan (disk e) @ map (batch_cmd q now) items\<rparr>))"

text \<open>
  C8. A producer can rely on the answer: when the server answers a batch that the
  client library sent, the library returns the ids of the messages in order, and an engine opened later on the log
  files of the leader holds every one of them, in its queue and with a payload that decompresses to the one
  the producer passed. Every other message is as the log had it before.
\<close>

theorem produce_end_to_end:
  assumes server: "dispatch P C io req s = (RespPushBatch ids, r, s1)" "req = ReqPushBatch q (client_items P new_ids payloads)"
    and ids: "\<forall>k < length payloads. length (new_ids k) = 26 \<and> ulid_from_string P (new_ids k) = Some (u k)"
      "inj_on u {..<length payloads}" "\<forall>k < length payloads. u k \<notin> seen_ids (shard_of e q)"
    and wire: "sendable Q req" "sendable R (RespPushBatch ids)" "io_write io = None" "resolve_initial_target q c = Inr addr"
    and log: "e = engine (raft s)" "log_takes P opts q (current_time_sec (io_elapsed io) e) (stored_items P u payloads) rs e"
    and packages: "zstd_inverse P" and batch: "payloads \<noteq> []"
    and restart: "d = disk (engine (raft s1))" "e2 = engine_open P (wal_a d) (wal_b d) (manifest (registry d)) opts base"
  shows "(\<exists>c1. client_push_batch P (server_net P C Q R io addr s) debug new_ids q payloads c = Some (Inr (map new_ids [0..<length payloads]), c1)) \<and>
    (\<forall>k < length payloads. \<exists>sm. hm_get (messages (shard_of e2 q)) (u k) = Some sm \<and> sm_queue sm = q \<and>
       decompress_wire_payload P (sm_payload sm) = payloads ! k) \<and>
    (\<forall>sh < NUM_SHARDS. \<forall>j. sh \<noteq> shard_idx q \<or> j \<notin> u ` {..<length payloads} \<longrightarrow> hm_get (messages (shards e2 ! sh)) j = live opts rs (sh, j))"
proof -
  let ?items = "stored_items P u payloads" and ?now = "current_time_sec (io_elapsed io) e"
  have a: "ids = map new_ids [0..<length payloads]" "engine (raft s1) = snd (push_batch P (io_elapsed io) q ?items e)"
    using answered_batch [OF server(1) [unfolded server(2)] ids(1) batch] log(1) by simp_all
  from send_to_server [OF wire(1-3) server(1) wire(4)] obtain c1 where
    "send_with_redirect (server_net P C Q R io addr s) q req c = Some (Inr (RespPushBatch ids), c1)" by blast
  then have client: "client_push_batch P (server_net P C Q R io addr s) debug new_ids q payloads c = Some (Inr ids, c1)"
    by (simp add: client_push_batch_def push_batch_internal_def call_def expect_def server(2) client_items_def)
  note st = stored_items_ids [where P = P and u = u and payloads = payloads]
  have dist: "distinct (map (\<lambda>item. the (pi_id item)) ?items)"
    unfolding st(1) using ids(2) by (simp add: distinct_map atLeast0LessThan)
  with st(3) ids(3) have "batch_fresh (shard_of e q) ?items" by (fastforce simp: batch_fresh_def)
  from push_batch_recovered [OF _ this refl, of P rs "io_elapsed io" opts d base] log(2) restart a(2)
  have ram: "ram_map (shards e2) = live opts (rs @ map (batch_rec q ?now) ?items)" by (simp add: log_takes_def)
  have look: "hm_get (messages (shards e2 ! sh)) j = live opts (rs @ map (batch_rec q ?now) ?items) (sh, j)" if "sh < NUM_SHARDS" for sh j
    using fun_cong [OF ram, of "(sh, j)"] that by (simp add: ram_map_def)
  have "\<exists>sm. hm_get (messages (shard_of e2 q)) (u k) = Some sm \<and> sm_queue sm = q \<and> decompress_wire_payload P (sm_payload sm) = payloads ! k"
    if k: "k < length payloads" for k
  proof -
    let ?x = "\<lparr>pi_id = Some (u k), pi_payload = compress_wire_payload P (payloads ! k), pi_delay_seconds = 0\<rparr>"
    have "?x \<in> set ?items" using k by (force simp: stored_items_def in_set_enumerate_eq)
    from live_batch_item [OF dist this, of opts rs q ?now] look [OF shard_idx_less, of q "u k"] compress_roundtrip [OF packages]
    show ?thesis by simp
  qed
  with client a(1) look live_batch_other [of _ q _ ?items opts rs ?now] show ?thesis unfolding st(2) by auto
qed

abbreviation made_cmd :: raft_command where
  "made_cmd \<equiv> CmdRaftPush ''jobs'' demo_id [0, 1, 2, 3] 0"

definition make_server :: walr_server where
  "make_server = new_raft (become_leader_for_test (with_threshold ''a'' [] demo_engine 100)) ''a''"

lemma make_payload: "compress_wire_payload demo_packages [1, 2, 3] = [0, 1, 2, 3]"
  by (simp add: compress_wire_payload_def)

lemma make_dispatch:
  "\<exists>r s1. dispatch demo_packages (demo_codec [made_cmd]) demo_io (ReqPushBatch ''jobs'' (client_items demo_packages (\<lambda>_. demo_id) [[1, 2, 3]]))
     make_server = (RespPushBatch [demo_id], r, s1)"
proof -
  have i: "length demo_id = 26" "ulid_from_string demo_packages demo_id = Some 7"
    using demo_packages_strings by (simp_all add: ulid_strings_def)
  moreover from i(1) have "demo_id \<noteq> []" by (metis list.size(3) zero_neq_numeral)
  ultimately have "resolve_items demo_packages ''jobs'' [(demo_id, [0, 1, 2, 3], 0)] d = ([(demo_id, 7, made_cmd)], d)" for d
    by (simp add: resolve_id_def Let_def)
  moreover have "append_commands (demo_codec [made_cmd]) t j [made_cmd] l =
     (Some [\<lparr>we_term = t, we_index = j, we_command = []\<rparr>], l @ [\<lparr>le_term = t, le_index = j, le_command = made_cmd\<rparr>])" for t j l
    by (simp add: demo_codec_def)
  ultimately have "\<exists>n'. propose_push_batch demo_packages (demo_codec [made_cmd]) 5 (\<lambda>_. True) [] ''jobs'' [(demo_id, [0, 1, 2, 3], 0)]
      (raft make_server) = (Inr [demo_id], None, n')"
    by (simp add: propose_push_batch_def Let_def make_server_def new_raft_def new_raft_with_limits_def become_leader_for_test_def
        with_threshold_def del: append_commands.simps resolve_items.simps)
  moreover have "is_leader_fast (raft make_server)"
    by (simp add: make_server_def new_raft_def new_raft_with_limits_def become_leader_for_test_def with_threshold_def is_leader_fast_def)
  moreover have "\<not> bad_id demo_packages demo_id" using i by (simp add: bad_id_def)
  ultimately show ?thesis
    unfolding dispatch.simps(2) by (auto simp: client_items_def make_payload propose_push_batch_items_def demo_io_def)
qed

lemma make_log_takes:
  "log_takes demo_packages demo_options ''jobs'' 1600000005 (stored_items demo_packages (\<lambda>_. 7) [[1, 2, 3]]) [] demo_engine"
proof -
  let ?r = "WalPush 7 ''jobs'' 1600000005 [0, 1, 2, 3]" and ?c = "CmdPush 7 ''jobs'' 1600000005 [0, 1, 2, 3] None"
  have h: "demo_holds demo_log [] [?r]"
    by (rule demo_holds_start) (simp add: demo_names time_ok_def EPOCH_2020_SEC_def)
  then have w: "can_write (registry demo_log) [?r]" by (simp add: demo_holds_def)
  have "demo_holds (flush demo_packages (demo_log\<lparr>chan := chan demo_log @ [?c]\<rparr>)) [?r] []"
    using demo_holds_flush [of demo_log "[]" "[?c]" "[]"] h by (simp add: pending_def)
  then have "\<not> should_compact (flush demo_packages (demo_log\<lparr>chan := chan demo_log @ [?c]\<rparr>))"
    by (rule demo_holds_small) simp
  with w show ?thesis
    by (simp add: log_takes_def demo_log_holds stored_items_def batch_rec_def batch_cmd_def make_payload demo_options_def)
qed

theorem produce_end_to_end_witness:
  "\<exists>r s1 e2 sm. e2 = engine_open demo_packages (wal_a (disk (engine (raft s1)))) (wal_b (disk (engine (raft s1))))
       (manifest (registry (disk (engine (raft s1))))) demo_options 1700000000 \<and>
     dispatch demo_packages (demo_codec [made_cmd]) demo_io (ReqPushBatch ''jobs'' (client_items demo_packages (\<lambda>_. demo_id) [[1, 2, 3]]))
       make_server = (RespPushBatch [demo_id], r, s1) \<and>
     hm_get (messages (shard_of e2 ''jobs'')) 7 = Some sm \<and> decompress_wire_payload demo_packages (sm_payload sm) = [1, 2, 3]"
proof -
  let ?req = "ReqPushBatch ''jobs'' (client_items demo_packages (\<lambda>_. demo_id) [[1, 2, 3]])"
  obtain r s1 where d: "dispatch demo_packages (demo_codec [made_cmd]) demo_io ?req make_server = (RespPushBatch [demo_id], r, s1)"
    using make_dispatch by blast
  have i: "\<forall>k < length [[1, 2, 3 :: 8 word]]. length demo_id = 26 \<and> ulid_from_string demo_packages demo_id = Some 7"
    using demo_packages_strings by (simp add: ulid_strings_def)
  have e: "demo_engine = engine (raft make_server)"
    by (simp add: make_server_def new_raft_def new_raft_with_limits_def become_leader_for_test_def with_threshold_def)
  have t: "log_takes demo_packages demo_options ''jobs'' (current_time_sec (io_elapsed demo_io) demo_engine)
      (stored_items demo_packages (\<lambda>_. 7) [[1, 2, 3]]) [] demo_engine"
    using make_log_takes by (simp add: current_time_sec_def demo_engine_fields demo_io_def)
  have c: "resolve_initial_target ''jobs'' (client_new [''a''] client_config_default) = Inr ''a''"
    by (simp add: resolve_initial_target_def client_new_def)
  have q: "sendable (demo_codec [?req]) ?req" "sendable (demo_codec [RespPushBatch [demo_id]]) (RespPushBatch [demo_id])"
    by (simp_all add: demo_codec_sendable)
  have u: "\<forall>k < length [[1, 2, 3 :: 8 word]]. 7 \<notin> seen_ids (shard_of demo_engine ''jobs'')" by (simp add: demo_engine_fields shard_new_def)
  have z: "zstd_inverse demo_packages" by (simp add: zstd_inverse_def demo_packages_def)
  have j: "inj_on (\<lambda>_ :: nat. 7 :: ulid) {..<length [[1, 2, 3 :: 8 word]]}" by (simp add: lessThan_Suc)
  have w: "io_write demo_io = None" by (simp add: demo_io_def)
  from produce_end_to_end [where base = 1700000000, OF d refl i j u q w c e t z _ refl refl, of "\<lambda>_. []"] have
    "\<exists>sm. hm_get (messages (shard_of (engine_open demo_packages (wal_a (disk (engine (raft s1)))) (wal_b (disk (engine (raft s1))))
       (manifest (registry (disk (engine (raft s1))))) demo_options 1700000000) ''jobs'')) 7 = Some sm \<and>
       decompress_wire_payload demo_packages (sm_payload sm) = [1, 2, 3]" by auto
  with d show ?thesis by blast
qed

end
